(* ===== verification/Prelude.thy ===== *)
theory Prelude
  imports Complex_Main "HOL-Library.Word" "HOL-Library.Monad_Syntax" "HOL-Library.Multiset"
begin

text \<open>
  Vocabulary shared by the components: Go's fixed-width integers as words, byte slices as
  lists, a run-time panic as \<open>None\<close> of the option monad, the big-endian accessors of
  \<^verbatim>\<open>encoding/binary\<close>, and Go's signed 64-bit arithmetic on \<open>int\<close> with the
  wrap-around written out (for \<^verbatim>\<open>time.Duration\<close>).

  The collections: \<open>go_bytes\<close> holds the rules that evaluate in-range slice accesses,
  \<open>codec\<close> the round-trip equations of the fixed-width fields, and \<open>go_int\<close> the rules
  that remove a wrap-around where the value is in range.
\<close>

named_theorems go_bytes \<open>in-range evaluation of slice reads and writes\<close>
named_theorems codec \<open>round trips of fixed-width big-endian fields\<close>
named_theorems go_int \<open>signed arithmetic without overflow\<close>

unbundle bit_operations_syntax

type_synonym byte = "8 word"
type_synonym u16 = "16 word"
type_synonym u32 = "32 word"
type_synonym u64 = "64 word"
type_synonym bytes = "byte list"

section \<open>Slices: an access out of range panics\<close>

definition idx :: "'a list \<Rightarrow> nat \<Rightarrow> 'a option" where
  "idx b i = (if i < length b then Some (b ! i) else None)"

definition slice_from :: "'a list \<Rightarrow> nat \<Rightarrow> 'a list option" where
  "slice_from b i = (if i \<le> length b then Some (drop i b) else None)"

definition slice :: "'a list \<Rightarrow> nat \<Rightarrow> nat \<Rightarrow> 'a list option" where
  "slice b i j = (if i \<le> j \<and> j \<le> length b then Some (drop i (take j b)) else None)"

definition set_idx :: "'a list \<Rightarrow> nat \<Rightarrow> 'a \<Rightarrow> 'a list option" where
  "set_idx b i v = (if i < length b then Some (b[i := v]) else None)"

lemma idx_ok [go_bytes]: "i < length b \<Longrightarrow> idx b i = Some (b ! i)"
  by (simp add: idx_def)

lemma idx_0 [go_bytes]: "b \<noteq> [] \<Longrightarrow> idx b 0 = Some (b ! 0)"
  by (simp add: idx_def)

lemma slice_from_ok [go_bytes]: "i \<le> length b \<Longrightarrow> slice_from b i = Some (drop i b)"
  by (simp add: slice_from_def)

lemma slice_ok [go_bytes]: "i \<le> j \<Longrightarrow> j \<le> length b \<Longrightarrow> slice b i j = Some (drop i (take j b))"
  by (simp add: slice_def)

lemma set_idx_ok [go_bytes]: "i < length b \<Longrightarrow> set_idx b i v = Some (b[i := v])"
  by (simp add: set_idx_def)

lemma set_idx_0 [go_bytes]: "b \<noteq> [] \<Longrightarrow> set_idx b 0 v = Some (b[0 := v])"
  by (simp add: set_idx_def)

lemma nonempty_of_length: "n \<le> length b \<Longrightarrow> 0 < n \<Longrightarrow> b \<noteq> []"
  by auto

section \<open>Big-endian fields\<close>

definition byte_at :: "nat \<Rightarrow> 'a::len word \<Rightarrow> byte" where
  "byte_at k v = ucast (drop_bit (8 * k) v)"

definition be16 :: "byte \<Rightarrow> byte \<Rightarrow> u16" where
  "be16 b0 b1 = ucast b1 OR push_bit 8 (ucast b0)"

definition be24 :: "byte \<Rightarrow> byte \<Rightarrow> byte \<Rightarrow> u32" where
  "be24 b0 b1 b2 = push_bit 16 (ucast b0) OR push_bit 8 (ucast b1) OR ucast b2"

definition be32 :: "byte \<Rightarrow> byte \<Rightarrow> byte \<Rightarrow> byte \<Rightarrow> u32" where
  "be32 b0 b1 b2 b3 =
     ucast b3 OR push_bit 8 (ucast b2) OR push_bit 16 (ucast b1) OR push_bit 24 (ucast b0)"

definition be64 :: "byte \<Rightarrow> byte \<Rightarrow> byte \<Rightarrow> byte \<Rightarrow> byte \<Rightarrow> byte \<Rightarrow> byte \<Rightarrow> byte \<Rightarrow> u64" where
  "be64 b0 b1 b2 b3 b4 b5 b6 b7 =
     ucast b7 OR push_bit 8 (ucast b6) OR push_bit 16 (ucast b5) OR push_bit 24 (ucast b4)
     OR push_bit 32 (ucast b3) OR push_bit 40 (ucast b2) OR push_bit 48 (ucast b1)
     OR push_bit 56 (ucast b0)"

text \<open>
  \<^verbatim>\<open>binary.BigEndian.UintN(b[i:])\<close> and \<^verbatim>\<open>PutUintN(b[i:], v)\<close>: both panic when fewer than
  N/8 bytes remain.
\<close>

definition get_u16 :: "bytes \<Rightarrow> nat \<Rightarrow> u16 option" where
  "get_u16 b i = (if i + 2 \<le> length b then Some (be16 (b ! i) (b ! (i + 1))) else None)"

definition get_u32 :: "bytes \<Rightarrow> nat \<Rightarrow> u32 option" where
  "get_u32 b i =
     (if i + 4 \<le> length b then Some (be32 (b ! i) (b ! (i + 1)) (b ! (i + 2)) (b ! (i + 3)))
      else None)"

definition get_u64 :: "bytes \<Rightarrow> nat \<Rightarrow> u64 option" where
  "get_u64 b i =
     (if i + 8 \<le> length b
      then Some (be64 (b ! i) (b ! (i + 1)) (b ! (i + 2)) (b ! (i + 3))
                      (b ! (i + 4)) (b ! (i + 5)) (b ! (i + 6)) (b ! (i + 7)))
      else None)"

definition put_u16 :: "bytes \<Rightarrow> nat \<Rightarrow> u16 \<Rightarrow> bytes option" where
  "put_u16 b i v =
     (if i + 2 \<le> length b then Some (b[i := byte_at 1 v, i + 1 := byte_at 0 v]) else None)"

definition put_u32 :: "bytes \<Rightarrow> nat \<Rightarrow> u32 \<Rightarrow> bytes option" where
  "put_u32 b i v =
     (if i + 4 \<le> length b
      then Some (b[i := byte_at 3 v, i + 1 := byte_at 2 v, i + 2 := byte_at 1 v,
                   i + 3 := byte_at 0 v])
      else None)"

definition put_u64 :: "bytes \<Rightarrow> nat \<Rightarrow> u64 \<Rightarrow> bytes option" where
  "put_u64 b i v =
     (if i + 8 \<le> length b
      then Some (b[i := byte_at 7 v, i + 1 := byte_at 6 v, i + 2 := byte_at 5 v,
                   i + 3 := byte_at 4 v, i + 4 := byte_at 3 v, i + 5 := byte_at 2 v,
                   i + 6 := byte_at 1 v, i + 7 := byte_at 0 v])
      else None)"

lemma get_u16_ok [go_bytes]: "i + 2 \<le> length b \<Longrightarrow> get_u16 b i = Some (be16 (b ! i) (b ! (i + 1)))"
  by (simp add: get_u16_def)

lemma get_u32_ok [go_bytes]:
  "i + 4 \<le> length b \<Longrightarrow>
     get_u32 b i = Some (be32 (b ! i) (b ! (i + 1)) (b ! (i + 2)) (b ! (i + 3)))"
  by (simp add: get_u32_def)

lemma get_u64_ok [go_bytes]:
  "i + 8 \<le> length b \<Longrightarrow>
     get_u64 b i = Some (be64 (b ! i) (b ! (i + 1)) (b ! (i + 2)) (b ! (i + 3))
                              (b ! (i + 4)) (b ! (i + 5)) (b ! (i + 6)) (b ! (i + 7)))"
  by (simp add: get_u64_def)

lemma put_u16_ok [go_bytes]:
  "i + 2 \<le> length b \<Longrightarrow> put_u16 b i v = Some (b[i := byte_at 1 v, i + 1 := byte_at 0 v])"
  by (simp add: put_u16_def)

lemma put_u32_ok [go_bytes]:
  "i + 4 \<le> length b \<Longrightarrow>
     put_u32 b i v = Some (b[i := byte_at 3 v, i + 1 := byte_at 2 v, i + 2 := byte_at 1 v,
                             i + 3 := byte_at 0 v])"
  by (simp add: put_u32_def)

lemma put_u64_ok [go_bytes]:
  "i + 8 \<le> length b \<Longrightarrow>
     put_u64 b i v = Some (b[i := byte_at 7 v, i + 1 := byte_at 6 v, i + 2 := byte_at 5 v,
                             i + 3 := byte_at 4 v, i + 4 := byte_at 3 v, i + 5 := byte_at 2 v,
                             i + 6 := byte_at 1 v, i + 7 := byte_at 0 v])"
  by (simp add: put_u64_def)

subsection \<open>Round trips of the fields\<close>

lemma bit_byte_at: "bit (byte_at k v) n \<longleftrightarrow> n < 8 \<and> bit v (8 * k + n)"
  by (auto simp: byte_at_def bit_simps)

lemma bit_push_byte:
  "bit (push_bit k (ucast (byte_at j v)) :: 'b::len word) n \<longleftrightarrow>
     n < LENGTH('b) \<and> k \<le> n \<and> n < k + 8 \<and> bit v (8 * j + n - k)"
  by (auto simp: bit_simps bit_byte_at)

lemma bit_ucast_byte:
  "bit (ucast (byte_at j v) :: 'b::len word) n \<longleftrightarrow>
     n < LENGTH('b) \<and> n < 8 \<and> bit v (8 * j + n)"
  by (auto simp: bit_simps bit_byte_at)

lemmas field_bits = bit_or_iff bit_and_iff bit_mask_iff bit_push_byte bit_ucast_byte

lemma be16_byte_at [codec]: "be16 (byte_at 1 v) (byte_at 0 v) = v"
  by (rule bit_word_eqI) (auto simp: be16_def field_bits)

lemma be24_byte_at [codec]: "be24 (byte_at 2 v) (byte_at 1 v) (byte_at 0 v) = v AND mask 24"
  by (rule bit_word_eqI) (auto simp: be24_def field_bits)

lemma be32_byte_at [codec]:
  "be32 (byte_at 3 v) (byte_at 2 v) (byte_at 1 v) (byte_at 0 v) = v"
  by (rule bit_word_eqI) (auto simp: be32_def field_bits)

lemma be64_byte_at [codec]:
  "be64 (byte_at 7 v) (byte_at 6 v) (byte_at 5 v) (byte_at 4 v)
        (byte_at 3 v) (byte_at 2 v) (byte_at 1 v) (byte_at 0 v) = v"
  by (rule bit_word_eqI) (auto simp: be64_def field_bits)

lemma bit_byte_bound: "bit (b :: byte) n \<Longrightarrow> n < 8"
  using bit_imp_le_length [of b n] by simp

lemma byte_at_be16 [codec]: "byte_at 1 (be16 b0 b1) = b0" "byte_at 0 (be16 b0 b1) = b1"
  by (auto simp: bit_eq_iff be16_def bit_byte_at bit_simps dest: bit_byte_bound)

lemma byte_at_be24 [codec]:
  "byte_at 2 (be24 b0 b1 b2) = b0" "byte_at 1 (be24 b0 b1 b2) = b1"
  "byte_at 0 (be24 b0 b1 b2) = b2"
  by (auto simp: bit_eq_iff be24_def bit_byte_at bit_simps dest: bit_byte_bound)

lemma byte_at_be32 [codec]:
  "byte_at 3 (be32 b0 b1 b2 b3) = b0" "byte_at 2 (be32 b0 b1 b2 b3) = b1"
  "byte_at 1 (be32 b0 b1 b2 b3) = b2" "byte_at 0 (be32 b0 b1 b2 b3) = b3"
  by (auto simp: bit_eq_iff be32_def bit_byte_at bit_simps dest: bit_byte_bound)

lemma byte_at_be64 [codec]:
  "byte_at 7 (be64 b0 b1 b2 b3 b4 b5 b6 b7) = b0" "byte_at 6 (be64 b0 b1 b2 b3 b4 b5 b6 b7) = b1"
  "byte_at 5 (be64 b0 b1 b2 b3 b4 b5 b6 b7) = b2" "byte_at 4 (be64 b0 b1 b2 b3 b4 b5 b6 b7) = b3"
  "byte_at 3 (be64 b0 b1 b2 b3 b4 b5 b6 b7) = b4" "byte_at 2 (be64 b0 b1 b2 b3 b4 b5 b6 b7) = b5"
  "byte_at 1 (be64 b0 b1 b2 b3 b4 b5 b6 b7) = b6" "byte_at 0 (be64 b0 b1 b2 b3 b4 b5 b6 b7) = b7"
  by (auto simp: bit_eq_iff be64_def bit_byte_at bit_simps dest: bit_byte_bound)

lemmas codec_Suc [codec] =
  be16_byte_at [unfolded One_nat_def] be24_byte_at [unfolded One_nat_def]
  be32_byte_at [unfolded One_nat_def] be64_byte_at [unfolded One_nat_def]
  byte_at_be16 [unfolded One_nat_def] byte_at_be24 [unfolded One_nat_def]
  byte_at_be32 [unfolded One_nat_def] byte_at_be64 [unfolded One_nat_def]

definition bytes_of_u16 :: "u16 \<Rightarrow> bytes" where
  "bytes_of_u16 v = [byte_at 1 v, byte_at 0 v]"

definition bytes_of_u24 :: "u32 \<Rightarrow> bytes" where
  "bytes_of_u24 v = [byte_at 2 v, byte_at 1 v, byte_at 0 v]"

definition bytes_of_u32 :: "u32 \<Rightarrow> bytes" where
  "bytes_of_u32 v = [byte_at 3 v, byte_at 2 v, byte_at 1 v, byte_at 0 v]"

definition bytes_of_u64 :: "u64 \<Rightarrow> bytes" where
  "bytes_of_u64 v = [byte_at 7 v, byte_at 6 v, byte_at 5 v, byte_at 4 v,
                     byte_at 3 v, byte_at 2 v, byte_at 1 v, byte_at 0 v]"

lemmas field_bytes = bytes_of_u16_def bytes_of_u24_def bytes_of_u32_def bytes_of_u64_def

lemma split_at_length: "n \<le> length b \<Longrightarrow> \<exists>xs ys. b = xs @ ys \<and> length xs = n"
  by (metis append_take_drop_id length_take min.absorb2)

lemma replicate_numeral_conv: "replicate (numeral k) x = x # replicate (pred_numeral k) x"
  by (simp add: numeral_eq_Suc)

lemma take_nths: "n \<le> length b \<Longrightarrow> take n b = map ((!) b) [0..<n]"
  by (rule nth_equalityI) auto

lemma upt_eval: "[0..<numeral k] = 0 # [1..<numeral k]" "[Suc 0..<n] = (if 1 < n then 1 # [2..<n] else [])"
  by (auto simp: upt_rec [of 0] upt_rec [of "Suc 0"] numeral_2_eq_2)

lemma length_numeral_conv:
  "length xs = numeral k \<longleftrightarrow> (\<exists>y ys. xs = y # ys \<and> length ys = pred_numeral k)"
  by (simp add: numeral_eq_Suc length_Suc_conv)

lemma byte_at_mask24 [codec]:
  "byte_at 2 (v AND mask 24) = byte_at 2 (v :: u32)" "byte_at 1 (v AND mask 24) = byte_at 1 v"
  "byte_at (Suc 0) (v AND mask 24) = byte_at (Suc 0) v" "byte_at 0 (v AND mask 24) = byte_at 0 v"
  by (auto simp: bit_eq_iff bit_byte_at bit_simps)

lemma be24_mask [codec]: "be24 b0 b1 b2 AND mask 24 = be24 b0 b1 b2"
  by (rule bit_word_eqI) (auto simp: be24_def bit_simps dest: bit_byte_bound)

lemma mask24_idem [codec]: "((v :: u32) AND mask 24) AND mask 24 = v AND mask 24"
  by (simp add: and.assoc)

section \<open>Signed 64-bit values on \<open>int\<close>\<close>

text \<open>\<open>i64\<close> reduces a value into the range of \<^verbatim>\<open>int64\<close> as Go's arithmetic does.\<close>

definition i64 :: "int \<Rightarrow> int" where
  "i64 x = (x + 2 ^ 63) mod 2 ^ 64 - 2 ^ 63"

lemma i64_id [go_int]: "- (2 ^ 63) \<le> x \<Longrightarrow> x < 2 ^ 63 \<Longrightarrow> i64 x = x"
  by (simp add: i64_def)

lemma i64_range: "- (2 ^ 63) \<le> i64 x" "i64 x < 2 ^ 63"
  by (simp_all add: i64_def)

lemma i64_sint: "i64 (sint (w :: u64)) = sint w"
  using sint_range_size [of w] by (intro i64_id) (simp_all add: word_size)

text \<open>Go's integer division truncates towards zero.\<close>

definition quot :: "int \<Rightarrow> int \<Rightarrow> int" where
  "quot a b = sgn a * sgn b * (\<bar>a\<bar> div \<bar>b\<bar>)"

definition remq :: "int \<Rightarrow> int \<Rightarrow> int" where
  "remq a b = a - b * quot a b"

lemma quot_nonneg [go_int]: "0 \<le> a \<Longrightarrow> 0 < b \<Longrightarrow> quot a b = a div b"
  by (cases "a = 0") (simp_all add: quot_def)

lemma remq_nonneg [go_int]: "0 \<le> a \<Longrightarrow> 0 < b \<Longrightarrow> remq a b = a mod b"
  by (simp add: remq_def quot_nonneg minus_mult_div_eq_mod)

section \<open>Durations\<close>

text \<open>Nanoseconds, as in package \<^verbatim>\<open>time\<close>.\<close>

type_synonym duration = int
type_synonym timestamp = int

definition Microsecond :: duration where "Microsecond = 1000"
definition Millisecond :: duration where "Millisecond = 1000000"
definition Second :: duration where "Second = 1000000000"

lemmas time_units = Microsecond_def Millisecond_def Second_def

text \<open>
  A \<^verbatim>\<open>time.Time\<close> is its distance from the Unix epoch; the zero value is 1 January of year 1.
\<close>

definition zeroTime :: timestamp where "zeroTime = - 62135596800 * Second"

text \<open>\<^verbatim>\<open>now.Sub\<close> saturates at the ends of \<^verbatim>\<open>int64\<close>.\<close>

definition time_sub :: "timestamp \<Rightarrow> timestamp \<Rightarrow> duration" where
  "time_sub a b = max (- (2 ^ 63)) (min (2 ^ 63 - 1) (a - b))"

section \<open>Components that take values in and give them back\<close>

text \<open>
  A component that holds packets (the reorder ring, the receive queue of the WireGuard bind)
  is a step function from an operation and a state to an optional new state and outputs,
  \<open>None\<close> where an operation does not return. \<open>run_ops\<close> runs a sequence of operations.
\<close>

fun run_ops :: "('op \<Rightarrow> 's \<Rightarrow> ('s \<times> 'o list) option) \<Rightarrow> 'op list \<Rightarrow> 's \<Rightarrow> ('s \<times> 'o list) option" where
  "run_ops step [] s = Some (s, [])"
| "run_ops step (x # xs) s =
     Option.bind (step x s) (\<lambda>(s', os). Option.bind (run_ops step xs s') (\<lambda>(s'', os'). Some (s'', os @ os')))"

text \<open>
  The contract: under its invariant every operation its caller may ask for returns, keeps the
  invariant, and what it took in and held before is what it gives out and holds after. Then so
  does every run.
\<close>

locale conserving =
  fixes step :: "'op \<Rightarrow> 's \<Rightarrow> ('s \<times> 'o list) option"
    and ok :: "'op \<Rightarrow> bool"
    and inv :: "'s \<Rightarrow> bool"
    and holds :: "'s \<Rightarrow> 'v multiset"
    and takes :: "'op \<Rightarrow> 'v multiset"
    and gives :: "'o list \<Rightarrow> 'v multiset"
  assumes step_returns: "inv s \<Longrightarrow> ok x \<Longrightarrow> \<exists>s' os. step x s = Some (s', os)"
    and step_inv: "inv s \<Longrightarrow> ok x \<Longrightarrow> step x s = Some (s', os) \<Longrightarrow> inv s'"
    and step_conserves: "inv s \<Longrightarrow> ok x \<Longrightarrow> step x s = Some (s', os) \<Longrightarrow> takes x + holds s = gives os + holds s'"
    and gives_Nil: "gives [] = {#}"
    and gives_append: "gives (os @ os') = gives os + gives os'"
begin

lemma run_conserves:
  "inv s \<Longrightarrow> list_all ok xs \<Longrightarrow> \<exists>s' os. run_ops step xs s = Some (s', os) \<and> inv s' \<and>
     sum_list (map takes xs) + holds s = gives os + holds s'"
proof (induction xs arbitrary: s)
  case Nil
  then show ?case by (simp add: gives_Nil)
next
  case (Cons x xs)
  obtain s1 o1 where 1: "step x s = Some (s1, o1)"
    using step_returns [of s x] Cons.prems by auto
  obtain s2 o2 where 2: "run_ops step xs s1 = Some (s2, o2)" "inv s2"
      "sum_list (map takes xs) + holds s1 = gives o2 + holds s2"
    using Cons.IH [of s1] step_inv [OF _ _ 1] Cons.prems by auto
  have "takes x + sum_list (map takes xs) + holds s = gives (o1 @ o2) + holds s2"
    using step_conserves [OF _ _ 1] Cons.prems 2(3)
    by (simp add: gives_append) (metis add.assoc add.commute)
  with 1 2 show ?case by simp
qed

end

end
