(* ===== verification/Wire.thy ===== *)
theory Wire
  imports Prelude
begin

text \<open>
  Package \<^verbatim>\<open>internal/wire\<close>: the common header, the DATA and FEC framings and the
  control-plane tag. A parser returns \<open>None\<close> where the Go code would panic, and a sum of
  the package's error values and the parsed header otherwise; an encoder returns \<open>None\<close>
  where the bounds check at its top panics.

  The lemmas show that no parser panics on any input, that each format is a bijection
  between the accepted datagrams and the headers it can carry, and that a tag is accepted
  exactly when it is the tag of the message in front of it.
\<close>

section \<open>Constants and headers\<close>

definition Version :: byte where [simp]: "Version = 1"

definition TypeData :: byte where [simp]: "TypeData = 0"
definition TypeProbe :: byte where [simp]: "TypeProbe = 1"
definition TypeProbeAck :: byte where [simp]: "TypeProbeAck = 2"
definition TypeCtrl :: byte where [simp]: "TypeCtrl = 3"
definition TypeFEC :: byte where [simp]: "TypeFEC = 4"
definition TypeHello :: byte where [simp]: "TypeHello = 5"
definition TypeHelloAck :: byte where [simp]: "TypeHelloAck = 6"
definition TypeBye :: byte where [simp]: "TypeBye = 7"
definition maxType :: byte where [simp]: "maxType = TypeBye"

definition FlagDup :: byte where [simp]: "FlagDup = 1"
definition FlagFECInfo :: byte where [simp]: "FlagFECInfo = 2"

definition ClassBulk :: byte where [simp]: "ClassBulk = 0"
definition ClassRealtime :: byte where [simp]: "ClassRealtime = 1"
definition ClassInteractive :: byte where [simp]: "ClassInteractive = 2"

definition HeaderSize :: nat where [simp]: "HeaderSize = 4"
definition DataHeaderSize :: nat where [simp]: "DataHeaderSize = 20"
definition DataHeaderFECSize :: nat where [simp]: "DataHeaderFECSize = DataHeaderSize + 4"
definition FECHeaderSize :: nat where [simp]: "FECHeaderSize = 16"
definition MACSize :: nat where [simp]: "MACSize = 16"

datatype wire_error = ErrShortBuffer | ErrVersion | ErrType

record Header =
  Type :: byte
  Flags :: byte
  PathID :: byte
  Epoch :: byte

definition Class :: "Header \<Rightarrow> byte" where
  "Class h = drop_bit 2 (Flags h) AND 3"

definition ClassFlags :: "byte \<Rightarrow> byte" where
  "ClassFlags class = push_bit 2 class AND 12"

definition PutHeader :: "bytes \<Rightarrow> Header \<Rightarrow> bytes option" where
  "PutHeader b h = do {
     _ \<leftarrow> idx b (HeaderSize - 1);
     b \<leftarrow> set_idx b 0 (push_bit 4 Version OR (Type h AND 15));
     b \<leftarrow> set_idx b 1 (Flags h);
     b \<leftarrow> set_idx b 2 (PathID h);
     set_idx b 3 (Epoch h)
   }"

definition ParseHeader :: "bytes \<Rightarrow> (wire_error + Header) option" where
  "ParseHeader b =
     (if length b < HeaderSize then Some (Inl ErrShortBuffer)
      else do {
        b0 \<leftarrow> idx b 0;
        if drop_bit 4 b0 \<noteq> Version then Some (Inl ErrVersion)
        else do {
          b1 \<leftarrow> idx b 1;
          b2 \<leftarrow> idx b 2;
          b3 \<leftarrow> idx b 3;
          let h = \<lparr>Type = b0 AND 15, Flags = b1, PathID = b2, Epoch = b3\<rparr> in
          if Type h > maxType then Some (Inl ErrType) else Some (Inr h)
        }
      })"

record DataHeader =
  DHeader :: Header
  Session :: u32
  GlobalSeq :: u32
  PathSeq :: u32
  TxTS :: u32
  FECGroup :: u32
  FECIndex :: byte

definition DataLen :: "DataHeader \<Rightarrow> nat" where
  "DataLen d =
     (if Flags (DHeader d) AND FlagFECInfo \<noteq> 0 then DataHeaderFECSize else DataHeaderSize)"

definition PutDataHeader :: "bytes \<Rightarrow> DataHeader \<Rightarrow> (bytes \<times> nat) option" where
  "PutDataHeader b d = (let n = DataLen d in do {
     _ \<leftarrow> idx b (n - 1);
     b \<leftarrow> PutHeader b (DHeader d);
     b \<leftarrow> put_u32 b 4 (Session d);
     b \<leftarrow> put_u32 b 8 (GlobalSeq d);
     b \<leftarrow> put_u32 b 12 (PathSeq d);
     b \<leftarrow> put_u32 b 16 (TxTS d);
     if Flags (DHeader d) AND FlagFECInfo \<noteq> 0 then do {
       b \<leftarrow> set_idx b 20 (byte_at 2 (FECGroup d));
       b \<leftarrow> set_idx b 21 (byte_at 1 (FECGroup d));
       b \<leftarrow> set_idx b 22 (byte_at 0 (FECGroup d));
       b \<leftarrow> set_idx b 23 (FECIndex d);
       Some (b, n)
     }
     else Some (b, n)
   })"

definition ParseDataHeader :: "bytes \<Rightarrow> (wire_error + DataHeader \<times> bytes) option" where
  "ParseDataHeader b = do {
     r \<leftarrow> ParseHeader b;
     case r of
       Inl e \<Rightarrow> Some (Inl e)
     | Inr h \<Rightarrow>
         if Type h \<noteq> TypeData then Some (Inl ErrType)
         else (let d = \<lparr>DHeader = h, Session = 0, GlobalSeq = 0, PathSeq = 0, TxTS = 0,
                        FECGroup = 0, FECIndex = 0\<rparr> in
           if length b < DataLen d then Some (Inl ErrShortBuffer)
           else do {
             s \<leftarrow> get_u32 b 4;
             g \<leftarrow> get_u32 b 8;
             p \<leftarrow> get_u32 b 12;
             t \<leftarrow> get_u32 b 16;
             let d = d\<lparr>Session := s, GlobalSeq := g, PathSeq := p, TxTS := t\<rparr> in
             if Flags (DHeader d) AND FlagFECInfo \<noteq> 0 then do {
               b20 \<leftarrow> idx b 20;
               b21 \<leftarrow> idx b 21;
               b22 \<leftarrow> idx b 22;
               b23 \<leftarrow> idx b 23;
               rest \<leftarrow> slice_from b DataHeaderFECSize;
               Some (Inr (d\<lparr>FECGroup := be24 b20 b21 b22, FECIndex := b23\<rparr>, rest))
             }
             else do {
               rest \<leftarrow> slice_from b DataHeaderSize;
               Some (Inr (d, rest))
             }
           })
   }"

record FECHeader =
  FHeader :: Header
  FSession :: u32
  FGroup :: u32
  FIndex :: byte
  FK :: byte
  FM :: byte
  ShardLen :: u16

definition PutFECHeader :: "bytes \<Rightarrow> FECHeader \<Rightarrow> (bytes \<times> nat) option" where
  "PutFECHeader b f = do {
     _ \<leftarrow> idx b (FECHeaderSize - 1);
     let f = f\<lparr>FHeader := (FHeader f)\<lparr>Type := TypeFEC\<rparr>\<rparr>;
     b \<leftarrow> PutHeader b (FHeader f);
     b \<leftarrow> put_u32 b 4 (FSession f);
     b \<leftarrow> set_idx b 8 (byte_at 2 (FGroup f));
     b \<leftarrow> set_idx b 9 (byte_at 1 (FGroup f));
     b \<leftarrow> set_idx b 10 (byte_at 0 (FGroup f));
     b \<leftarrow> set_idx b 11 (FIndex f);
     b \<leftarrow> set_idx b 12 (FK f);
     b \<leftarrow> set_idx b 13 (FM f);
     b \<leftarrow> put_u16 b 14 (ShardLen f);
     Some (b, FECHeaderSize)
   }"

definition ParseFEC :: "bytes \<Rightarrow> (wire_error + FECHeader \<times> bytes) option" where
  "ParseFEC b = do {
     r \<leftarrow> ParseHeader b;
     case r of
       Inl e \<Rightarrow> Some (Inl e)
     | Inr h \<Rightarrow>
         if Type h \<noteq> TypeFEC then Some (Inl ErrType)
         else if length b < FECHeaderSize then Some (Inl ErrShortBuffer)
         else do {
           s \<leftarrow> get_u32 b 4;
           b8 \<leftarrow> idx b 8;
           b9 \<leftarrow> idx b 9;
           b10 \<leftarrow> idx b 10;
           b11 \<leftarrow> idx b 11;
           b12 \<leftarrow> idx b 12;
           b13 \<leftarrow> idx b 13;
           sl \<leftarrow> get_u16 b 14;
           let f = \<lparr>FHeader = h, FSession = s, FGroup = be24 b8 b9 b10, FIndex = b11,
                    FK = b12, FM = b13, ShardLen = sl\<rparr> in
           if unat (ShardLen f) \<noteq> length b - FECHeaderSize then Some (Inl ErrShortBuffer)
           else do {
             rest \<leftarrow> slice_from b FECHeaderSize;
             Some (Inr (f, rest))
           }
         }
   }"

section \<open>Byte layouts\<close>

text \<open>
  The formats of \<^verbatim>\<open>docs/PROTOCOL.md\<close> as byte strings, the abstract side of the encoders and
  parsers above. \<open>data_carried\<close> and \<open>fec_carried\<close> say which headers (with which payload) a
  datagram can carry: the FEC group has 24 bits, a DATA header without FEC info has none,
  a parity shard has the length the header announces.
\<close>

definition header_layout :: "Header \<Rightarrow> bytes" where
  "header_layout h = [16 OR (Type h AND 15), Flags h, PathID h, Epoch h]"

definition data_layout :: "DataHeader \<Rightarrow> bytes" where
  "data_layout d = header_layout (DHeader d) @ bytes_of_u32 (Session d) @ bytes_of_u32 (GlobalSeq d)
     @ bytes_of_u32 (PathSeq d) @ bytes_of_u32 (TxTS d)
     @ (if Flags (DHeader d) AND FlagFECInfo \<noteq> 0
        then bytes_of_u24 (FECGroup d) @ [FECIndex d] else [])"

definition data_carried :: "DataHeader \<Rightarrow> bytes \<Rightarrow> bool" where
  "data_carried d p \<longleftrightarrow> Type (DHeader d) = TypeData \<and>
     (if Flags (DHeader d) AND FlagFECInfo \<noteq> 0 then FECGroup d AND mask 24 = FECGroup d
      else FECGroup d = 0 \<and> FECIndex d = 0)"

definition data_view :: "DataHeader \<Rightarrow> DataHeader" where
  "data_view d =
     (if Flags (DHeader d) AND FlagFECInfo \<noteq> 0 then d\<lparr>FECGroup := FECGroup d AND mask 24\<rparr>
      else d\<lparr>FECGroup := 0, FECIndex := 0\<rparr>)"

definition fec_layout :: "FECHeader \<Rightarrow> bytes" where
  "fec_layout f = header_layout (FHeader f) @ bytes_of_u32 (FSession f) @ bytes_of_u24 (FGroup f)
     @ [FIndex f, FK f, FM f] @ bytes_of_u16 (ShardLen f)"

definition fec_carried :: "FECHeader \<Rightarrow> bytes \<Rightarrow> bool" where
  "fec_carried f p \<longleftrightarrow> Type (FHeader f) = TypeFEC \<and> FGroup f AND mask 24 = FGroup f \<and>
     unat (ShardLen f) = length p"

section \<open>The control-plane tag\<close>

text \<open>
  BLAKE2s comes from \<^verbatim>\<open>golang.org/x/crypto\<close>: the keyed hash is a parameter \<open>blake\<close> (key,
  message, digest). \<^verbatim>\<open>Sum\<close> appends the digest to the empty prefix of a 16-byte array:
  up to 16 digest bytes land in the array, a longer digest is written to a fresh slice and
  leaves the array zero. The result therefore has 16 bytes whatever the hash returns.
\<close>

record MAC =
  mac_key :: bytes

definition DeriveKey :: "(bytes \<Rightarrow> bytes) \<Rightarrow> bytes \<Rightarrow> bytes" where
  "DeriveKey sum256 psk = sum256 (map (\<lambda>c. of_nat (of_char c)) ''treccia-control-v1:'' @ psk)"

definition NewMAC :: "bytes \<Rightarrow> MAC" where
  "NewMAC k = \<lparr>mac_key = k\<rparr>"

definition Sum :: "(bytes \<Rightarrow> bytes \<Rightarrow> bytes) \<Rightarrow> MAC \<Rightarrow> bytes \<Rightarrow> bytes" where
  "Sum blake m msg = (let d = blake (mac_key m) msg in
     if length d \<le> MACSize then d @ replicate (MACSize - length d) 0 else replicate MACSize 0)"

definition AppendTag :: "(bytes \<Rightarrow> bytes \<Rightarrow> bytes) \<Rightarrow> MAC \<Rightarrow> bytes \<Rightarrow> bytes" where
  "AppendTag blake m buf = buf @ Sum blake m buf"

definition Verify :: "(bytes \<Rightarrow> bytes \<Rightarrow> bytes) \<Rightarrow> MAC \<Rightarrow> bytes \<Rightarrow> bytes option" where
  "Verify blake m buf =
     (if length buf < MACSize then None
      else let msg = take (length buf - MACSize) buf; got = drop (length buf - MACSize) buf in
        if got \<noteq> Sum blake m msg then None else Some msg)"

lemma Sum_length [simp]: "length (Sum blake m msg) = 16"
  by (simp add: Sum_def Let_def)

section \<open>The common header\<close>

lemma nibbles [codec]:
  "drop_bit 4 (16 OR (t AND 15) :: byte) = 1" "(16 OR (t AND 15) :: byte) AND 15 = t AND 15"
proof -
  have b16: "bit (16 :: byte) n \<longleftrightarrow> n = 4" "bit (16 :: int) n \<longleftrightarrow> n = 4" for n
    using bit_exp_iff [where 'a = byte, of 4 n] bit_exp_iff [where 'a = int, of 4 n] by auto
  have n: "(15 :: byte) = mask 4" "(1 :: byte) = mask 1"
    by (simp_all add: mask_eq_exp_minus_1)
  show "drop_bit 4 (16 OR (t AND 15) :: byte) = 1"
    unfolding n by (rule bit_word_eqI) (auto simp: bit_simps b16)
  show "(16 OR (t AND 15) :: byte) AND 15 = t AND 15"
    unfolding n by (rule bit_word_eqI) (auto simp: bit_simps b16)
qed

lemma nibbles_join [codec]: "drop_bit 4 b = 1 \<Longrightarrow> 16 OR (b AND 15) = (b :: byte)"
proof -
  assume a: "drop_bit 4 b = 1"
  have "push_bit 4 (drop_bit 4 b) OR (b AND mask 4) = b"
    by (rule bit_word_eqI) (auto simp: bit_simps)
  then show ?thesis
    by (simp add: a mask_eq_exp_minus_1)
qed

lemma low_nibble_small [codec]: "t \<le> 7 \<Longrightarrow> t AND 15 = (t :: byte)"
  using less_mask_eq [of t 4] by (simp add: mask_eq_exp_minus_1 word_le_nat_alt word_less_nat_alt)

lemma class_roundtrip [codec]: "c \<le> 3 \<Longrightarrow> drop_bit 2 (push_bit 2 c AND 12) AND 3 = (c :: byte)"
proof -
  assume "c \<le> 3"
  then have m: "c AND mask 2 = c"
    by (intro less_mask_eq) (simp add: word_le_nat_alt word_less_nat_alt)
  have "drop_bit 2 (push_bit 2 c AND push_bit 2 (mask 2)) AND mask 2 = c AND mask 2"
    by (rule bit_word_eqI) (auto simp: bit_simps)
  with m show ?thesis
    by (simp add: mask_eq_exp_minus_1)
qed

lemma ParseHeader_eval:
  "4 \<le> length b \<Longrightarrow> ParseHeader b =
     (if drop_bit 4 (b ! 0) \<noteq> 1 then Some (Inl ErrVersion)
      else if b ! 0 AND 15 > 7 then Some (Inl ErrType)
      else Some (Inr \<lparr>Type = b ! 0 AND 15, Flags = b ! 1, PathID = b ! 2, Epoch = b ! 3\<rparr>))"
  using nonempty_of_length [of 4 b] by (simp add: ParseHeader_def go_bytes)

lemma ParseHeader_short: "length b < 4 \<Longrightarrow> ParseHeader b = Some (Inl ErrShortBuffer)"
  by (simp add: ParseHeader_def)

lemma ParseHeader_no_panic: "ParseHeader b \<noteq> None"
  by (cases "4 \<le> length b") (auto simp: ParseHeader_eval ParseHeader_short)

lemma ParseHeader_accepts:
  "ParseHeader b = Some (Inr h) \<longleftrightarrow>
     4 \<le> length b \<and> Type h \<le> 7 \<and>
     b ! 0 = 16 OR Type h \<and> b ! 1 = Flags h \<and> b ! 2 = PathID h \<and> b ! 3 = Epoch h"
proof (cases "4 \<le> length b")
  case True
  show ?thesis
  proof
    assume "ParseHeader b = Some (Inr h)"
    with True show "4 \<le> length b \<and> Type h \<le> 7 \<and> b ! 0 = 16 OR Type h \<and>
        b ! 1 = Flags h \<and> b ! 2 = PathID h \<and> b ! 3 = Epoch h"
      using nibbles_join [of "b ! 0"] by (auto simp: ParseHeader_eval split: if_splits)
  next
    assume r: "4 \<le> length b \<and> Type h \<le> 7 \<and> b ! 0 = 16 OR Type h \<and>
        b ! 1 = Flags h \<and> b ! 2 = PathID h \<and> b ! 3 = Epoch h"
    then have "Type h AND 15 = Type h"
      by (simp add: low_nibble_small)
    with r have "drop_bit 4 (b ! 0) = 1" "b ! 0 AND 15 = Type h"
      using nibbles [of "Type h"] by simp_all
    with r show "ParseHeader b = Some (Inr h)"
      by (auto simp: ParseHeader_eval)
  qed
qed (simp add: ParseHeader_short)

lemma PutHeader_eval [go_bytes]:
  "4 \<le> length b \<Longrightarrow> PutHeader b h =
     Some (b[0 := 16 OR (Type h AND 15), 1 := Flags h, 2 := PathID h, 3 := Epoch h])"
  using nonempty_of_length [of 4 b] by (simp add: PutHeader_def go_bytes)

lemma PutHeader_panics: "length b < 4 \<Longrightarrow> PutHeader b h = None"
  by (simp add: PutHeader_def idx_def)

section \<open>DATA\<close>

lemma ParseDataHeader_eval:
  "ParseHeader b = Some (Inr h) \<Longrightarrow> Type h = 0 \<Longrightarrow>
   (if Flags h AND 2 \<noteq> 0 then 24 else 20) \<le> length b \<Longrightarrow>
   ParseDataHeader b = Some (Inr
     (\<lparr>DHeader = h, Session = be32 (b ! 4) (b ! 5) (b ! 6) (b ! 7),
       GlobalSeq = be32 (b ! 8) (b ! 9) (b ! 10) (b ! 11),
       PathSeq = be32 (b ! 12) (b ! 13) (b ! 14) (b ! 15),
       TxTS = be32 (b ! 16) (b ! 17) (b ! 18) (b ! 19),
       FECGroup = (if Flags h AND 2 \<noteq> 0 then be24 (b ! 20) (b ! 21) (b ! 22) else 0),
       FECIndex = (if Flags h AND 2 \<noteq> 0 then b ! 23 else 0)\<rparr>,
      drop (if Flags h AND 2 \<noteq> 0 then 24 else 20) b))"
  by (simp add: ParseDataHeader_def DataLen_def go_bytes split: if_splits)

lemma ParseDataHeader_errors:
  "ParseHeader b = Some (Inl e) \<Longrightarrow> ParseDataHeader b = Some (Inl e)"
  "ParseHeader b = Some (Inr h) \<Longrightarrow> Type h \<noteq> 0 \<Longrightarrow> ParseDataHeader b = Some (Inl ErrType)"
  "ParseHeader b = Some (Inr h) \<Longrightarrow> Type h = 0 \<Longrightarrow>
     length b < (if Flags h AND 2 \<noteq> 0 then 24 else 20) \<Longrightarrow>
     ParseDataHeader b = Some (Inl ErrShortBuffer)"
  by (simp_all add: ParseDataHeader_def DataLen_def split: if_splits)

lemma ParseDataHeader_no_panic: "ParseDataHeader b \<noteq> None"
proof (cases "ParseHeader b")
  case None
  then show ?thesis using ParseHeader_no_panic by blast
next
  case (Some r)
  show ?thesis
  proof (cases r)
    case (Inl e)
    with Some show ?thesis by (simp add: ParseDataHeader_errors)
  next
    case (Inr h)
    with Some show ?thesis
      using ParseDataHeader_errors(2,3) [of b h] ParseDataHeader_eval [of b h]
      by (metis option.distinct(1) not_le)
  qed
qed

text \<open>What both sides of a framing rely on: the parser accepts exactly the layouts.\<close>

locale framing =
  fixes layout :: "'h \<Rightarrow> bytes"
    and parse :: "bytes \<Rightarrow> (wire_error + 'h \<times> bytes) option"
    and carried :: "'h \<Rightarrow> bytes \<Rightarrow> bool"
  assumes parse_layout: "carried h p \<Longrightarrow> parse (layout h @ p) = Some (Inr (h, p))"
    and parse_sound: "parse b = Some (Inr (h, p)) \<Longrightarrow> carried h p \<and> b = layout h @ p"
begin

lemma parse_iff: "parse b = Some (Inr (h, p)) \<longleftrightarrow> carried h p \<and> b = layout h @ p"
  using parse_layout parse_sound by blast

lemma unambiguous:
  "carried h p \<Longrightarrow> carried h' p' \<Longrightarrow> layout h @ p = layout h' @ p' \<Longrightarrow> h = h' \<and> p = p'"
  using parse_layout by (metis Inr_inject option.inject prod.inject)

end

lemma header_layout_parse: "ParseHeader (header_layout h @ r) = Some (Inr h) \<longleftrightarrow> Type h \<le> 7"
  by (auto simp: ParseHeader_accepts header_layout_def low_nibble_small)

lemma header_layout_nths:
  "ParseHeader b = Some (Inr h) \<Longrightarrow> header_layout h = [b ! 0, b ! 1, b ! 2, b ! 3]"
  by (auto simp: ParseHeader_accepts header_layout_def low_nibble_small)

lemma PutDataHeader_layout:
  assumes "DataLen d \<le> length b"
  shows "PutDataHeader b d = Some (data_layout d @ drop (DataLen d) b, DataLen d)"
proof -
  obtain xs ys where b: "b = xs @ ys" "length xs = DataLen d"
    using split_at_length [OF assms] by blast
  note eval = length_numeral_conv length_Suc_conv PutDataHeader_def DataLen_def Let_def go_bytes
    data_layout_def header_layout_def field_bytes
  show ?thesis
  proof (cases "Flags (DHeader d) AND 2 = 0")
    case True
    with b have "length xs = 20" by (simp add: DataLen_def)
    with True show ?thesis unfolding b(1) by (auto simp: eval)
  next
    case False
    with b have "length xs = 24" by (simp add: DataLen_def)
    with False show ?thesis unfolding b(1) by (auto simp: eval)
  qed
qed

lemma length_data_layout [simp]: "length (data_layout d) = DataLen d"
  by (simp add: data_layout_def header_layout_def field_bytes DataLen_def)

lemma data_layout_view: "data_layout (data_view d) = data_layout d"
  by (simp add: data_layout_def data_view_def field_bytes codec)

lemma data_view_carried: "Type (DHeader d) = TypeData \<Longrightarrow> data_carried (data_view d) p"
  by (simp add: data_carried_def data_view_def codec)

interpretation data_framing: framing data_layout ParseDataHeader data_carried
proof
  fix d :: DataHeader and p :: bytes
  assume c: "data_carried d p"
  obtain r where r: "data_layout d @ p = header_layout (DHeader d) @ r"
    by (simp add: data_layout_def)
  have h: "ParseHeader (data_layout d @ p) = Some (Inr (DHeader d))"
    using c by (simp add: r header_layout_parse data_carried_def)
  show "ParseDataHeader (data_layout d @ p) = Some (Inr (d, p))"
    using c ParseDataHeader_eval [OF h]
    by (simp add: data_carried_def DataLen_def data_layout_def header_layout_def field_bytes codec
        split: if_splits)
next
  fix b p :: bytes and d :: DataHeader
  assume p: "ParseDataHeader b = Some (Inr (d, p))"
  then obtain h where h: "ParseHeader b = Some (Inr h)" "Type h = 0"
      and len: "(if Flags h AND 2 \<noteq> 0 then 24 else 20) \<le> length b"
    by (auto simp: ParseDataHeader_def DataLen_def Let_def split: bind_splits sum.splits if_splits)
  note eval = p [unfolded ParseDataHeader_eval [OF h len]]
  have "data_layout d = take (DataLen d) b"
    using eval len header_layout_nths [OF h(1)]
    by (auto simp: data_layout_def field_bytes codec DataLen_def take_nths upt_eval
        split: if_splits)
  moreover have "p = drop (DataLen d) b"
    using eval by (auto simp: DataLen_def)
  moreover have "data_carried d p"
    using eval h(2) by (auto simp: data_carried_def codec)
  ultimately show "data_carried d p \<and> b = data_layout d @ p"
    by simp
qed

section \<open>FEC\<close>

lemma length_fec_layout [simp]: "length (fec_layout f) = 16"
  by (simp add: fec_layout_def header_layout_def field_bytes)

lemma PutFECHeader_layout:
  assumes "16 \<le> length b"
  shows "PutFECHeader b f =
    Some (fec_layout (f\<lparr>FHeader := (FHeader f)\<lparr>Type := TypeFEC\<rparr>\<rparr>) @ drop 16 b, 16)"
proof -
  obtain xs ys where b: "b = xs @ ys" "length xs = 16"
    using split_at_length [OF assms] by blast
  then show ?thesis unfolding b(1)
    by (auto simp: length_numeral_conv length_Suc_conv PutFECHeader_def Let_def go_bytes
        fec_layout_def header_layout_def field_bytes)
qed

lemma ParseFEC_eval:
  "ParseHeader b = Some (Inr h) \<Longrightarrow> Type h = 4 \<Longrightarrow> 16 \<le> length b \<Longrightarrow>
   ParseFEC b =
     (if unat (be16 (b ! 14) (b ! 15)) \<noteq> length b - 16 then Some (Inl ErrShortBuffer)
      else Some (Inr (\<lparr>FHeader = h, FSession = be32 (b ! 4) (b ! 5) (b ! 6) (b ! 7),
        FGroup = be24 (b ! 8) (b ! 9) (b ! 10), FIndex = b ! 11, FK = b ! 12, FM = b ! 13,
        ShardLen = be16 (b ! 14) (b ! 15)\<rparr>, drop 16 b)))"
  by (simp add: ParseFEC_def go_bytes)

lemma ParseFEC_errors:
  "ParseHeader b = Some (Inl e) \<Longrightarrow> ParseFEC b = Some (Inl e)"
  "ParseHeader b = Some (Inr h) \<Longrightarrow> Type h \<noteq> 4 \<Longrightarrow> ParseFEC b = Some (Inl ErrType)"
  "ParseHeader b = Some (Inr h) \<Longrightarrow> Type h = 4 \<Longrightarrow> length b < 16 \<Longrightarrow>
     ParseFEC b = Some (Inl ErrShortBuffer)"
  by (simp_all add: ParseFEC_def)

lemma ParseFEC_no_panic: "ParseFEC b \<noteq> None"
proof (cases "ParseHeader b")
  case None
  then show ?thesis using ParseHeader_no_panic by blast
next
  case (Some r)
  show ?thesis
  proof (cases r)
    case (Inl e)
    with Some show ?thesis by (simp add: ParseFEC_errors)
  next
    case (Inr h)
    with Some show ?thesis
      using ParseFEC_errors(2,3) [of b h] ParseFEC_eval [of b h]
      by (metis option.distinct(1) not_le)
  qed
qed

interpretation fec_framing: framing fec_layout ParseFEC fec_carried
proof
  fix f :: FECHeader and p :: bytes
  assume c: "fec_carried f p"
  obtain r where r: "fec_layout f @ p = header_layout (FHeader f) @ r"
    by (simp add: fec_layout_def)
  have h: "ParseHeader (fec_layout f @ p) = Some (Inr (FHeader f))"
    using c by (simp add: r header_layout_parse fec_carried_def)
  show "ParseFEC (fec_layout f @ p) = Some (Inr (f, p))"
    using c ParseFEC_eval [OF h]
    by (simp add: fec_carried_def fec_layout_def header_layout_def field_bytes codec)
next
  fix b p :: bytes and f :: FECHeader
  assume p: "ParseFEC b = Some (Inr (f, p))"
  then obtain h where h: "ParseHeader b = Some (Inr h)" "Type h = 4" and len: "16 \<le> length b"
    by (auto simp: ParseFEC_def Let_def split: bind_splits sum.splits if_splits)
  note eval = p [unfolded ParseFEC_eval [OF h len]]
  have "fec_layout f = take 16 b"
    using eval len header_layout_nths [OF h(1)]
    by (auto simp: fec_layout_def field_bytes codec take_nths upt_eval split: if_splits)
  moreover have "p = drop 16 b" "fec_carried f p"
    using eval h(2) by (auto simp: fec_carried_def codec split: if_splits)
  ultimately show "fec_carried f p \<and> b = fec_layout f @ p"
    by simp
qed

section \<open>The tag\<close>

text \<open>The contract the control messages rely on.\<close>

locale authenticator =
  fixes tag_on :: "bytes \<Rightarrow> bytes"
    and check :: "bytes \<Rightarrow> bytes option"
  assumes check_tag_on: "check (tag_on m) = Some m"
    and check_sound: "check b = Some m \<Longrightarrow> b = tag_on m"
begin

lemma check_iff: "check b = Some m \<longleftrightarrow> b = tag_on m"
  using check_tag_on check_sound by blast

lemma tag_on_inj: "tag_on m = tag_on m' \<Longrightarrow> m = m'"
  using check_tag_on by (metis option.inject)

end

interpretation mac: authenticator "AppendTag blake m" "Verify blake m" for blake m
proof
  fix msg
  show "Verify blake m (AppendTag blake m msg) = Some msg"
    by (simp add: Verify_def AppendTag_def)
next
  fix b msg
  assume v: "Verify blake m b = Some msg"
  then have "msg = take (length b - 16) b" "drop (length b - 16) b = Sum blake m msg"
    by (auto simp: Verify_def Let_def split: if_splits)
  then show "b = AppendTag blake m msg"
    by (metis AppendTag_def append_take_drop_id)
qed

lemma AppendTag_length [simp]: "length (AppendTag blake m msg) = length msg + 16"
  by (simp add: AppendTag_def)

section \<open>Properties\<close>

text \<open>
  no byte string makes the DATA, FEC or common-header parser panic, whatever its length
  and content (the property the fuzz tests of \<^verbatim>\<open>wire/fuzz_test.go\<close> sample).
\<close>

theorem wire_parsers_never_panic:
  "ParseHeader b \<noteq> None \<and> ParseDataHeader b \<noteq> None \<and> ParseFEC b \<noteq> None"
  by (simp add: ParseHeader_no_panic ParseDataHeader_no_panic ParseFEC_no_panic)

text \<open>
  DATA round trip. Encoding a DATA header at the start of any slab large enough leaves
  the bytes behind it alone, and the datagram made of those header bytes and any payload
  parses to the same header (with the FEC group reduced to its 24 bits, and no FEC fields
  when the flag is off) and the same payload.
\<close>

theorem data_header_roundtrip:
  assumes "Type (DHeader d) = TypeData" and "DataLen d \<le> length slab"
  shows "\<exists>slab'. PutDataHeader slab d = Some (slab', DataLen d) \<and>
    length slab' = length slab \<and> drop (DataLen d) slab' = drop (DataLen d) slab \<and>
    ParseDataHeader (take (DataLen d) slab' @ payload) = Some (Inr (data_view d, payload))"
  using data_framing.parse_layout [OF data_view_carried [OF assms(1)], of payload]
    PutDataHeader_layout [OF assms(2)] assms(2)
  by (simp add: data_layout_view)

theorem data_header_roundtrip_witness:
  "\<exists>slab'. PutDataHeader (replicate 30 0)
      \<lparr>DHeader = \<lparr>Type = 0, Flags = 2, PathID = 1, Epoch = 0\<rparr>, Session = 7, GlobalSeq = 9,
       PathSeq = 3, TxTS = 4, FECGroup = 0x1000005, FECIndex = 2\<rparr> = Some (slab', 24) \<and>
    ParseDataHeader (take 24 slab' @ [1, 2]) = Some (Inr
      (\<lparr>DHeader = \<lparr>Type = 0, Flags = 2, PathID = 1, Epoch = 0\<rparr>, Session = 7, GlobalSeq = 9,
        PathSeq = 3, TxTS = 4, FECGroup = 5, FECIndex = 2\<rparr>, [1, 2]))"
  using data_header_roundtrip [of "\<lparr>DHeader = \<lparr>Type = 0, Flags = 2, PathID = 1, Epoch = 0\<rparr>,
      Session = 7, GlobalSeq = 9, PathSeq = 3, TxTS = 4, FECGroup = 0x1000005, FECIndex = 2\<rparr>"
      "replicate 30 0" "[1, 2]"]
  by (auto simp: DataLen_def data_view_def mask_eq_exp_minus_1)

text \<open>
  C24. the wire formats are unambiguous. The DATA parser accepts exactly the byte layouts of
  carried headers followed by a payload, and the FEC parser likewise, so a datagram is
  accepted with one header and one payload only and re-encoding reproduces its bytes.
\<close>

theorem wire_formats_exact:
  "(ParseDataHeader b = Some (Inr (d, p)) \<longleftrightarrow> data_carried d p \<and> b = data_layout d @ p) \<and>
   (ParseFEC b = Some (Inr (f, s)) \<longleftrightarrow> fec_carried f s \<and> b = fec_layout f @ s)"
  by (simp add: data_framing.parse_iff fec_framing.parse_iff)

text \<open>
  FEC round trip through the sender's slab: the parity datagram the engine builds (header
  written at the start of the slab, then the shard) parses back to the same header, marked
  as FEC, and the same shard, provided the group fits 24 bits and the shard length 16 bits.
\<close>

theorem fec_header_roundtrip:
  assumes "FGroup f AND mask 24 = FGroup f" and "unat (ShardLen f) = length shard"
    and "16 \<le> length slab"
  shows "\<exists>slab'. PutFECHeader slab f = Some (slab', 16) \<and>
    ParseFEC (take 16 slab' @ shard) =
      Some (Inr (f\<lparr>FHeader := (FHeader f)\<lparr>Type := TypeFEC\<rparr>\<rparr>, shard))"
proof -
  have "fec_carried (f\<lparr>FHeader := (FHeader f)\<lparr>Type := TypeFEC\<rparr>\<rparr>) shard"
    using assms(1,2) by (simp add: fec_carried_def)
  from fec_framing.parse_layout [OF this] show ?thesis
    using PutFECHeader_layout [OF assms(3), of f] by simp
qed

theorem fec_header_roundtrip_witness:
  "\<exists>slab'. PutFECHeader (replicate 16 0) \<lparr>FHeader = \<lparr>Type = 0, Flags = 0, PathID = 2, Epoch = 0\<rparr>,
      FSession = 7, FGroup = 77, FIndex = 10, FK = 10, FM = 2, ShardLen = 3\<rparr> = Some (slab', 16) \<and>
    ParseFEC (take 16 slab' @ [1, 2, 3]) = Some (Inr
      (\<lparr>FHeader = \<lparr>Type = 4, Flags = 0, PathID = 2, Epoch = 0\<rparr>,
        FSession = 7, FGroup = 77, FIndex = 10, FK = 10, FM = 2, ShardLen = 3\<rparr>, [1, 2, 3]))"
  using fec_header_roundtrip [of "\<lparr>FHeader = \<lparr>Type = 0, Flags = 0, PathID = 2, Epoch = 0\<rparr>,
      FSession = 7, FGroup = 77, FIndex = 10, FK = 10, FM = 2, ShardLen = 3\<rparr>"
      "[1, 2, 3]" "replicate 16 0"]
  by (simp add: mask_eq_exp_minus_1)

text \<open>
  the tag check accepts a datagram exactly when it is a message followed by that message's
  own tag, and then returns the message; in particular a datagram shorter than a tag or with
  any byte of the tag or the message changed without the matching tag is rejected.
\<close>

theorem verify_accepts_exactly_tagged:
  "Verify blake m b = Some msg \<longleftrightarrow> b = AppendTag blake m msg"
  by (rule mac.check_iff)

end
