(* ===== verification/Classify.thy ===== *)
theory Classify
  imports Wire "HOL-Library.Mapping" "HOL-Library.AList_Mapping"
begin

text \<open>
  Package \<^verbatim>\<open>internal/classify\<close>: the traffic class of an outbound IP packet, from configured rules,
  built-in ports and the average payload size of its flow. Slice accesses are the checked ones
  of the prelude, \<open>None\<close> being a panic; the two Go maps are \<open>mapping\<close>s. The mutex makes a call
  of \<^verbatim>\<open>Classify\<close> atomic, so that a run is a sequence of calls.
\<close>

section \<open>Definitions\<close>

definition realtimeMaxUDPSize :: u64 where [simp]: "realtimeMaxUDPSize = 300"
definition interactiveMaxTCP :: u64 where [simp]: "interactiveMaxTCP = 64"
definition flowTableCap :: nat where [simp]: "flowTableCap = 4096"

definition protoTCP :: byte where [simp]: "protoTCP = 6"
definition protoUDP :: byte where [simp]: "protoUDP = 17"
definition protoAny :: byte where [simp]: "protoAny = 0"

record Rule =
  rProto :: string
  rPort :: u16
  rClass :: string

definition ParseClass :: "string \<Rightarrow> byte option" where
  "ParseClass s =
     (if s = ''bulk'' then Some ClassBulk
      else if s = ''realtime'' then Some ClassRealtime
      else if s = ''interactive'' then Some ClassInteractive
      else None)"

text \<open>
  \<^verbatim>\<open>netip.Addr\<close> as far as it is used: made from a slice of 4 or 16 bytes and compared. An
  IPv4-mapped IPv6 address differs from the IPv4 address.
\<close>

datatype Addr = NoAddr | Addr4 bytes | Addr6 bytes

definition AddrFromSlice :: "bytes \<Rightarrow> Addr" where
  "AddrFromSlice s = (if length s = 4 then Addr4 s else if length s = 16 then Addr6 s else NoAddr)"

record flowKey =
  src :: Addr
  dst :: Addr
  proto :: byte
  sport :: u16
  dpt :: u16

record flowState =
  pkts :: u64
  payload :: u64
  fclass :: byte

type_synonym rule_table = "(u16 \<times> u16, byte) mapping"

record Classifier =
  flows :: "(flowKey, flowState) mapping"
  rules :: rule_table

definition protoKey :: "string \<Rightarrow> u16" where
  "protoKey s = (if s = ''tcp'' then ucast protoTCP else if s = ''udp'' then ucast protoUDP else ucast protoAny)"

definition add_rule :: "Rule \<Rightarrow> rule_table \<Rightarrow> rule_table" where
  "add_rule r t =
     (case ParseClass (rClass r) of
        None \<Rightarrow> t
      | Some class \<Rightarrow> if rPort r = 0 then t else Mapping.update (protoKey (rProto r), rPort r) class t)"

definition New :: "Rule list \<Rightarrow> Classifier" where
  "New rs = \<lparr>flows = Mapping.empty, rules = fold add_rule rs Mapping.empty\<rparr>"

text \<open>The array of keys that \<^verbatim>\<open>ruleFor\<close> tries, in its order, and the first hit.\<close>

definition rule_keys :: "byte \<Rightarrow> u16 \<Rightarrow> u16 \<Rightarrow> (u16 \<times> u16) list" where
  "rule_keys p sp dp = [(ucast p, sp), (ucast p, dp), (ucast protoAny, sp), (ucast protoAny, dp)]"

fun first_hit :: "('k, 'v) mapping \<Rightarrow> 'k list \<Rightarrow> 'v option" where
  "first_hit t [] = None"
| "first_hit t (k # ks) = (case Mapping.lookup t k of Some c \<Rightarrow> Some c | None \<Rightarrow> first_hit t ks)"

definition ruleFor :: "byte \<Rightarrow> u16 \<Rightarrow> u16 \<Rightarrow> rule_table \<Rightarrow> byte option" where
  "ruleFor p sp dp t = (if Mapping.size t = 0 then None else first_hit t (rule_keys p sp dp))"

text \<open>
  \<^verbatim>\<open>parse\<close>: the network header gives the addresses, the protocol and the transport bytes, the
  transport header the ports and the payload length. The inner \<open>None\<close> is \<^verbatim>\<open>ok = false\<close>.
\<close>

definition parse_network :: "bytes \<Rightarrow> (Addr \<times> Addr \<times> byte \<times> bytes) option option" where
  "parse_network pkt = (if length pkt < 1 then Some None else do {
     b0 \<leftarrow> idx pkt 0;
     let v = drop_bit 4 b0 in
     if v = 4 then
       (if length pkt < 20 then Some None
        else (let ihl = unat (b0 AND 15) * 4 in
          if ihl < 20 \<or> length pkt < ihl then Some None
          else do {
            p \<leftarrow> idx pkt 9;
            s \<leftarrow> slice pkt 12 16;
            d \<leftarrow> slice pkt 16 20;
            t \<leftarrow> slice_from pkt ihl;
            Some (Some (AddrFromSlice s, AddrFromSlice d, p, t))
          }))
     else if v = 6 then
       (if length pkt < 40 then Some None
        else do {
          p \<leftarrow> idx pkt 6;
          s \<leftarrow> slice pkt 8 24;
          d \<leftarrow> slice pkt 24 40;
          t \<leftarrow> slice_from pkt 40;
          Some (Some (AddrFromSlice s, AddrFromSlice d, p, t))
        })
     else Some None
   })"

definition parse_transport :: "byte \<Rightarrow> bytes \<Rightarrow> (u16 \<times> u16 \<times> int) option option" where
  "parse_transport p t =
     (if p = protoTCP then
        (if length t < 20 then Some None
         else do {
           sp \<leftarrow> get_u16 t 0;
           dp \<leftarrow> get_u16 t 2;
           o12 \<leftarrow> idx t 12;
           let dataOff = unat (drop_bit 4 o12) * 4 in
           if dataOff < 20 \<or> length t < dataOff then Some None
           else Some (Some (sp, dp, int (length t) - int dataOff))
         })
      else if p = protoUDP then
        (if length t < 8 then Some None
         else do {
           sp \<leftarrow> get_u16 t 0;
           dp \<leftarrow> get_u16 t 2;
           Some (Some (sp, dp, int (length t) - 8))
         })
      else Some (Some (0, 0, 0)))"

definition parse :: "bytes \<Rightarrow> (flowKey \<times> int) option option" where
  "parse pkt = do {
     n \<leftarrow> parse_network pkt;
     case n of
       None \<Rightarrow> Some None
     | Some (s, d, p, t) \<Rightarrow> do {
         r \<leftarrow> parse_transport p t;
         case r of
           None \<Rightarrow> Some None
         | Some (sp, dp, len) \<Rightarrow>
             Some (Some (\<lparr>src = s, dst = d, proto = p, sport = sp, dpt = dp\<rparr>, len))
       }
   }"

text \<open>The built-in ports: DNS and NTP over UDP, SSH and DNS over TCP.\<close>

definition well_known :: "flowKey \<Rightarrow> bool" where
  "well_known k \<longleftrightarrow>
     proto k = protoUDP \<and> (sport k = 53 \<or> dpt k = 53 \<or> sport k = 123 \<or> dpt k = 123) \<or>
     proto k = protoTCP \<and> (sport k = 22 \<or> dpt k = 22 \<or> sport k = 53 \<or> dpt k = 53)"

definition flow_class :: "byte \<Rightarrow> u64 \<Rightarrow> byte \<Rightarrow> byte" where
  "flow_class p avg old =
     (if p = protoUDP then (if avg \<le> realtimeMaxUDPSize then ClassRealtime else ClassBulk)
      else if p = protoTCP then (if avg \<le> interactiveMaxTCP then ClassInteractive else ClassBulk)
      else old)"

text \<open>The table part of \<^verbatim>\<open>Classify\<close>, under the mutex; \<open>None\<close> is the division by zero.\<close>

definition update_flow :: "flowKey \<Rightarrow> int \<Rightarrow> Classifier \<Rightarrow> (Classifier \<times> byte) option" where
  "update_flow key len c =
     (let (tab, fs) = (case Mapping.lookup (flows c) key of
             Some fs \<Rightarrow> (flows c, fs)
           | None \<Rightarrow> (if Mapping.size (flows c) \<ge> flowTableCap then Mapping.empty else flows c,
                      \<lparr>pkts = 0, payload = 0, fclass = 0\<rparr>));
          fs = fs\<lparr>pkts := pkts fs + 1, payload := payload fs + of_int len\<rparr>
      in if pkts fs = 0 then None
         else (let avg = payload fs div pkts fs;
                   fs = fs\<lparr>fclass := flow_class (proto key) avg (fclass fs)\<rparr>
               in Some (c\<lparr>flows := Mapping.update key fs tab\<rparr>, fclass fs)))"

definition Classify :: "bytes \<Rightarrow> Classifier \<Rightarrow> (Classifier \<times> byte) option" where
  "Classify pkt c = do {
     r \<leftarrow> parse pkt;
     case r of
       None \<Rightarrow> Some (c, ClassBulk)
     | Some (key, len) \<Rightarrow>
         if proto key \<noteq> protoTCP \<and> proto key \<noteq> protoUDP then Some (c, ClassInteractive)
         else (case ruleFor (proto key) (sport key) (dpt key) (rules c) of
           Some class \<Rightarrow> Some (c, class)
         | None \<Rightarrow>
             if well_known key then Some (c, ClassInteractive)
             else update_flow key len c)
   }"


text \<open>A run of the classifier over a sequence of packets.\<close>

fun classify_run :: "bytes list \<Rightarrow> Classifier \<Rightarrow> (Classifier \<times> byte list) option" where
  "classify_run [] c = Some (c, [])"
| "classify_run (p # ps) c =
     Option.bind (Classify p c) (\<lambda>(c, x). Option.bind (classify_run ps c) (\<lambda>(c, xs). Some (c, x # xs)))"

section \<open>The specification\<close>

text \<open>
  What the classifier promises, in terms of the packets seen instead of counters: the last
  valid rule for a port decides, first by the packet's protocol and then for any protocol;
  then the built-in ports; then the average payload of the flow's packets since the table was
  last dropped, this packet included. The table is dropped when a 4097th flow would enter it.
\<close>

type_synonym history = "(flowKey \<times> int) list"

definition rule_entry :: "Rule \<Rightarrow> ((u16 \<times> u16) \<times> byte) option" where
  "rule_entry r = (case ParseClass (rClass r) of
     Some class \<Rightarrow> if rPort r = 0 then None else Some ((protoKey (rProto r), rPort r), class) | None \<Rightarrow> None)"

definition last_rule :: "Rule list \<Rightarrow> u16 \<times> u16 \<Rightarrow> byte option" where
  "last_rule rs = map_of (rev (List.map_filter rule_entry rs))"

fun first_some :: "'a option list \<Rightarrow> 'a option" where
  "first_some [] = None"
| "first_some (Some x # xs) = Some x"
| "first_some (None # xs) = first_some xs"

definition flow_hist :: "flowKey \<Rightarrow> history \<Rightarrow> int list" where
  "flow_hist k h = map snd (filter (\<lambda>x. fst x = k) h)"

definition remember :: "flowKey \<Rightarrow> int \<Rightarrow> history \<Rightarrow> history" where
  "remember k len h =
     (if k \<notin> set (map fst h) \<and> card (set (map fst h)) \<ge> 4096 then [(k, len)] else h @ [(k, len)])"

definition size_class :: "flowKey \<Rightarrow> int list \<Rightarrow> byte" where
  "size_class k l = (let avg = sum_list l div int (length l) in
     if proto k = protoUDP then (if avg \<le> 300 then ClassRealtime else ClassBulk)
     else (if avg \<le> 64 then ClassInteractive else ClassBulk))"

definition spec_class :: "Rule list \<Rightarrow> bytes \<Rightarrow> history \<Rightarrow> history \<times> byte" where
  "spec_class rs pkt h =
     (case parse pkt of
        Some (Some (k, len)) \<Rightarrow>
          if proto k \<noteq> protoTCP \<and> proto k \<noteq> protoUDP then (h, ClassInteractive)
          else (case first_some (map (last_rule rs) (rule_keys (proto k) (sport k) (dpt k))) of
            Some class \<Rightarrow> (h, class)
          | None \<Rightarrow>
              if well_known k then (h, ClassInteractive)
              else (let h = remember k len h in (h, size_class k (flow_hist k h))))
      | _ \<Rightarrow> (h, ClassBulk))"

fun spec_run :: "Rule list \<Rightarrow> bytes list \<Rightarrow> history \<Rightarrow> history \<times> byte list" where
  "spec_run rs [] h = (h, [])"
| "spec_run rs (p # ps) h =
     (let (h, x) = spec_class rs p h; (h, xs) = spec_run rs ps h in (h, x # xs))"

section \<open>Parsing\<close>

lemma parse_network_ok:
  "\<exists>r. parse_network pkt = Some r \<and>
     (\<forall>s d p t. r = Some (s, d, p, t) \<longrightarrow> length t \<le> length pkt)"
  by (auto simp: parse_network_def go_bytes Let_def)

lemma uint_offset_le: "unat w * 4 \<le> n \<Longrightarrow> uint w * 4 \<le> int n"
proof -
  assume "unat w * 4 \<le> n"
  then have "int (unat w * 4) \<le> int n" by (simp only: of_nat_le_iff)
  then show ?thesis by simp
qed

lemma parse_transport_ok:
  "\<exists>r. parse_transport p t = Some r \<and>
     (\<forall>sp dp len. r = Some (sp, dp, len) \<longrightarrow> 0 \<le> len \<and> len \<le> int (length t))"
  by (auto simp: parse_transport_def go_bytes get_u16_def Let_def intro: uint_offset_le)

lemma parse_ok:
  "\<exists>r. parse pkt = Some r \<and> (\<forall>k len. r = Some (k, len) \<longrightarrow> 0 \<le> len \<and> len \<le> int (length pkt))"
proof -
  obtain n where n: "parse_network pkt = Some n" "\<And>s d p t. n = Some (s, d, p, t) \<Longrightarrow> length t \<le> length pkt"
    using parse_network_ok by blast
  show ?thesis
  proof (cases n)
    case (Some x)
    obtain s d p t where x: "x = (s, d, p, t)" by (cases x)
    obtain r where "parse_transport p t = Some r" "\<And>sp dp len. r = Some (sp, dp, len) \<Longrightarrow> 0 \<le> len \<and> len \<le> int (length t)"
      using parse_transport_ok by blast
    then show ?thesis
      using n Some x by (fastforce simp: parse_def split: option.splits)
  qed (use n in \<open>simp add: parse_def\<close>)
qed

section \<open>Rules\<close>

lemma rule_table_lookup:
  "Mapping.lookup (fold add_rule rs t) key =
     (case last_rule rs key of Some c \<Rightarrow> Some c | None \<Rightarrow> Mapping.lookup t key)"
proof (induction rs arbitrary: t)
  case (Cons r rs)
  have "Mapping.lookup (add_rule r t) key = (case rule_entry r of
      Some (k, c) \<Rightarrow> if k = key then Some c else Mapping.lookup t key | None \<Rightarrow> Mapping.lookup t key)"
    by (auto simp: add_rule_def rule_entry_def lookup_update' split: option.split)
  then show ?case
    by (auto simp: Cons.IH last_rule_def map_add_def split: option.split)
qed (simp add: last_rule_def)

lemma first_hit_eq: "first_hit t ks = first_some (map (Mapping.lookup t) ks)"
  by (induction ks) (auto split: option.split)

lemma size_zero_lookup: "Mapping.size t = 0 \<Longrightarrow> finite (Mapping.keys t) \<Longrightarrow> Mapping.lookup t k = None"
  by (simp add: Mapping.size_def keys_dom_lookup)

lemma finite_add_rule: "finite (Mapping.keys t) \<Longrightarrow> finite (Mapping.keys (add_rule r t))"
  by (simp add: add_rule_def split: option.split)

lemma finite_rules: "finite (Mapping.keys t) \<Longrightarrow> finite (Mapping.keys (fold add_rule rs t))"
  by (induction rs arbitrary: t) (simp_all add: finite_add_rule)

lemma ruleFor_New:
  "ruleFor p sp dp (rules (New rs)) = first_some (map (last_rule rs) (rule_keys p sp dp))"
proof -
  let ?t = "fold add_rule rs Mapping.empty"
  have l: "Mapping.lookup ?t = last_rule rs"
    by (auto simp: fun_eq_iff rule_table_lookup split: option.split)
  show ?thesis
  proof (cases "Mapping.size ?t = 0")
    case True
    then have "last_rule rs = (\<lambda>_. None)"
      using size_zero_lookup [OF True] finite_rules [of Mapping.empty rs] l by (simp add: fun_eq_iff)
    then show ?thesis
      using True by (simp add: ruleFor_def New_def rule_keys_def)
  qed (simp add: ruleFor_def New_def first_hit_eq l)
qed


section \<open>Flows\<close>

text \<open>The abstraction: the table counts and sums the history.\<close>

definition represents :: "history \<Rightarrow> (flowKey, flowState) mapping \<Rightarrow> bool" where
  "represents h t \<longleftrightarrow> (\<forall>k. map_option (\<lambda>f. (pkts f, payload f)) (Mapping.lookup t k) =
     (if k \<in> set (map fst h)
      then Some (of_nat (length (flow_hist k h)), of_int (sum_list (flow_hist k h))) else None))"

text \<open>Histories on which the 64-bit counters cannot wrap.\<close>

definition small_history :: "nat \<Rightarrow> history \<Rightarrow> bool" where
  "small_history n h \<longleftrightarrow> length h \<le> n \<and> list_all (\<lambda>x. 0 \<le> snd x \<and> snd x < 2 ^ 16) h \<and> card (set (map fst h)) \<le> 4096"

lemma keys_represents: "represents h t \<Longrightarrow> Mapping.keys t = set (map fst h)"
  by (auto simp: represents_def keys_dom_lookup dom_def split: if_splits)

lemma represents_empty [simp]: "represents [] Mapping.empty"
  by (simp add: represents_def)

lemma flow_hist_append [simp]:
  "flow_hist k (h @ [(k', len)]) = flow_hist k h @ (if k = k' then [len] else [])"
  by (simp add: flow_hist_def)

lemma flow_hist_none: "k \<notin> set (map fst h) \<Longrightarrow> flow_hist k h = []"
  by (auto simp: flow_hist_def filter_empty_conv)

lemma flow_hist_single: "flow_hist k [(k', len)] = (if k = k' then [len] else [])"
  by (simp add: flow_hist_def)

lemma small_remember:
  assumes "small_history n h" "0 \<le> len" "len < 2 ^ 16"
  shows "small_history (Suc n) (remember k len h)"
proof -
  have "card (set (map fst (h @ [(k, len)]))) \<le> 4096" if "k \<in> set (map fst h) \<or> card (set (map fst h)) < 4096"
    using that assms(1) by (auto simp: small_history_def card_insert_if)
  then show ?thesis
    using assms by (auto simp: small_history_def remember_def)
qed

lemma sum_list_le_length: "\<forall>x \<in> set xs. x \<le> c \<Longrightarrow> sum_list xs \<le> int (length xs) * c"
  by (induction xs) (auto simp: algebra_simps)

lemma flow_hist_small:
  assumes "small_history n h"
  shows "length (flow_hist k h) \<le> n" "0 \<le> sum_list (flow_hist k h)" "sum_list (flow_hist k h) \<le> int n * 2 ^ 16"
proof -
  have l: "length (flow_hist k h) \<le> length h"
    by (simp add: flow_hist_def)
  then show "length (flow_hist k h) \<le> n"
    using assms by (simp add: small_history_def)
  have b: "\<forall>x \<in> set (flow_hist k h). 0 \<le> x \<and> x \<le> 2 ^ 16"
    using assms by (auto simp: small_history_def list_all_iff flow_hist_def)
  then show "0 \<le> sum_list (flow_hist k h)"
    by (simp add: sum_list_nonneg)
  have "sum_list (flow_hist k h) \<le> int (length (flow_hist k h)) * 2 ^ 16"
    using b by (intro sum_list_le_length) simp
  also have "\<dots> \<le> int n * 2 ^ 16"
    using l assms by (simp add: small_history_def)
  finally show "sum_list (flow_hist k h) \<le> int n * 2 ^ 16" .
qed


lemma average_word:
  assumes "0 \<le> s" "s < 2 ^ 64" "0 < n" "int n < 2 ^ 64"
  shows "uint (of_int s div of_nat n :: u64) = s div int n"
proof -
  have "uint (of_int s :: u64) = s" "uint (of_nat n :: u64) = int n"
    using assms by (simp_all add: uint_word_of_int take_bit_int_eq_self_iff of_nat_take_bit unsigned_of_nat)
  then show ?thesis by (simp add: uint_div)
qed

lemma represents_update:
  assumes "represents g t" "l = flow_hist k g @ [len]"
  shows "represents (g @ [(k, len)])
    (Mapping.update k (fs\<lparr>pkts := of_nat (length l), payload := of_int (sum_list l), fclass := x\<rparr>) t)"
proof -
  have "map_option (\<lambda>f. (pkts f, payload f)) (Mapping.lookup t j) =
     (if j \<in> set (map fst g)
      then Some (of_nat (length (flow_hist j g)), of_int (sum_list (flow_hist j g))) else None)" for j
    using assms(1) by (simp only: represents_def)
  note old = this
  show ?thesis
    unfolding represents_def
  proof
    fix j
    show "map_option (\<lambda>f. (pkts f, payload f)) (Mapping.lookup (Mapping.update k
        (fs\<lparr>pkts := of_nat (length l), payload := of_int (sum_list l), fclass := x\<rparr>) t) j) =
      (if j \<in> set (map fst (g @ [(k, len)]))
       then Some (of_nat (length (flow_hist j (g @ [(k, len)]))), of_int (sum_list (flow_hist j (g @ [(k, len)]))))
       else None)"
      using old [of j] by (cases "j = k") (auto simp: lookup_update' assms(2) split: if_splits)
  qed
qed

lemma update_flow_spec:
  assumes r: "represents h (flows c)" and s: "small_history n h" and n: "Suc n < 2 ^ 48"
    and len: "0 \<le> len" "len < 2 ^ 16" and p: "proto k = protoTCP \<or> proto k = protoUDP"
  shows "\<exists>t. update_flow k len c = Some (c\<lparr>flows := t\<rparr>, size_class k (flow_hist k (remember k len h))) \<and>
    represents (remember k len h) t"
proof -
  let ?h = "remember k len h"
  define full where "full \<longleftrightarrow> k \<notin> set (map fst h) \<and> card (set (map fst h)) \<ge> 4096"
  let ?t = "if full then Mapping.empty else flows c"
  let ?g = "if full then [] else h"
  have h: "?h = ?g @ [(k, len)]" by (simp add: remember_def full_def)
  have g: "represents ?g ?t" using r by simp
  have sz: "Mapping.size (flows c) = card (set (map fst h))"
    by (simp add: Mapping.size_def keys_represents [OF r])
  obtain fs where fs: "(case Mapping.lookup (flows c) k of
        Some fs \<Rightarrow> (flows c, fs)
      | None \<Rightarrow> (if Mapping.size (flows c) \<ge> flowTableCap then Mapping.empty else flows c,
          \<lparr>pkts = 0, payload = 0, fclass = 0\<rparr>)) = (?t, fs)"
      "pkts fs = of_nat (length (flow_hist k ?g))" "payload fs = of_int (sum_list (flow_hist k ?g))"
    using r [unfolded represents_def, rule_format, of k] sz flow_hist_none [of k h]
    by (cases "Mapping.lookup (flows c) k") (auto split: if_splits simp: flow_hist_def full_def)
  let ?l = "flow_hist k ?h"
  have l: "?l = flow_hist k ?g @ [len]" unfolding h by simp
  have sm: "small_history (Suc n) ?h" using small_remember [OF s len] .
  have b: "0 < length ?l" "int (length ?l) < 2 ^ 64" "0 \<le> sum_list ?l" "sum_list ?l < 2 ^ 64"
    using flow_hist_small [OF sm, of k] n l by auto
  have pk: "pkts fs + 1 = of_nat (length ?l)" "payload fs + of_int len = of_int (sum_list ?l)"
    by (simp_all add: fs l)
  have nz: "(of_nat (length ?l) :: u64) \<noteq> 0"
    using b by (simp add: word_of_nat_eq_0_iff nat_dvd_not_less)
  have avg: "uint (of_int (sum_list ?l) div of_nat (length ?l) :: u64) = sum_list ?l div int (length ?l)"
    by (rule average_word [OF b(3,4,1,2)])
  have cls: "flow_class (proto k) (of_int (sum_list ?l) div of_nat (length ?l)) old = size_class k ?l" for old
    using p avg by (auto simp: flow_class_def size_class_def Let_def word_le_def)
  let ?fs = "fs\<lparr>pkts := of_nat (length ?l), payload := of_int (sum_list ?l), fclass := size_class k ?l\<rparr>"
  have "update_flow k len c = Some (c\<lparr>flows := Mapping.update k ?fs ?t\<rparr>, size_class k ?l)"
    unfolding update_flow_def fs(1) using nz by (simp add: pk cls Let_def)
  moreover have "represents ?h (Mapping.update k ?fs ?t)"
    unfolding h by (rule represents_update [OF g]) simp
  ultimately show ?thesis by blast
qed


text \<open>A call changes the flow table only.\<close>

lemma Classify_spec:
  assumes "represents h (flows c)" "small_history n h" "Suc n < 2 ^ 48" "length pkt < 2 ^ 16"
    and r: "rules c = rules (New rs)"
  shows "\<exists>t. Classify pkt c = Some (c\<lparr>flows := t\<rparr>, snd (spec_class rs pkt h)) \<and>
    represents (fst (spec_class rs pkt h)) t \<and> small_history (Suc n) (fst (spec_class rs pkt h))"
proof -
  have sm: "small_history (Suc n) h"
    using assms(2) by (simp add: small_history_def)
  have stay: "\<exists>t. Some (c, x) = Some (c\<lparr>flows := t\<rparr>, x) \<and> represents h t \<and> small_history (Suc n) h" for x :: byte
    using assms(1) sm by (intro exI [of _ "flows c"]) simp
  obtain q where q: "parse pkt = Some q" "\<And>k len. q = Some (k, len) \<Longrightarrow> 0 \<le> len \<and> len \<le> int (length pkt)"
    using parse_ok by blast
  show ?thesis
  proof (cases q)
    case (Some x)
    obtain k len where x: "x = (k, len)" by (cases x)
    have len: "0 \<le> len" "len < 2 ^ 16"
      using q(2) [of k len] Some x assms(4) by auto
    let ?tu = "proto k = protoTCP \<or> proto k = protoUDP"
    let ?rule = "first_some (map (last_rule rs) (rule_keys (proto k) (sport k) (dpt k)))"
    show ?thesis
    proof (cases "?tu \<and> ?rule = None \<and> \<not> well_known k")
      case True
      then show ?thesis
        using update_flow_spec [OF assms(1-3) len, of k] small_remember [OF assms(2) len, of k]
        by (auto simp: Classify_def spec_class_def q(1) Some x r ruleFor_New Let_def)
    next
      case False
      then show ?thesis
        using stay by (auto simp: Classify_def spec_class_def q(1) Some x r ruleFor_New split: option.split)
    qed
  qed (use stay q in \<open>simp add: Classify_def spec_class_def\<close>)
qed

lemma classify_run_spec:
  assumes "represents h (flows c)" "small_history n h" "n + length ps < 2 ^ 48"
    and "list_all (\<lambda>p. length p < 2 ^ 16) ps" "rules c = rules (New rs)"
  shows "\<exists>t. classify_run ps c = Some (c\<lparr>flows := t\<rparr>, snd (spec_run rs ps h)) \<and>
    represents (fst (spec_run rs ps h)) t \<and> small_history (n + length ps) (fst (spec_run rs ps h))"
  using assms
proof (induction ps arbitrary: h c n)
  case Nil
  then show ?case by (intro exI [of _ "flows c"]) simp
next
  case (Cons p ps)
  obtain t where t: "Classify p c = Some (c\<lparr>flows := t\<rparr>, snd (spec_class rs p h))"
      "represents (fst (spec_class rs p h)) t" "small_history (Suc n) (fst (spec_class rs p h))"
    using Classify_spec [OF Cons.prems(1,2) _ _ Cons.prems(5), of p] Cons.prems(3,4) by auto
  from Cons.IH [of "fst (spec_class rs p h)" "c\<lparr>flows := t\<rparr>" "Suc n"] t Cons.prems(3-5)
  show ?case by (auto simp: Let_def split: prod.splits)
qed

section \<open>Properties\<close>

text \<open>
  C19. The classifier implements its specification: for every list of configured rules and every
  sequence of fewer than \<open>2^48\<close> packets of less than 64 KiB, whatever their bytes, no call
  panics (no slice access is out of range, no division by zero), the classes are those that
  the specification computes from the packets seen, and the table holds exactly the counts and
  payload sums of at most 4096 flows.
\<close>

theorem classifier_refines_spec:
  assumes "length ps < 2 ^ 48" "list_all (\<lambda>p. length p < 2 ^ 16) ps"
  shows "\<exists>c. classify_run ps (New rs) = Some (c, snd (spec_run rs ps [])) \<and>
    represents (fst (spec_run rs ps [])) (flows c) \<and> Mapping.size (flows c) \<le> 4096"
proof -
  have "represents [] (flows (New rs))" "small_history 0 []"
    by (simp_all add: New_def small_history_def)
  from classify_run_spec [OF this, of ps rs] assms obtain t where t:
      "classify_run ps (New rs) = Some ((New rs)\<lparr>flows := t\<rparr>, snd (spec_run rs ps []))"
      "represents (fst (spec_run rs ps [])) t" "small_history (length ps) (fst (spec_run rs ps []))"
    by auto
  then have "Mapping.size t \<le> 4096"
    using keys_represents [OF t(2)] by (simp add: Mapping.size_def small_history_def)
  with t show ?thesis by (intro exI [of _ "(New rs)\<lparr>flows := t\<rparr>"]) simp
qed

text \<open>Two UDP packets between 10.0.0.1 port 4660 and 10.0.0.2 port 22136: 2 and then 800 bytes.\<close>

definition udp_packet :: "nat \<Rightarrow> bytes" where
  "udp_packet n = [0x45, 0, 0, 0, 0, 0, 0, 0, 64, 17, 0, 0, 10, 0, 0, 1, 10, 0, 0, 2,
     0x12, 0x34, 0x56, 0x78, 0, 0, 0, 0] @ replicate n 0"

theorem classifier_refines_spec_witness:
  "\<exists>c. classify_run [udp_packet 2, udp_packet 800, [1]] (New []) =
     Some (c, [ClassRealtime, ClassBulk, ClassBulk])"
proof -
  have "snd (spec_run [] [udp_packet 2, udp_packet 800, [1]] []) = [ClassRealtime, ClassBulk, ClassBulk]"
    by code_simp
  then show ?thesis
    using classifier_refines_spec [of "[udp_packet 2, udp_packet 800, [1]]" "[]"]
    by (auto simp: udp_packet_def)
qed

end
