(* ===== verification/GoText.thy ===== *)
theory GoText
  imports Classify "HOL-Library.Sublist"
begin

text \<open>
  The text functions of Go's standard library that the configuration and the key files go
  through: decimal output (\<^verbatim>\<open>fmt.Sprintf("%d")\<close>), integer input (\<^verbatim>\<open>fmt.Sscanf("%d")\<close>,
  \<^verbatim>\<open>strconv.Atoi\<close>), white space, addresses and prefixes (\<^verbatim>\<open>net/netip\<close>), base64 and hexadecimal.
  A Go string is its list of bytes, held as a \<open>string\<close>; functions that work on runes are written
  on the UTF-8 encodings. A parser returns \<open>None\<close> where Go returns an error.
\<close>

section \<open>Characters and decimals\<close>

definition digit_val :: "char \<Rightarrow> nat option" where
  "digit_val c = (let n = of_char c in if 48 \<le> n \<and> n \<le> 57 then Some (n - 48) else None)"

definition digit_char :: "nat \<Rightarrow> char" where
  "digit_char n = char_of (48 + n)"

fun decimal :: "nat \<Rightarrow> string" where
  "decimal n = (if n < 10 then [digit_char n] else decimal (n div 10) @ [digit_char (n mod 10)])"

declare decimal.simps [simp del]

text \<open>The longest run of digits in front, with its value continued from \<open>v\<close>.\<close>

fun scan_digits :: "nat \<Rightarrow> string \<Rightarrow> nat \<times> string" where
  "scan_digits v [] = (v, [])"
| "scan_digits v (c # s) = (case digit_val c of Some d \<Rightarrow> scan_digits (10 * v + d) s | None \<Rightarrow> (v, c # s))"

definition starts_digit :: "string \<Rightarrow> bool" where
  "starts_digit s = (case s of [] \<Rightarrow> False | c # _ \<Rightarrow> digit_val c \<noteq> None)"

lemma digit_val_char [simp]: "d < 10 \<Longrightarrow> digit_val (digit_char d) = Some d"
  by (simp add: digit_val_def digit_char_def)

lemma digit_val_bound: "digit_val c = Some d \<Longrightarrow> d < 10"
  by (auto simp: digit_val_def Let_def split: if_splits)

lemma digit_char_inj: "a < 10 \<Longrightarrow> b < 10 \<Longrightarrow> digit_char a = digit_char b \<Longrightarrow> a = b"
  using digit_val_char by (metis option.inject)

lemma scan_digits_append:
  "list_all (\<lambda>c. digit_val c \<noteq> None) ds \<Longrightarrow> scan_digits v (ds @ s) = scan_digits (fst (scan_digits v ds)) s"
  by (induction ds arbitrary: v) (auto split: option.splits)

lemma decimal_digits: "list_all (\<lambda>c. digit_val c \<noteq> None) (decimal n)"
proof (induction n rule: decimal.induct)
  case (1 n)
  then show ?case by (subst decimal.simps) auto
qed

lemma decimal_nonempty [simp]: "decimal n \<noteq> []"
  by (subst decimal.simps) simp

lemma scan_decimal: "fst (scan_digits 0 (decimal n)) = n"
proof (induction n rule: decimal.induct)
  case (1 n)
  show ?case
  proof (cases "n < 10")
    case True
    then show ?thesis by (subst decimal.simps) simp
  next
    case False
    then show ?thesis
      using 1 by (subst decimal.simps) (simp add: scan_digits_append [OF decimal_digits])
  qed
qed

lemma decimal_inj: "decimal m = decimal n \<Longrightarrow> m = n"
  by (metis scan_decimal)

lemma starts_digit_decimal [simp]: "starts_digit (decimal n @ s)"
  using decimal_digits [of n] by (cases "decimal n") (auto simp: starts_digit_def)

text \<open>Decimal output followed by something else is read back.\<close>

lemma scan_decimal_append: "\<not> starts_digit s \<Longrightarrow> scan_digits 0 (decimal n @ s) = (n, s)"
proof -
  assume "\<not> starts_digit s"
  then have "scan_digits v s = (v, s)" for v
    by (cases s) (auto simp: starts_digit_def)
  then show ?thesis
    by (simp add: scan_digits_append [OF decimal_digits] scan_decimal)
qed

section \<open>White space\<close>

text \<open>The encodings of the runes that \<^verbatim>\<open>fmt\<close> and \<^verbatim>\<open>unicode.IsSpace\<close> take for white space.\<close>

definition go_spaces :: "string list" where
  "go_spaces = map (map char_of)
     ([[9], [10], [11], [12], [13], [32 :: nat], [0xC2, 0x85], [0xC2, 0xA0], [0xE1, 0x9A, 0x80]] @
      map (\<lambda>x. [0xE2, 0x80, x]) ([0x80..<0x8B] @ [0xA8, 0xA9, 0xAF]) @ [[0xE2, 0x81, 0x9F], [0xE3, 0x80, 0x80]])"

definition strip_space :: "string \<Rightarrow> string option" where
  "strip_space s = map_option (\<lambda>p. drop (length p) s) (List.find (\<lambda>p. prefix p s) go_spaces)"

lemma go_spaces_nonempty: "p \<in> set go_spaces \<Longrightarrow> p \<noteq> []"
  by (auto simp: go_spaces_def)

lemma strip_space_shorter: "strip_space s = Some r \<Longrightarrow> length r < length s"
  using go_spaces_nonempty by (auto simp: strip_space_def find_Some_iff prefix_def)

text \<open>\<^verbatim>\<open>SkipSpace\<close> as \<^verbatim>\<open>Sscanf\<close> uses it: a newline, also after a carriage return, is an error.\<close>

function skip_space :: "string \<Rightarrow> string option" where
  "skip_space s =
     (if prefix [CHR 0x0A] s \<or> prefix [CHR 0x0D, CHR 0x0A] s then None
      else case strip_space s of None \<Rightarrow> Some s | Some r \<Rightarrow> skip_space r)"
  by auto
termination
  by (relation "measure length") (auto dest: strip_space_shorter)

declare skip_space.simps [simp del]

text \<open>\<^verbatim>\<open>strings.TrimSpace\<close>.\<close>

function trim_left :: "string \<Rightarrow> string" where
  "trim_left s = (case strip_space s of None \<Rightarrow> s | Some r \<Rightarrow> trim_left r)"
  by auto
termination
  by (relation "measure length") (auto dest: strip_space_shorter)

definition chop_space :: "string \<Rightarrow> string option" where
  "chop_space s = map_option (\<lambda>p. take (length s - length p) s) (List.find (\<lambda>p. suffix p s) go_spaces)"

lemma chop_space_shorter: "chop_space s = Some r \<Longrightarrow> length r < length s"
  using go_spaces_nonempty by (auto simp: chop_space_def find_Some_iff suffix_def)

function trim_right :: "string \<Rightarrow> string" where
  "trim_right s = (case chop_space s of None \<Rightarrow> s | Some r \<Rightarrow> trim_right r)"
  by auto
termination
  by (relation "measure length") (auto dest: chop_space_shorter)

declare trim_left.simps [simp del] trim_right.simps [simp del]

definition TrimSpace :: "string \<Rightarrow> string" where
  "TrimSpace s = trim_right (trim_left s)"

text \<open>A text that starts and ends with bytes of no white space is left alone.\<close>

definition plain_char :: "char \<Rightarrow> bool" where
  "plain_char c \<longleftrightarrow> 33 \<le> (of_char c :: nat) \<and> of_char c < (128 :: nat)"

lemma go_space_not_plain: "p \<in> set go_spaces \<Longrightarrow> \<not> plain_char (hd p) \<and> \<not> plain_char (last p)"
  by (auto simp: go_spaces_def plain_char_def)

lemma strip_plain: "plain_char c \<Longrightarrow> strip_space (c # s) = None"
  using go_space_not_plain go_spaces_nonempty
  by (auto simp: strip_space_def find_None_iff prefix_Cons) (metis list.sel(1))

lemma chop_plain: "plain_char c \<Longrightarrow> chop_space (s @ [c]) = None"
proof -
  assume c: "plain_char c"
  have "\<not> suffix p (s @ [c])" if "p \<in> set go_spaces" for p
  proof
    assume "suffix p (s @ [c])"
    with go_spaces_nonempty [OF that] have "last p = c"
      by (metis last_appendR last_snoc suffix_def)
    with go_space_not_plain [OF that] c show False by simp
  qed
  then show ?thesis by (simp add: chop_space_def find_None_iff)
qed

lemma TrimSpace_plain: "s \<noteq> [] \<Longrightarrow> list_all plain_char s \<Longrightarrow> TrimSpace s = s"
proof -
  assume s: "s \<noteq> []" "list_all plain_char s"
  then obtain c r where "s = c # r" "plain_char c" by (cases s) auto
  then have "trim_left s = s" by (simp add: trim_left.simps strip_plain)
  moreover have "s = butlast s @ [last s]" "plain_char (last s)"
    using s by (auto simp: list_all_iff)
  then have "trim_right s = s" using chop_plain by (metis option.case(1) trim_right.simps)
  ultimately show ?thesis by (simp add: TrimSpace_def)
qed

lemma skip_plain: "plain_char c \<Longrightarrow> skip_space (c # s) = Some (c # s)"
  by (subst skip_space.simps) (auto simp: strip_plain plain_char_def)

section \<open>Integer input\<close>

text \<open>The verb \<^verbatim>\<open>%d\<close> of \<^verbatim>\<open>Sscanf\<close> for an \<^verbatim>\<open>int\<close>: white space, a sign, digits, the range of \<^verbatim>\<open>int64\<close>.\<close>

definition scan_int :: "string \<Rightarrow> (int \<times> string) option" where
  "scan_int s = do {
     s \<leftarrow> skip_space s;
     let neg = prefix ''-'' s;
         s = (if neg \<or> prefix ''+'' s then drop 1 s else s) in
     if \<not> starts_digit s then None
     else (let (v, r) = scan_digits 0 s;
               n = (if neg then - int v else int v)
           in if - (2 ^ 63) \<le> n \<and> n < 2 ^ 63 then Some (n, r) else None)
   }"

text \<open>\<^verbatim>\<open>strconv.Atoi\<close>: an optional sign and digits only.\<close>

definition Atoi :: "string \<Rightarrow> int option" where
  "Atoi s =
     (let neg = prefix ''-'' s;
          s = (if neg \<or> prefix ''+'' s then drop 1 s else s)
      in if \<not> starts_digit s then None
         else (let (v, r) = scan_digits 0 s;
                   n = (if neg then - int v else int v)
               in if r = [] \<and> - (2 ^ 63) \<le> n \<and> n < 2 ^ 63 then Some n else None))"

lemma decimal_plain: "list_all plain_char (decimal n)"
  using decimal_digits [of n] by (auto simp: list_all_iff plain_char_def digit_val_def Let_def split: if_splits)

lemma decimal_unsigned: "\<not> prefix ''-'' (decimal n @ s)" "\<not> prefix ''+'' (decimal n @ s)"
  using decimal_digits [of n] by (cases "decimal n"; force simp: digit_val_def)+

lemma scan_int_decimal: "\<not> starts_digit s \<Longrightarrow> n < 2 ^ 63 \<Longrightarrow> scan_int (decimal n @ s) = Some (int n, s)"
proof -
  assume s: "\<not> starts_digit s" and n: "n < 2 ^ 63"
  obtain c r where d: "decimal n = c # r" "plain_char c"
    using decimal_plain [of n] by (cases "decimal n") auto
  then have "skip_space (decimal n @ s) = Some (decimal n @ s)" using skip_plain by simp
  moreover have "int n < 2 ^ 63" using n by simp
  ultimately show ?thesis
    by (simp add: scan_int_def decimal_unsigned scan_decimal_append [OF s])
qed

section \<open>Addresses and prefixes\<close>

text \<open>
  \<^verbatim>\<open>parseIPv4Fields\<close>: the fields before the current one, the value and the number of digits of
  the current one.
\<close>

fun ipv4_fields :: "bytes \<Rightarrow> nat \<Rightarrow> nat \<Rightarrow> string \<Rightarrow> bytes option" where
  "ipv4_fields fs v n [] = (if length fs < 3 then None else Some (fs @ [of_nat v]))"
| "ipv4_fields fs v n (c # s) =
     (case digit_val c of
        Some d \<Rightarrow>
          if n = 1 \<and> v = 0 then None
          else if 10 * v + d > 255 then None
          else ipv4_fields fs (10 * v + d) (n + 1) s
      | None \<Rightarrow>
          if c \<noteq> CHR ''.'' then None
          else if n = 0 \<or> s = [] then None
          else if length fs = 3 then None
          else ipv4_fields (fs @ [of_nat v]) 0 0 s)"

definition hex_val :: "char \<Rightarrow> nat option" where
  "hex_val c = (let n = of_char c in
     if 48 \<le> n \<and> n \<le> 57 then Some (n - 48)
     else if 97 \<le> n \<and> n \<le> 102 then Some (n - 87)
     else if 65 \<le> n \<and> n \<le> 70 then Some (n - 55)
     else None)"

text \<open>A field of at most four hexadecimal digits: its value, the number of digits, the rest.\<close>

fun hex_field :: "nat \<Rightarrow> nat \<Rightarrow> string \<Rightarrow> (nat \<times> nat \<times> string) option" where
  "hex_field v n [] = Some (v, n, [])"
| "hex_field v n (c # s) =
     (case hex_val c of
        Some d \<Rightarrow> if n > 3 then None else hex_field (16 * v + d) (n + 1) s
      | None \<Rightarrow> Some (v, n, c # s))"

lemma hex_field_rest: "hex_field v n s = Some (v', n', r) \<Longrightarrow> n' + length r = n + length s"
  by (induction v n s arbitrary: v' n' r rule: hex_field.induct) (auto split: option.splits if_splits)

text \<open>
  The loop of \<^verbatim>\<open>parseIPv6\<close>: the bytes so far, the position of the ellipsis, what is left. It
  returns what is left when sixteen bytes are there or the text ends.
\<close>

function ipv6_loop :: "bytes \<Rightarrow> nat option \<Rightarrow> string \<Rightarrow> (bytes \<times> nat option \<times> string) option" where
  "ipv6_loop ip el s =
     (if 16 \<le> length ip then Some (ip, el, s)
      else case hex_field 0 0 s of
        None \<Rightarrow> None
      | Some (v, n, r) \<Rightarrow>
          if n = 0 then None
          else if prefix ''.'' r then
            (if el = None \<and> length ip \<noteq> 12 then None
             else if length ip + 4 > 16 then None
             else map_option (\<lambda>fs. (ip @ fs, el, [])) (ipv4_fields [] 0 0 s))
          else (let ip = ip @ [of_nat (v div 256), of_nat (v mod 256)] in
            case r of
              [] \<Rightarrow> Some (ip, el, [])
            | c # r \<Rightarrow>
                if c \<noteq> CHR '':'' then None
                else if r = [] then None
                else if hd r = CHR '':'' then
                  (if el \<noteq> None then None
                   else if tl r = [] then Some (ip, Some (length ip), [])
                   else ipv6_loop ip (Some (length ip)) (tl r))
                else ipv6_loop ip el r))"
  by auto
termination
  by (relation "measure (\<lambda>(ip, _). 16 - length ip)") auto

declare ipv6_loop.simps [simp del]

definition ipv6_bytes :: "string \<Rightarrow> bytes option" where
  "ipv6_bytes s =
     (let el = (if prefix ''::'' s then Some 0 else None);
          s = (if el = None then s else drop 2 s)
      in if el \<noteq> None \<and> s = [] then Some (replicate 16 0)
         else case ipv6_loop [] el s of
           None \<Rightarrow> None
         | Some (ip, el, r) \<Rightarrow>
             if r \<noteq> [] then None
             else if length ip < 16 then
               map_option (\<lambda>i. take i ip @ replicate (16 - length ip) 0 @ drop i ip) el
             else if el \<noteq> None then None
             else Some ip)"

text \<open>\<^verbatim>\<open>netip.ParseAddr\<close>: an address and its zone.\<close>

definition parseIPv6 :: "string \<Rightarrow> (Addr \<times> string) option" where
  "parseIPv6 s =
     (let a = takeWhile (\<lambda>c. c \<noteq> CHR ''%'') s;
          z = drop (length a) s
      in if z \<noteq> [] \<and> tl z = [] then None else map_option (\<lambda>ip. (Addr6 ip, tl z)) (ipv6_bytes a))"

definition ParseAddr :: "string \<Rightarrow> (Addr \<times> string) option" where
  "ParseAddr s =
     (case List.find (\<lambda>c. c \<in> set ''.:%'') s of
        None \<Rightarrow> None
      | Some c \<Rightarrow>
          if c = CHR ''.'' then map_option (\<lambda>ip. (Addr4 ip, [])) (ipv4_fields [] 0 0 s)
          else if c = CHR '':'' then parseIPv6 s
          else None)"

text \<open>\<^verbatim>\<open>netip.ParsePrefix\<close>, split at the last slash.\<close>

definition ParsePrefix :: "string \<Rightarrow> (Addr \<times> nat) option" where
  "ParsePrefix s =
     (if CHR ''/'' \<notin> set s then None
      else (let bs = rev (takeWhile (\<lambda>c. c \<noteq> CHR ''/'') (rev s));
                a = take (length s - length bs - 1) s
       in case ParseAddr a of
            None \<Rightarrow> None
          | Some (ip, z) \<Rightarrow>
              if z \<noteq> [] then None
              else if length bs > 1 \<and> (of_char (hd bs) < (49 :: nat) \<or> 57 < (of_char (hd bs) :: nat)) then None
              else (case Atoi bs of
                None \<Rightarrow> None
              | Some n \<Rightarrow>
                  if n < 0 \<or> (case ip of Addr6 _ \<Rightarrow> 128 | _ \<Rightarrow> 32) < n then None else Some (ip, nat n))))"

section \<open>Base64 and hexadecimal\<close>

definition b64_alphabet :: string where
  "b64_alphabet = ''ABCDEFGHIJKLMNOPQRSTUVWXYZabcdefghijklmnopqrstuvwxyz0123456789+/''"

definition b64_char :: "nat \<Rightarrow> char" where
  "b64_char n = b64_alphabet ! n"

definition b64_val :: "char \<Rightarrow> nat option" where
  "b64_val c = (let n = of_char c in
     if 65 \<le> n \<and> n \<le> 90 then Some (n - 65)
     else if 97 \<le> n \<and> n \<le> 122 then Some (n - 71)
     else if 48 \<le> n \<and> n \<le> 57 then Some (n + 4)
     else if n = 43 then Some 62
     else if n = 47 then Some 63
     else None)"

text \<open>\<^verbatim>\<open>base64.StdEncoding.EncodeToString\<close>, three bytes at a time, with padding.\<close>

fun EncodeToString :: "bytes \<Rightarrow> string" where
  "EncodeToString [] = []"
| "EncodeToString [a] =
     [b64_char (unat a div 4), b64_char (unat a mod 4 * 16), CHR ''='', CHR ''='']"
| "EncodeToString [a, b] =
     [b64_char (unat a div 4), b64_char (unat a mod 4 * 16 + unat b div 16), b64_char (unat b mod 16 * 4), CHR ''='']"
| "EncodeToString (a # b # c # s) =
     b64_char (unat a div 4) # b64_char (unat a mod 4 * 16 + unat b div 16) #
     b64_char (unat b mod 16 * 4 + unat c div 64) # b64_char (unat c mod 64) # EncodeToString s"

text \<open>
  \<^verbatim>\<open>base64.StdEncoding.DecodeString\<close>: carriage returns and newlines are skipped wherever they
  stand, padding is required and ends the text, and bits of a last group beyond the bytes are
  ignored.
\<close>

fun decode_quanta :: "string \<Rightarrow> bytes option" where
  "decode_quanta [] = Some []"
| "decode_quanta (p # q # r # s # t) =
     (case (b64_val p, b64_val q, b64_val r, b64_val s) of
        (Some a, Some b, Some c, Some d) \<Rightarrow>
          map_option ((@) [of_nat (4 * a + b div 16), of_nat (b mod 16 * 16 + c div 4), of_nat (c mod 4 * 64 + d)])
            (decode_quanta t)
      | (Some a, Some b, Some c, None) \<Rightarrow>
          if s = CHR ''='' \<and> t = [] then Some [of_nat (4 * a + b div 16), of_nat (b mod 16 * 16 + c div 4)] else None
      | (Some a, Some b, None, None) \<Rightarrow>
          if r = CHR ''='' \<and> s = CHR ''='' \<and> t = [] then Some [of_nat (4 * a + b div 16)] else None
      | _ \<Rightarrow> None)"
| "decode_quanta _ = None"

definition DecodeString :: "string \<Rightarrow> bytes option" where
  "DecodeString s = decode_quanta (filter (\<lambda>c. c \<noteq> CHR 0x0A \<and> c \<noteq> CHR 0x0D) s)"

definition hex_char :: "nat \<Rightarrow> char" where
  "hex_char n = ''0123456789abcdef'' ! n"

definition hex_of :: "bytes \<Rightarrow> string" where
  "hex_of bs = concat (map (\<lambda>b. [hex_char (unat b div 16), hex_char (unat b mod 16)]) bs)"

lemma b64_alphabet_values: "map b64_val b64_alphabet = map Some [0..<64]"
  by (simp add: b64_alphabet_def b64_val_def upt_eval upt_rec)

lemma b64_alphabet_plain: "list_all plain_char b64_alphabet"
  by (simp add: b64_alphabet_def plain_char_def)

lemma length_b64_alphabet: "length b64_alphabet = 64"
  by (simp add: b64_alphabet_def)

lemma b64_val_char [simp]: "n < 64 \<Longrightarrow> b64_val (b64_char n) = Some n"
  using arg_cong [OF b64_alphabet_values, of "\<lambda>xs. xs ! n"] by (simp add: b64_char_def length_b64_alphabet)

lemma b64_char_plain: "n < 64 \<Longrightarrow> plain_char (b64_char n)"
  using b64_alphabet_plain by (simp add: b64_char_def list_all_length length_b64_alphabet)

lemma byte_parts:
  fixes a :: byte
  shows "unat a div 4 < 64" "unat a div 16 < 16" "unat a div 64 < 4"
proof -
  have "unat a < 2 ^ LENGTH(8)" by (rule unsigned_less)
  then show "unat a div 4 < 64" "unat a div 16 < 16" "unat a div 64 < 4" by (simp_all add: less_mult_imp_div_less)
qed

lemma byte_quotients [simp]:
  fixes a :: byte
  shows "unat a div 16 div 16 = 0" "unat a div 16 mod 16 = unat a div 16"
    "unat a div 64 div 4 = 0" "unat a div 64 mod 4 = unat a div 64"
  using byte_parts [of a] by simp_all

lemma quantum_bounds:
  fixes a b c :: byte
  shows "unat a mod 4 * 16 + unat b div 16 < 64" "unat b mod 16 * 4 + unat c div 64 < 64" "unat a mod 4 * 16 < 64"
    "unat b mod 16 * 4 < 64" "unat c mod 64 < 64"
  using byte_parts(2) [of b] byte_parts(3) [of c] mod_less_divisor [of 4 "unat a"] mod_less_divisor [of 16 "unat b"]
  by linarith+

lemma b64_val_pad [simp]: "b64_val CHR ''='' = None"
  by (simp add: b64_val_def)

lemma decode_encode: "decode_quanta (EncodeToString bs) = Some bs"
  by (induction bs rule: EncodeToString.induct) (simp_all add: quantum_bounds byte_parts(1) del: of_nat_add of_nat_mult)

lemma encode_plain: "list_all plain_char (EncodeToString bs)"
  by (induction bs rule: EncodeToString.induct)
    (simp_all add: b64_char_plain quantum_bounds byte_parts(1), simp_all add: plain_char_def)

lemma EncodeToString_empty [simp]: "EncodeToString bs = [] \<longleftrightarrow> bs = []"
  by (cases bs rule: EncodeToString.cases) simp_all

theorem DecodeString_EncodeToString: "DecodeString (EncodeToString bs) = Some bs"
proof -
  have "c \<noteq> CHR 0x0A \<and> c \<noteq> CHR 0x0D" if "plain_char c" for c
    using that by (auto simp: plain_char_def)
  then have "filter (\<lambda>c. c \<noteq> CHR 0x0A \<and> c \<noteq> CHR 0x0D) (EncodeToString bs) = EncodeToString bs"
    using encode_plain [of bs] by (auto simp: filter_id_conv list_all_iff)
  then show ?thesis by (simp add: DecodeString_def decode_encode)
qed

end
