(* ===== verification/Float64.thy ===== *)
theory Float64
  imports Prelude "HOL-Library.Log_Nat"
begin

text \<open>
  Go's \<^verbatim>\<open>float64\<close>. A finite value is the rational number it stands for; every operation of
  the source is the exact operation followed by \<open>rnd\<close>, IEEE 754 rounding to the nearest
  binary64 value with ties to even, subnormals included. Constants are rounded once, as
  Go does with its exact untyped constants. No fused multiply-add is assumed. The sign of
  zero, infinities and NaN are not values of the model: no division of the source has a zero
  denominator where the theorems apply, and the magnitudes the program computes with
  (microseconds, bit rates, probabilities) are far below the largest finite value.
\<close>

section \<open>Rounding\<close>

type_synonym f64 = rat

text \<open>The nearest integer, ties to even.\<close>

definition rne :: "rat \<Rightarrow> int" where
  "rne x = (let f = \<lfloor>x\<rfloor>; r = x - of_int f in
     if r < 1 / 2 then f else if r > 1 / 2 then f + 1 else if even f then f else f + 1)"

text \<open>The binary exponent of a positive rational.\<close>

definition ilog2 :: "rat \<Rightarrow> int" where
  "ilog2 x = (let (p, q) = quotient_of x; k = bitlen p - bitlen q in
     if 2 powi k \<le> x then k else k - 1)"

definition ulp_exp :: "rat \<Rightarrow> int" where
  "ulp_exp x = max (ilog2 x - 52) (- 1074)"

definition rnd :: "rat \<Rightarrow> f64" where
  "rnd x =
     (if x = 0 then 0
      else if x > 0 then of_int (rne (x / 2 powi ulp_exp x)) * 2 powi ulp_exp x
      else - (of_int (rne (- x / 2 powi ulp_exp (- x))) * 2 powi ulp_exp (- x)))"

definition fadd :: "f64 \<Rightarrow> f64 \<Rightarrow> f64" where "fadd x y = rnd (x + y)"
definition fsub :: "f64 \<Rightarrow> f64 \<Rightarrow> f64" where "fsub x y = rnd (x - y)"
definition fmul :: "f64 \<Rightarrow> f64 \<Rightarrow> f64" where "fmul x y = rnd (x * y)"
definition fdiv :: "f64 \<Rightarrow> f64 \<Rightarrow> f64" where "fdiv x y = rnd (x / y)"

text \<open>Conversions: \<^verbatim>\<open>float64(n)\<close> rounds, \<^verbatim>\<open>int64(x)\<close> drops the fraction.\<close>

definition float_of_int :: "int \<Rightarrow> f64" where "float_of_int n = rnd (of_int n)"

definition ftrunc :: "f64 \<Rightarrow> int" where
  "ftrunc x = (if x < 0 then - \<lfloor>- x\<rfloor> else \<lfloor>x\<rfloor>)"

lemmas float_ops = fadd_def fsub_def fmul_def fdiv_def

section \<open>The nearest integer\<close>

lemma rne_cases: "rne x = \<lfloor>x\<rfloor> \<or> rne x = \<lfloor>x\<rfloor> + 1"
  by (simp add: rne_def Let_def)

lemma rne_of_int [simp]: "rne (of_int n) = n"
  by (simp add: rne_def)

lemma rne_bounds: "of_int (rne x) \<le> x + 1 / 2" "x - 1 / 2 \<le> of_int (rne x)"
  by (simp_all add: rne_def Let_def) linarith+

lemma rne_mono:
  assumes "x \<le> y"
  shows "rne x \<le> rne y"
proof (cases "\<lfloor>x\<rfloor> = \<lfloor>y\<rfloor>")
  case True
  then show ?thesis
    using assms by (auto simp: rne_def Let_def)
next
  case False
  with assms have "\<lfloor>x\<rfloor> + 1 \<le> \<lfloor>y\<rfloor>"
    using floor_mono [of x y] by linarith
  then show ?thesis
    using rne_cases [of x] rne_cases [of y] by linarith
qed

lemma rne_le_twice:
  assumes "0 \<le> x"
  shows "of_int (rne x) \<le> 2 * x"
proof (cases "\<lfloor>x\<rfloor> = 0")
  case True
  then show ?thesis
    using assms by (auto simp: rne_def Let_def)
next
  case False
  moreover have "0 \<le> \<lfloor>x\<rfloor>"
    using assms by simp
  ultimately have "1 \<le> \<lfloor>x\<rfloor>"
    by linarith
  then have "1 \<le> x"
    by simp
  then show ?thesis
    using rne_bounds(1) [of x] by linarith
qed

section \<open>The exponent\<close>

lemma powi_mono: "m \<le> n \<Longrightarrow> (2 :: rat) powi m \<le> 2 powi n"
  by (rule power_int_increasing) simp_all

lemma powi_pos [simp]: "0 < (2 :: rat) powi n"
  by (rule zero_less_power_int) simp

lemma powi_add: "(2 :: rat) powi (m + n) = 2 powi m * 2 powi n"
  by (rule power_int_add) simp

lemma bitlen_powi:
  assumes "0 < p"
  shows "2 powi (bitlen p - 1) \<le> (of_int p :: rat)" "of_int p < (2 :: rat) powi bitlen p"
proof -
  have "1 \<le> bitlen p"
    using assms by (simp add: bitlen_alt_def)
  moreover have "(of_int (2 ^ nat (bitlen p - 1)) :: rat) \<le> of_int p"
      "(of_int p :: rat) < of_int (2 ^ nat (bitlen p))"
    using bitlen_bounds [OF assms] by (simp_all only: of_int_le_iff of_int_less_iff)
  ultimately show "2 powi (bitlen p - 1) \<le> (of_int p :: rat)" "of_int p < (2 :: rat) powi bitlen p"
    by (simp_all add: power_int_def)
qed

lemma ilog2_bounds:
  assumes "0 < x"
  shows "2 powi ilog2 x \<le> x" "x < 2 powi (ilog2 x + 1)"
proof -
  obtain p q where pq: "quotient_of x = (p, q)" by fastforce
  have q: "0 < q" and x: "x = of_int p / of_int q"
    using pq quotient_of_denom_pos quotient_of_div by blast+
  with assms have p: "0 < p"
    by (simp add: zero_less_divide_iff)
  let ?k = "bitlen p - bitlen q"
  have "x < 2 powi bitlen p / 2 powi (bitlen q - 1)"
    unfolding x using p q bitlen_powi [OF p] bitlen_powi [OF q] by (intro frac_less) simp_all
  also have "\<dots> = 2 powi (?k + 1)"
    by (simp add: power_int_diff power_int_add)
  finally have up: "x < 2 powi (?k + 1)" .
  have "2 powi (?k - 1) = (2 :: rat) powi (bitlen p - 1) / 2 powi bitlen q"
    by (simp add: power_int_diff)
  also have "\<dots> \<le> x"
    unfolding x using p q bitlen_powi [OF p] bitlen_powi [OF q] by (intro frac_le) simp_all
  finally have lo: "2 powi (?k - 1) \<le> x" .
  show "2 powi ilog2 x \<le> x" "x < 2 powi (ilog2 x + 1)"
    using up lo by (auto simp: ilog2_def pq Let_def not_le)
qed

lemma ilog2_mono:
  assumes "0 < x" "x \<le> y"
  shows "ilog2 x \<le> ilog2 y"
proof (rule ccontr)
  assume "\<not> ilog2 x \<le> ilog2 y"
  then have "(2 :: rat) powi (ilog2 y + 1) \<le> 2 powi ilog2 x"
    by (intro powi_mono) simp
  then show False
    using ilog2_bounds [of x] ilog2_bounds [of y] assms by linarith
qed

section \<open>Laws of rounding\<close>

lemma rnd_pos: "0 < x \<Longrightarrow> rnd x = of_int (rne (x / 2 powi ulp_exp x)) * 2 powi ulp_exp x"
  by (simp add: rnd_def)

lemma rnd_0 [simp]: "rnd 0 = 0"
  by (simp add: rnd_def)

lemma rnd_minus: "rnd (- x) = - rnd x"
  by (simp add: rnd_def)

lemma powi_nat: "0 \<le> k \<Longrightarrow> (2 :: rat) powi k = of_int (2 ^ nat k)"
  by (simp add: power_int_def)

lemma powi_integer: "m \<le> n \<Longrightarrow> \<exists>i. (2 :: rat) powi n / 2 powi m = of_int i"
  using powi_nat [of "n - m"] by (metis diff_ge_0_iff_ge power_int_diff zero_neq_numeral)

lemma scaled_int:
  assumes "0 < x" "x = of_int n * 2 powi m" "ulp_exp x \<le> m"
  shows "rnd x = x"
proof -
  obtain i where "(2 :: rat) powi m / 2 powi ulp_exp x = of_int i"
    using powi_integer [OF assms(3)] by blast
  then have "x / 2 powi ulp_exp x = of_int (n * i)"
    unfolding assms(2) times_divide_eq_right [symmetric] of_int_mult by simp
  then have "rne (x / 2 powi ulp_exp x) = n * i" and "x / 2 powi ulp_exp x * 2 powi ulp_exp x = of_int (n * i) * 2 powi ulp_exp x"
    by (simp_all only: rne_of_int)
  then show ?thesis
    using assms(1) by (simp add: rnd_pos)
qed

lemma rnd_nonneg: "0 \<le> x \<Longrightarrow> 0 \<le> rnd x"
proof (cases "x = 0")
  case False
  assume "0 \<le> x"
  then have "rne 0 \<le> rne (x / 2 powi ulp_exp x)"
    by (intro rne_mono) (simp add: zero_le_divide_iff less_imp_le)
  with False \<open>0 \<le> x\<close> show ?thesis
    using rne_of_int [of 0] by (simp add: rnd_pos less_imp_le)
qed simp

lemma rnd_le_twice: "0 \<le> x \<Longrightarrow> rnd x \<le> 2 * x"
proof (cases "x = 0")
  case False
  assume "0 \<le> x"
  let ?u = "(2 :: rat) powi ulp_exp x"
  have "of_int (rne (x / ?u)) * ?u \<le> 2 * (x / ?u) * ?u"
    using \<open>0 \<le> x\<close> by (intro mult_right_mono rne_le_twice) (simp_all add: less_imp_le)
  with False \<open>0 \<le> x\<close> show ?thesis
    by (simp add: rnd_pos)
qed simp

lemma rnd_mono_pos:
  assumes "0 < x" "x \<le> y"
  shows "rnd x \<le> rnd y"
proof (cases "ulp_exp x = ulp_exp y")
  case True
  then show ?thesis
    using assms by (simp add: rnd_pos rne_mono divide_right_mono)
next
  case False
  let ?ex = "ilog2 x" and ?ey = "ilog2 y" and ?ux = "(2 :: rat) powi ulp_exp x" and ?uy = "(2 :: rat) powi ulp_exp y"
  have y: "0 < y" using assms by simp
  have lt: "?ex < ?ey" "ulp_exp y \<le> ?ey" "ulp_exp x \<le> max (?ex + 1) (- 1074)" "ulp_exp y = ?ey - 52"
    using False ilog2_mono [OF assms] by (auto simp: ulp_exp_def)
  let ?m = "max (?ex + 1) (- 1074)"
  have m: "?m \<le> ?ey"
    using lt False by (auto simp: ulp_exp_def)
  obtain i where i: "(2 :: rat) powi ?m / ?ux = of_int i"
    using powi_integer [OF lt(3)] by blast
  obtain j where j: "(2 :: rat) powi ?ey / ?uy = of_int j"
    using powi_integer [OF lt(2)] by blast
  have "x \<le> 2 powi ?m"
    using ilog2_bounds(2) [OF assms(1)] powi_mono [of "?ex + 1" ?m] by linarith
  then have "rne (x / ?ux) \<le> rne (2 powi ?m / ?ux)"
    by (intro rne_mono divide_right_mono) (simp_all add: less_imp_le)
  then have "of_int (rne (x / ?ux)) \<le> 2 powi ?m / ?ux"
    by (simp add: i)
  then have "rnd x \<le> 2 powi ?m"
    using assms(1) by (simp add: rnd_pos pos_le_divide_eq)
  also have "\<dots> \<le> 2 powi ?ey"
    using m by (rule powi_mono)
  also have "\<dots> \<le> rnd y"
  proof -
    have "rne (2 powi ?ey / ?uy) \<le> rne (y / ?uy)"
      using ilog2_bounds(1) [OF y] by (intro rne_mono divide_right_mono) (simp_all add: less_imp_le)
    then have "2 powi ?ey / ?uy \<le> of_int (rne (y / ?uy))"
      by (simp add: j)
    then show ?thesis
      using y by (simp add: rnd_pos pos_divide_le_eq)
  qed
  finally show ?thesis .
qed

lemma rnd_mono: "x \<le> y \<Longrightarrow> rnd x \<le> rnd y"
proof -
  assume xy: "x \<le> y"
  consider "0 < x" | "x \<le> 0" "0 \<le> y" | "y < 0" by linarith
  then show ?thesis
  proof cases
    case 1
    then show ?thesis using xy by (rule rnd_mono_pos)
  next
    case 2
    then show ?thesis
      using rnd_nonneg [of y] rnd_nonneg [of "- x"] by (simp add: rnd_minus)
  next
    case 3
    then show ?thesis
      using rnd_mono_pos [of "- y" "- x"] xy by (simp add: rnd_minus)
  qed
qed

text \<open>Numbers of at most 53 significant bits, not below the subnormal grid, are exact.\<close>

lemma rnd_exact_pos:
  assumes "0 < n" "n \<le> 2 ^ 53" "- 1074 \<le> m"
  shows "rnd (of_int n * 2 powi m) = of_int n * 2 powi m"
proof (cases "n = 2 ^ 53")
  case True
  let ?x = "of_int n * (2 :: rat) powi m"
  have x: "?x = 2 powi (m + 53)"
    using True powi_nat [of 53] by (simp only: powi_add) simp
  have "(2 :: rat) powi ilog2 ?x \<le> 2 powi (m + 53)"
    using ilog2_bounds(1) [of ?x] x by simp
  then have "ilog2 ?x \<le> m + 53"
    using power_int_strict_increasing [of "m + 53" "ilog2 ?x" "2 :: rat"] by linarith
  then have "ulp_exp ?x \<le> m + 53"
    using assms(3) by (auto simp: ulp_exp_def)
  then show ?thesis
    using x by (intro scaled_int [of _ 1 "m + 53"]) simp_all
next
  case False
  let ?x = "of_int n * (2 :: rat) powi m"
  have x: "0 < ?x" using assms(1) by simp
  have "(of_int n :: rat) < of_int (2 ^ 53)"
    using assms(2) False by (simp only: of_int_less_iff)
  then have "?x < 2 powi 53 * 2 powi m"
    by (intro mult_strict_right_mono) (simp_all add: power_int_def)
  then have "(2 :: rat) powi ilog2 ?x < 2 powi (53 + m)"
    unfolding powi_add by (rule order_le_less_trans [OF ilog2_bounds(1) [OF x]])
  then have "ilog2 ?x < 53 + m"
    using powi_mono [of "53 + m" "ilog2 ?x"] by linarith
  then have "ulp_exp ?x \<le> m"
    using assms(3) by (auto simp: ulp_exp_def)
  then show ?thesis
    using x by (intro scaled_int) simp_all
qed

lemma rnd_exact:
  assumes "\<bar>n\<bar> \<le> 2 ^ 53" "- 1074 \<le> m"
  shows "rnd (of_int n * 2 powi m) = of_int n * 2 powi m"
proof -
  consider "n = 0" | "0 < n" | "n < 0" by linarith
  then show ?thesis
  proof cases
    case 3
    then show ?thesis
      using rnd_exact_pos [of "- n" m] assms by (simp add: rnd_minus)
  qed (use assms rnd_exact_pos in simp_all)
qed

lemma rnd_significand:
  assumes "0 < x"
  shows "0 \<le> rne (x / 2 powi ulp_exp x)" "rne (x / 2 powi ulp_exp x) \<le> 2 ^ 53"
proof -
  let ?u = "(2 :: rat) powi ulp_exp x"
  have "rne 0 \<le> rne (x / ?u)"
    using assms by (intro rne_mono) (simp add: less_imp_le)
  then show "0 \<le> rne (x / ?u)"
    using rne_of_int [of 0] by simp
  have "x < 2 powi (ulp_exp x + 53)"
    using ilog2_bounds(2) [OF assms] powi_mono [of "ilog2 x + 1" "ulp_exp x + 53"]
    by (rule order_less_le_trans) (simp add: ulp_exp_def)
  then have "x / ?u \<le> of_int (2 ^ 53)"
    using powi_nat [of 53] by (simp add: powi_add pos_divide_le_eq mult.commute)
  then have "rne (x / ?u) \<le> rne (of_int (2 ^ 53))"
    by (rule rne_mono)
  then show "rne (x / ?u) \<le> 2 ^ 53"
    by (simp only: rne_of_int)
qed

lemma rnd_idem: "rnd (rnd x) = rnd x"
proof -
  have pos: "rnd (rnd y) = rnd y" if "0 < y" for y
    using rnd_exact [of "rne (y / 2 powi ulp_exp y)" "ulp_exp y"] rnd_significand [OF that] that
    by (simp add: rnd_pos) (simp add: ulp_exp_def)
  consider "x = 0" | "0 < x" | "x < 0" by linarith
  then show ?thesis
  proof cases
    case 3
    then show ?thesis using pos [of "- x"] by (simp add: rnd_minus)
  qed (use pos in simp_all)
qed

text \<open>Half the spacing of the subnormal grid.\<close>

definition tiny :: rat where "tiny = 2 powi (- 1075)"

lemma tiny_pos: "0 < tiny"
  unfolding tiny_def by (rule powi_pos)

lemma rnd_err: "\<bar>rnd x - x\<bar> \<le> \<bar>x\<bar> / 2 ^ 53 + tiny"
proof -
  have pos: "\<bar>rnd y - y\<bar> \<le> y / 2 ^ 53 + tiny" if y: "0 < y" for y
  proof -
    let ?u = "(2 :: rat) powi ulp_exp y"
    have "y = y / ?u * ?u" by simp
    then have "rnd y - y = (of_int (rne (y / ?u)) - y / ?u) * ?u"
      using y by (simp add: rnd_pos left_diff_distrib)
    moreover have "\<bar>of_int (rne (y / ?u)) - y / ?u\<bar> \<le> 1 / 2"
      using rne_bounds [of "y / ?u"] by linarith
    ultimately have "\<bar>rnd y - y\<bar> \<le> 1 / 2 * ?u"
      by (simp add: abs_mult)
    moreover have "?u \<le> 2 powi (ilog2 y - 52) + 2 powi (- 1074)"
      by (simp only: ulp_exp_def max_def) (simp add: less_imp_le)
    moreover have "(2 :: rat) powi (- 1074) = 2 * tiny"
      using powi_add [of 1 "- 1075"] by (simp add: tiny_def)
    moreover have "(2 :: rat) powi (ilog2 y - 52) = 2 powi ilog2 y / 2 ^ 52"
      by (simp add: power_int_diff)
    ultimately have "\<bar>rnd y - y\<bar> \<le> 1 / 2 * (y / 2 ^ 52 + 2 * tiny)"
      using ilog2_bounds(1) [OF y] by simp
    then show ?thesis by simp
  qed
  consider "x = 0" | "0 < x" | "x < 0" by linarith
  then show ?thesis
  proof cases
    case 3
    then show ?thesis using pos [of "- x"] by (simp add: rnd_minus abs_minus_commute)
  qed (use pos tiny_pos in simp_all)
qed

section \<open>Rounding as an interface\<close>

text \<open>
  What the components rely on. Bounds on estimates and probabilities are proved from these
  laws once, not from the definition of \<open>rnd\<close>.
\<close>

locale float_rounding =
  fixes r :: "rat \<Rightarrow> rat"
  assumes mono: "x \<le> y \<Longrightarrow> r x \<le> r y"
    and idem: "r (r x) = r x"
    and minus: "r (- x) = - r x"
    and exact: "\<bar>n\<bar> \<le> 2 ^ 53 \<Longrightarrow> k \<le> 1074 \<Longrightarrow> r (of_int n / 2 ^ k) = of_int n / 2 ^ k"
    and le_twice: "0 \<le> x \<Longrightarrow> r x \<le> 2 * x"
    and err: "\<bar>r x - x\<bar> \<le> \<bar>x\<bar> / 2 ^ 53 + tiny"
begin

lemma exact_int: "\<bar>n\<bar> \<le> 2 ^ 53 \<Longrightarrow> r (of_int n) = of_int n"
  using exact [of n 0] by simp

lemma zero: "r 0 = 0"
  using exact_int [of 0] by simp

lemma one: "r 1 = 1"
  using exact_int [of 1] by simp

lemma nonneg: "0 \<le> x \<Longrightarrow> 0 \<le> r x"
  using mono [of 0 x] zero by simp

lemma le_one: "x \<le> 1 \<Longrightarrow> r x \<le> 1"
  using mono [of x 1] one by simp

lemma between: "a \<le> x \<Longrightarrow> x \<le> b \<Longrightarrow> r a = a \<Longrightarrow> r b = b \<Longrightarrow> a \<le> r x \<and> r x \<le> b"
  using mono by metis

text \<open>Multiplying by a factor of at most one does not increase a value.\<close>

lemma scale_le: "0 \<le> x \<Longrightarrow> 0 \<le> c \<Longrightarrow> c \<le> 1 \<Longrightarrow> r x = x \<Longrightarrow> 0 \<le> r (x * c) \<and> r (x * c) \<le> x"
  using mono [of "x * c" x] nonneg [of "x * c"] by (simp add: mult_left_le)

text \<open>
  Recovery towards one, \<^verbatim>\<open>f += c * (1 - f)\<close>: with \<open>c\<close> at most a quarter the three roundings
  cannot overshoot, and the value does not decrease.
\<close>

lemma recover:
  assumes "0 \<le> f" "f \<le> 1" "r f = f" "0 \<le> c" "c \<le> 1 / 4"
  shows "f \<le> r (f + r (c * r (1 - f)))" "r (f + r (c * r (1 - f))) \<le> 1"
proof -
  have d: "0 \<le> r (1 - f)" "r (1 - f) \<le> 2 * (1 - f)"
    using assms(2) nonneg [of "1 - f"] le_twice [of "1 - f"] by simp_all
  have i: "0 \<le> r (c * r (1 - f))" "r (c * r (1 - f)) \<le> 2 * (c * r (1 - f))"
    using assms d by (simp_all add: nonneg le_twice)
  have "c * r (1 - f) \<le> 1 / 4 * (2 * (1 - f))"
    using assms d by (intro mult_mono) simp_all
  with i have "f + r (c * r (1 - f)) \<le> 1"
    by simp
  then show "r (f + r (c * r (1 - f))) \<le> 1"
    by (rule le_one)
  show "f \<le> r (f + r (c * r (1 - f)))"
    using mono [of f "f + r (c * r (1 - f))"] i(1) assms(3) by simp
qed

text \<open>
  An exponentially weighted average \<^verbatim>\<open>p*x + q*y\<close> stays between bounds the weights reproduce.
\<close>

lemma ewma_le:
  assumes "0 \<le> p" "0 \<le> q" "x \<le> b" "y \<le> b" "r (r (p * b) + r (q * b)) \<le> b"
  shows "r (r (p * x) + r (q * y)) \<le> b"
proof -
  have "r (p * x) \<le> r (p * b)" "r (q * y) \<le> r (q * b)"
    using assms by (simp_all add: mono mult_left_mono)
  then have "r (r (p * x) + r (q * y)) \<le> r (r (p * b) + r (q * b))"
    by (intro mono) simp
  with assms(5) show ?thesis by simp
qed

lemma ewma_ge:
  assumes "0 \<le> p" "0 \<le> q" "a \<le> x" "a \<le> y" "a \<le> r (r (p * a) + r (q * a))"
  shows "a \<le> r (r (p * x) + r (q * y))"
  using ewma_le [of p q "- x" "- a" "- y"] assms minus [of "r (p * x) + r (q * y)"]
    minus [of "r (p * a) + r (q * a)"] by (simp add: minus)

end

interpretation fl: float_rounding rnd
proof
  fix n :: int and k :: nat
  assume "\<bar>n\<bar> \<le> 2 ^ 53" "k \<le> 1074"
  then show "rnd (of_int n / 2 ^ k) = of_int n / 2 ^ k"
    using rnd_exact [of n "- int k"] by (simp add: power_int_minus divide_inverse)
qed (use rnd_err in \<open>simp_all add: rnd_mono rnd_idem rnd_minus rnd_le_twice\<close>)

end
