(* ===== verification/Fec.thy ===== *)
theory Fec
  imports Float64 "HOL-Library.AList"
begin

text \<open>
  Package \<^verbatim>\<open>internal/fec\<close>: forward error correction of the bulk stream. The encoder and the
  decoder are records threaded through their operations; the callbacks \<^verbatim>\<open>emit\<close> and
  \<^verbatim>\<open>recovered\<close> are lists of the calls an operation makes, in order.

  Reed-Solomon comes from \<^verbatim>\<open>github.com/klauspost/reedsolomon\<close>: \<open>enc k m ds\<close> are the \<open>m\<close> parity
  shards of the \<open>k\<close> data shards \<open>ds\<close> and \<open>rec k m all\<close> the shards after \<^verbatim>\<open>ReconstructData\<close>,
  with the empty slice for a missing shard; \<open>None\<close> is an error of \<^verbatim>\<open>New\<close> or of the call. The codec
  cache returns what \<^verbatim>\<open>New\<close> would (\<open>codec_cache_transparent\<close>), so the encoder and the decoder do not
  carry it. Go's maps are association
  lists with distinct keys; where the code iterates over the groups the order is given by a
  parameter \<open>ord\<close>. Geometries are natural numbers: \<^verbatim>\<open>PickParams\<close> and \<^verbatim>\<open>ParseForce\<close> only make
  such.
\<close>

section \<open>Definitions\<close>

record Params =
  K :: nat
  M :: nat

definition off :: Params where "off = \<lparr>K = 0, M = 0\<rparr>"

definition PickParams :: "f64 \<Rightarrow> Params" where
  "PickParams loss =
     (if loss < rnd (1 / 1000) then off
      else if loss < rnd (5 / 1000) then \<lparr>K = 10, M = 1\<rparr>
      else if loss < rnd (2 / 100) then \<lparr>K = 10, M = 2\<rparr>
      else if loss < rnd (5 / 100) then \<lparr>K = 8, M = 3\<rparr>
      else \<lparr>K = 5, M = 2\<rparr>)"

definition FlushTimeout :: duration where "FlushTimeout = 8 * Millisecond"
definition shardHeader :: nat where [simp]: "shardHeader = 6"

definition buildShard :: "u32 \<Rightarrow> bytes \<Rightarrow> bytes" where
  "buildShard seq ct = bytes_of_u32 seq @ bytes_of_u16 (of_nat (length ct)) @ ct"

definition parseShard :: "bytes \<Rightarrow> (u32 \<times> bytes) option" where
  "parseShard s =
     (if length s < shardHeader then None
      else (let l = unat (be16 (s ! 4) (s ! 5)) in
            if shardHeader + l > length s then None
            else Some (be32 (s ! 0) (s ! 1) (s ! 2) (s ! 3), drop shardHeader (take (shardHeader + l) s))))"

text \<open>A copy of \<open>s\<close> padded with zeros to \<open>n\<close> bytes, where it is shorter.\<close>

definition padTo :: "nat \<Rightarrow> bytes \<Rightarrow> bytes" where
  "padTo n s = (if length s < n then s @ replicate (n - length s) 0 else s)"

text \<open>\<^verbatim>\<open>codecCache\<close>; \<open>new\<close> is \<^verbatim>\<open>reedsolomon.New\<close>. A lookup that fails to make a codec caches nothing.\<close>

type_synonym 'c codecCache = "((nat \<times> nat) \<times> 'c) list"

definition codec_get :: "(nat \<Rightarrow> nat \<Rightarrow> 'c option) \<Rightarrow> nat \<Rightarrow> nat \<Rightarrow> 'c codecCache \<Rightarrow> 'c codecCache \<times> 'c option" where
  "codec_get new k m c =
     (case map_of c (k, m) of
        Some x \<Rightarrow> (c, Some x)
      | None \<Rightarrow> (case new k m of None \<Rightarrow> (c, None) | Some x \<Rightarrow> (((k, m), x) # c, Some x)))"

fun codec_run :: "(nat \<Rightarrow> nat \<Rightarrow> 'c option) \<Rightarrow> (nat \<times> nat) list \<Rightarrow> 'c codecCache \<Rightarrow> 'c option list" where
  "codec_run new [] c = []"
| "codec_run new ((k, m) # gs) c = (let (c, x) = codec_get new k m c in x # codec_run new gs c)"

record parity =
  p_group :: u32
  p_index :: byte
  p_k :: byte
  p_m :: byte
  p_shard :: bytes

record encoder =
  params :: Params
  nextGroup :: u32
  eshards :: "bytes list"
  maxLen :: nat
  firstAt :: timestamp
  groupID :: u32
  em :: nat
  GroupsClosed :: u64
  ParityEmitted :: u64

definition NewEncoder :: encoder where
  "NewEncoder = \<lparr>params = off, nextGroup = 0, eshards = [], maxLen = 0, firstAt = zeroTime,
     groupID = 0, em = 0, GroupsClosed = 0, ParityEmitted = 0\<rparr>"

definition SetParams :: "Params \<Rightarrow> encoder \<Rightarrow> encoder" where
  "SetParams p e = e\<lparr>params := p\<rparr>"

definition Enabled :: "encoder \<Rightarrow> bool" where
  "Enabled e \<longleftrightarrow> K (params e) > 0"

type_synonym rs_encode = "nat \<Rightarrow> nat \<Rightarrow> bytes list \<Rightarrow> bytes list option"
type_synonym rs_reconstruct = "nat \<Rightarrow> nat \<Rightarrow> bytes list \<Rightarrow> bytes list option"

definition closeLocked :: "rs_encode \<Rightarrow> encoder \<Rightarrow> encoder \<times> parity list" where
  "closeLocked enc e =
     (let k = length (eshards e); m = em e in
      if m = 0 \<or> k = 0 then (e\<lparr>eshards := []\<rparr>, [])
      else (case enc k m (map (padTo (maxLen e)) (eshards e)) of
              None \<Rightarrow> (e\<lparr>eshards := []\<rparr>, [])
            | Some ps \<Rightarrow>
                (e\<lparr>ParityEmitted := ParityEmitted e + of_nat m, GroupsClosed := GroupsClosed e + 1, eshards := []\<rparr>,
                 map (\<lambda>i. \<lparr>p_group = groupID e, p_index = of_nat (k + i), p_k = of_nat k, p_m = of_nat m,
                           p_shard = ps ! i\<rparr>) [0..<m])))"

text \<open>The result of \<^verbatim>\<open>Add\<close>: \<open>None\<close> when FEC is off, else the group and index to stamp.\<close>

definition Add :: "rs_encode \<Rightarrow> u32 \<Rightarrow> bytes \<Rightarrow> timestamp \<Rightarrow> encoder \<Rightarrow>
    encoder \<times> (u32 \<times> byte) option \<times> parity list" where
  "Add enc seq ct now e =
     (if eshards e = [] \<and> K (params e) = 0 then (e, None, [])
      else (let e = (if eshards e = []
                     then e\<lparr>groupID := nextGroup e AND 0xffffff, nextGroup := nextGroup e + 1,
                            em := M (params e), firstAt := now, maxLen := 0\<rparr>
                     else e);
                e = e\<lparr>eshards := eshards e @ [buildShard seq ct]\<rparr>;
                l = shardHeader + length ct;
                e = (if l > maxLen e then e\<lparr>maxLen := l\<rparr> else e);
                tag = (groupID e, of_nat (length (eshards e) - 1));
                (e, ps) = (if length (eshards e) \<ge> K (params e) then closeLocked enc e else (e, []))
            in (e, Some tag, ps)))"

definition Flush :: "rs_encode \<Rightarrow> timestamp \<Rightarrow> encoder \<Rightarrow> encoder \<times> parity list" where
  "Flush enc now e =
     (if eshards e \<noteq> [] \<and> time_sub now (firstAt e) \<ge> FlushTimeout then closeLocked enc e else (e, []))"

definition EncStats :: "encoder \<Rightarrow> u64 \<times> u64 \<times> Params" where
  "EncStats e = (GroupsClosed e, ParityEmitted e, params e)"

subsection \<open>Decoder\<close>

definition maxGroups :: nat where [simp]: "maxGroups = 512"
definition groupExpiry :: duration where "groupExpiry = Second"

record dgroup =
  dshards :: "(byte \<times> bytes) list"
  dk :: nat
  dm :: nat
  shardLen :: nat
  touched :: timestamp
  gdone :: bool

record decoder =
  groups :: "(u32 \<times> dgroup) list"
  adds :: int
  Recovered :: u64

type_synonym visit_order = "(u32 \<times> dgroup) list \<Rightarrow> (u32 \<times> dgroup) list"

definition NewDecoder :: decoder where
  "NewDecoder = \<lparr>groups = [], adds = 0, Recovered = 0\<rparr>"

fun sweep_visit :: "timestamp \<Rightarrow> bool \<Rightarrow> (u32 \<times> dgroup) list \<Rightarrow> (u32 \<times> dgroup) list \<Rightarrow> (u32 \<times> dgroup) list" where
  "sweep_visit cutoff force [] gs = gs"
| "sweep_visit cutoff force ((gid, g) # rest) gs =
     (if touched g < cutoff \<or> (force \<and> length gs \<ge> maxGroups)
      then sweep_visit cutoff False rest (AList.delete gid gs)
      else sweep_visit cutoff force rest gs)"

definition sweepLocked :: "visit_order \<Rightarrow> timestamp \<Rightarrow> bool \<Rightarrow> decoder \<Rightarrow> decoder" where
  "sweepLocked ord now force d =
     d\<lparr>groups := sweep_visit (now - groupExpiry) force (ord (groups d)) (groups d)\<rparr>"

definition maybeSweepLocked :: "visit_order \<Rightarrow> timestamp \<Rightarrow> decoder \<Rightarrow> decoder" where
  "maybeSweepLocked ord now d =
     (let d = d\<lparr>adds := adds d + 1\<rparr>
      in if adds d mod 128 = 0 then sweepLocked ord now False d else d)"

definition put_group :: "u32 \<Rightarrow> dgroup \<Rightarrow> decoder \<Rightarrow> decoder" where
  "put_group gid g d = d\<lparr>groups := AList.update gid g (groups d)\<rparr>"

definition group :: "visit_order \<Rightarrow> u32 \<Rightarrow> timestamp \<Rightarrow> decoder \<Rightarrow> decoder \<times> dgroup" where
  "group ord gid now d =
     (case map_of (groups d) gid of
        Some g \<Rightarrow> (let g = g\<lparr>touched := now\<rparr> in (put_group gid g d, g))
      | None \<Rightarrow>
          (let d = (if length (groups d) \<ge> maxGroups then sweepLocked ord now True d else d);
               g = \<lparr>dshards = [], dk = 0, dm = 0, shardLen = 0, touched = now, gdone = False\<rparr>
           in (put_group gid g d, g)))"

text \<open>The shards of a group laid out for the codec: padded, cut to the shard length.\<close>

definition place_shard :: "nat \<Rightarrow> bytes list \<Rightarrow> byte \<times> bytes \<Rightarrow> bytes list" where
  "place_shard n all = (\<lambda>(i, s). if unat i \<ge> length all then all else all[unat i := take n (padTo n s)])"

definition layout :: "dgroup \<Rightarrow> bytes list" where
  "layout g = foldl (place_shard (shardLen g)) (replicate (dk g + dm g) []) (dshards g)"

definition tryReconstructLocked :: "rs_reconstruct \<Rightarrow> u32 \<Rightarrow> dgroup \<Rightarrow> decoder \<Rightarrow>
    decoder \<times> (u32 \<times> bytes) list" where
  "tryReconstructLocked rec gid g d =
     (if dk g = 0 then (d, [])
      else if length (filter (\<lambda>(i, s). unat i < dk g) (dshards g)) \<ge> dk g
      then (d\<lparr>groups := AList.delete gid (groups d)\<rparr>, [])
      else if length (dshards g) < dk g then (d, [])
      else (case rec (dk g) (dm g) (layout g) of
              None \<Rightarrow> (d, [])
            | Some all \<Rightarrow>
                (let missing = filter (\<lambda>i. map_of (dshards g) (of_nat i) = None) [0..<dk g];
                     recs = List.map_filter (\<lambda>i. if i < length all then parseShard (all ! i) else None) missing
                 in (d\<lparr>groups := AList.delete gid (groups d), Recovered := Recovered d + of_nat (length recs)\<rparr>,
                     recs))))"

definition AddData :: "visit_order \<Rightarrow> rs_reconstruct \<Rightarrow> u32 \<Rightarrow> byte \<Rightarrow> u32 \<Rightarrow> bytes \<Rightarrow> timestamp \<Rightarrow> decoder \<Rightarrow>
    decoder \<times> (u32 \<times> bytes) list" where
  "AddData ord rec gid index seq ct now d =
     (let (d, g) = group ord gid now (maybeSweepLocked ord now d) in
      if gdone g then (d, [])
      else if map_of (dshards g) index \<noteq> None then (d, [])
      else (let g = g\<lparr>dshards := (index, buildShard seq ct) # dshards g\<rparr>
            in tryReconstructLocked rec gid g (put_group gid g d)))"

definition AddParity :: "visit_order \<Rightarrow> rs_reconstruct \<Rightarrow> u32 \<Rightarrow> byte \<Rightarrow> byte \<Rightarrow> byte \<Rightarrow> bytes \<Rightarrow> timestamp \<Rightarrow> decoder \<Rightarrow>
    decoder \<times> (u32 \<times> bytes) list" where
  "AddParity ord rec gid index k m shard now d =
     (let (d, g) = group ord gid now (maybeSweepLocked ord now d) in
      if gdone g \<or> k = 0 then (d, [])
      else (let g = g\<lparr>dk := unat k, dm := unat m, shardLen := length shard\<rparr>;
                d = put_group gid g d in
            if map_of (dshards g) index \<noteq> None then (d, [])
            else (let g = g\<lparr>dshards := (index, shard) # dshards g\<rparr>
                  in tryReconstructLocked rec gid g (put_group gid g d))))"

section \<open>Shards\<close>

lemma codec_run_cached:
  "(\<And>k m x. map_of c (k, m) = Some x \<Longrightarrow> new k m = Some x) \<Longrightarrow> codec_run new gs c = map (\<lambda>(k, m). new k m) gs"
  by (induction new gs c rule: codec_run.induct) (auto simp: codec_get_def split: option.splits if_splits)

text \<open>Whatever geometries are asked for in turn, the cache answers as making each codec anew would.\<close>

lemma codec_cache_transparent: "codec_run new gs [] = map (\<lambda>(k, m). new k m) gs"
  by (rule codec_run_cached) simp

lemma length_buildShard [simp]: "length (buildShard seq ct) = 6 + length ct"
  by (simp add: buildShard_def field_bytes)

lemma parse_build:
  assumes "length ct < 2 ^ 16"
  shows "parseShard (buildShard seq ct @ pad) = Some (seq, ct)"
proof -
  have "unat (of_nat (length ct) :: u16) = length ct"
    using assms by (simp add: unat_of_nat take_bit_nat_eq_self)
  then show ?thesis
    by (simp add: parseShard_def buildShard_def field_bytes Let_def codec nth_append drop_take)
qed

lemma parse_padded:
  "length ct < 2 ^ 16 \<Longrightarrow> parseShard (padTo n (buildShard seq ct)) = Some (seq, ct)"
  using parse_build [of ct seq "[]"] parse_build [of ct seq] by (simp add: padTo_def)

lemma length_padTo: "length s \<le> n \<Longrightarrow> length (padTo n s) = n"
  by (simp add: padTo_def)

section \<open>The encoder\<close>

type_synonym packet = "u32 \<times> bytes"

text \<open>A sequence of outgoing packets, each at its time.\<close>

fun add_run :: "rs_encode \<Rightarrow> (packet \<times> timestamp) list \<Rightarrow> encoder \<Rightarrow>
    encoder \<times> (u32 \<times> byte) option list \<times> parity list" where
  "add_run enc [] e = (e, [], [])"
| "add_run enc (((seq, ct), now) # ps) e =
     (let (e, tag, out) = Add enc seq ct now e; (e, tags, outs) = add_run enc ps e
      in (e, tag # tags, out @ outs))"

lemma add_run_snoc:
  "add_run enc (ps @ [((seq, ct), now)]) e =
     (let (e, tags, outs) = add_run enc ps e; (e, tag, out) = Add enc seq ct now e
      in (e, tags @ [tag], outs @ out))"
  by (induction enc ps e rule: add_run.induct) (auto simp: Let_def split: prod.splits)

definition shard_len :: "(packet \<times> timestamp) list \<Rightarrow> nat" where
  "shard_len ps = foldl (\<lambda>a ((seq, ct), now). max a (shardHeader + length ct)) 0 ps"

definition raw :: "(packet \<times> timestamp) list \<Rightarrow> bytes list" where
  "raw ps = map (\<lambda>((seq, ct), now). buildShard seq ct) ps"

lemma foldl_max_ge: "a \<le> foldl (\<lambda>a ((seq, ct), now). max a (6 + length ct)) (a :: nat) ps"
proof (induction ps arbitrary: a)
  case (Cons p ps)
  then show ?case
    using order_trans [OF _ Cons.IH] by (cases p) fastforce
qed simp

lemma foldl_max_member:
  "((seq, ct), now) \<in> set ps \<Longrightarrow>
     6 + length ct \<le> foldl (\<lambda>a ((seq, ct), now). max a (6 + length ct)) (a :: nat) ps"
proof (induction ps arbitrary: a)
  case (Cons p ps)
  show ?case
  proof (cases "p = ((seq, ct), now)")
    case True
    then show ?thesis
      using order_trans [OF _ foldl_max_ge [of "max a (6 + length ct)" ps]] by simp
  next
    case False
    with Cons show ?thesis by (cases p) auto
  qed
qed simp

lemma raw_fits: "s \<in> set (raw ps) \<Longrightarrow> length s \<le> shard_len ps"
  using foldl_max_member by (fastforce simp: raw_def shard_len_def)

lemma shard_len_pos: "ps \<noteq> [] \<Longrightarrow> 6 \<le> shard_len ps"
proof -
  assume "ps \<noteq> []"
  then obtain seq ct now qs where ps: "ps = ((seq, ct), now) # qs"
    by (metis list.exhaust prod.exhaust)
  from raw_fits [of "buildShard seq ct" ps] show ?thesis
    by (simp add: ps raw_def)
qed

text \<open>An open group: the packets so far, none of it closed yet.\<close>

definition open_group :: "encoder \<Rightarrow> (packet \<times> timestamp) list \<Rightarrow> encoder \<Rightarrow> bool" where
  "open_group e0 ps e \<longleftrightarrow> params e = params e0 \<and> eshards e = raw ps \<and>
     (if ps = [] then e = e0
      else groupID e = nextGroup e0 AND 0xffffff \<and> em e = M (params e0) \<and> maxLen e = shard_len ps)"

lemma add_run_open:
  assumes "eshards e0 = []" "length ps < K (params e0)"
  shows "\<exists>e. add_run enc ps e0 = (e, map (\<lambda>i. Some (nextGroup e0 AND 0xffffff, of_nat i)) [0..<length ps], []) \<and>
    open_group e0 ps e"
  using assms(2)
proof (induction ps rule: rev_induct)
  case Nil
  then show ?case using assms(1) by (simp add: open_group_def raw_def)
next
  case (snoc p ps)
  obtain seq ct now where p: "p = ((seq, ct), now)" by (metis prod.exhaust)
  obtain e where e: "add_run enc ps e0 = (e, map (\<lambda>i. Some (nextGroup e0 AND 0xffffff, of_nat i)) [0..<length ps], [])"
      "open_group e0 ps e"
    using snoc by auto
  have len: "length (eshards e) = length ps"
    using e(2) by (simp add: open_group_def raw_def)
  then have "\<not> length (eshards e @ [buildShard seq ct]) \<ge> K (params e0)" "K (params e0) \<noteq> 0"
    using snoc.prems by simp_all
  then have "\<exists>e'. Add enc seq ct now e = (e', Some (nextGroup e0 AND 0xffffff, of_nat (length ps)), []) \<and>
      open_group e0 (ps @ [p]) e'"
    using e(2) len assms(1)
    by (cases "ps = []")
       (auto simp: open_group_def Add_def Let_def raw_def shard_len_def p max_def)
  then show ?case
    using e(1) by (auto simp: p add_run_snoc)
qed

definition gid_of :: "encoder \<Rightarrow> u32" where
  "gid_of e0 = nextGroup e0 AND 0xffffff"

lemma add_run_full:
  assumes "eshards e0 = []" "params e0 = \<lparr>K = k, M = m\<rparr>" "length ps = k" "0 < k" "0 < m"
    and "enc k m (map (padTo (shard_len ps)) (raw ps)) = Some par"
  shows "\<exists>e. add_run enc ps e0 =
      (e, map (\<lambda>i. Some (gid_of e0, of_nat i)) [0..<k],
       map (\<lambda>i. \<lparr>p_group = gid_of e0, p_index = of_nat (k + i), p_k = of_nat k, p_m = of_nat m,
             p_shard = par ! i\<rparr>) [0..<m]) \<and>
    eshards e = [] \<and> params e = params e0"
proof -
  have "ps \<noteq> []" using assms(3,4) by auto
  then obtain qs seq ct now where ps: "ps = qs @ [((seq, ct), now)]"
    by (metis append_butlast_last_id prod.exhaust)
  have q: "Suc (length qs) = k" using assms(3) ps by simp
  obtain e where e: "add_run enc qs e0 = (e, map (\<lambda>i. Some (gid_of e0, of_nat i)) [0..<length qs], [])"
      "open_group e0 qs e"
    using add_run_open [OF assms(1), of qs enc] q assms(2) by (auto simp: gid_of_def)
  have len: "length (eshards e) = length qs"
    using e(2) by (simp add: open_group_def raw_def)
  define e1 where "e1 = (if eshards e = []
      then e\<lparr>groupID := nextGroup e AND 0xffffff, nextGroup := nextGroup e + 1, em := M (params e), firstAt := now, maxLen := 0\<rparr>
      else e)"
  define e2 where "e2 = e1\<lparr>eshards := eshards e1 @ [buildShard seq ct]\<rparr>"
  define e3 where "e3 = (if 6 + length ct > maxLen e2 then e2\<lparr>maxLen := 6 + length ct\<rparr> else e2)"
  have f: "groupID e3 = gid_of e0" "em e3 = m" "eshards e3 = raw ps" "maxLen e3 = shard_len ps" "params e3 = params e0"
    using e(2) assms(2)
    by (cases "qs = []"; auto simp: e3_def e2_def e1_def open_group_def gid_of_def raw_def shard_len_def ps max_def)+
  have n: "length (eshards e3) = k" "K (params e3) = k" "length qs = k - 1"
    using f(3,5) assms(2,3) q by (simp_all add: raw_def)
  have "\<not> (eshards e = [] \<and> K (params e) = 0)"
    using e(2) assms(2,4) by (simp add: open_group_def)
  then have "Add enc seq ct now e =
      (let (e', out) = (if K (params e3) \<le> length (eshards e3) then closeLocked enc e3 else (e3, []))
       in (e', Some (groupID e3, of_nat (length (eshards e3) - 1)), out))"
    unfolding Add_def Let_def shardHeader_def e1_def [symmetric] e2_def [symmetric] e3_def [symmetric]
    by (simp only: if_False)
  then have "Add enc seq ct now e = (let (e', out) = closeLocked enc e3
      in (e', Some (gid_of e0, of_nat (length qs)), out))"
    by (simp only: f(1) n order_refl if_True)
  moreover have "closeLocked enc e3 =
      (e3\<lparr>ParityEmitted := ParityEmitted e3 + of_nat m, GroupsClosed := GroupsClosed e3 + 1, eshards := []\<rparr>,
       map (\<lambda>i. \<lparr>p_group = gid_of e0, p_index = of_nat (k + i), p_k = of_nat k, p_m = of_nat m, p_shard = par ! i\<rparr>) [0..<m])"
    using assms(4-6) f n(1) by (simp add: closeLocked_def Let_def)
  moreover have "map (\<lambda>i. Some (gid_of e0, of_nat i)) [0..<length qs] @ [Some (gid_of e0, of_nat (length qs))] =
      map (\<lambda>i. Some (gid_of e0, of_nat i :: byte)) [0..<k]"
    unfolding q [symmetric] by simp
  ultimately show ?thesis
    unfolding ps add_run_snoc e(1) using f(5) by simp
qed

section \<open>The erasure code\<close>

text \<open>
  What the decoder relies on, for one geometry, as the package documents it: \<^verbatim>\<open>Encode\<close> of \<open>k\<close>
  data shards of one positive length yields \<open>m\<close> parity shards of that length, and
  \<^verbatim>\<open>ReconstructData\<close> restores the data shards whenever at least \<open>k\<close> of the \<open>k + m\<close> are present
  and the others are empty.
\<close>

definition erasure_code :: "rs_encode \<Rightarrow> rs_reconstruct \<Rightarrow> nat \<Rightarrow> nat \<Rightarrow> bool" where
  "erasure_code enc rec k m \<longleftrightarrow>
     (\<forall>ds L. length ds = k \<and> 0 < L \<and> (\<forall>s \<in> set ds. length s = L) \<longrightarrow>
       (\<exists>ps. enc k m ds = Some ps \<and> length ps = m \<and> (\<forall>p \<in> set ps. length p = L) \<and>
         (\<forall>all. length all = k + m \<and> (\<forall>j < k + m. all ! j = [] \<or> all ! j = (ds @ ps) ! j) \<and>
            k \<le> card {j. j < k + m \<and> all ! j \<noteq> []} \<longrightarrow>
            (\<exists>res. rec k m all = Some res \<and> length res = k + m \<and> (\<forall>j < k. res ! j = ds ! j)))))"

section \<open>The decoder\<close>

lemma AList_delete_single [simp]: "AList.delete g [(g, x)] = []"
  by simp

text \<open>
  The shards of one group by number: \<open>k\<close> data packets, then the parity shards, as the two
  entry points of the decoder receive them.
\<close>

definition shard_at :: "(packet \<times> timestamp) list \<Rightarrow> bytes list \<Rightarrow> nat \<Rightarrow> bytes" where
  "shard_at ps par j = (raw ps @ par) ! j"

definition receive :: "visit_order \<Rightarrow> rs_reconstruct \<Rightarrow> (packet \<times> timestamp) list \<Rightarrow> (u32 \<times> byte) option list \<Rightarrow>
    parity list \<Rightarrow> nat \<times> timestamp \<Rightarrow> decoder \<Rightarrow> decoder \<times> packet list" where
  "receive ord rec ps tags pars = (\<lambda>(j, now) d.
     if j < length ps
     then (case (ps ! j, tags ! j) of
             (((seq, ct), _), Some (gid, i)) \<Rightarrow> AddData ord rec gid i seq ct now d
           | _ \<Rightarrow> (d, []))
     else (let p = pars ! (j - length ps)
           in AddParity ord rec (p_group p) (p_index p) (p_k p) (p_m p) (p_shard p) now d))"

fun receive_run :: "visit_order \<Rightarrow> rs_reconstruct \<Rightarrow> (packet \<times> timestamp) list \<Rightarrow> (u32 \<times> byte) option list \<Rightarrow>
    parity list \<Rightarrow> (nat \<times> timestamp) list \<Rightarrow> decoder \<Rightarrow> decoder \<times> packet list" where
  "receive_run ord rec ps tags pars [] d = (d, [])"
| "receive_run ord rec ps tags pars (x # xs) d =
     (let (d, r) = receive ord rec ps tags pars x d; (d, rs) = receive_run ord rec ps tags pars xs d
      in (d, r @ rs))"

lemma receive_run_snoc:
  "receive_run ord rec ps tags pars (xs @ [x]) d =
     (let (d, r) = receive_run ord rec ps tags pars xs d; (d, rs) = receive ord rec ps tags pars x d
      in (d, r @ rs))"
  by (induction xs arbitrary: d) (auto simp: Let_def split: prod.splits)

text \<open>The group after the shards \<open>js\<close>, most recent first.\<close>

definition held_group :: "nat \<Rightarrow> nat \<Rightarrow> nat \<Rightarrow> (nat \<Rightarrow> bytes) \<Rightarrow> nat list \<Rightarrow> timestamp \<Rightarrow> dgroup" where
  "held_group k m L sh js t =
     \<lparr>dshards = map (\<lambda>j. (of_nat j, sh j)) js,
      dk = (if \<exists>j \<in> set js. k \<le> j then k else 0), dm = (if \<exists>j \<in> set js. k \<le> j then m else 0),
      shardLen = (if \<exists>j \<in> set js. k \<le> j then L else 0), touched = t, gdone = False\<rparr>"

definition holding :: "int \<Rightarrow> u32 \<Rightarrow> nat \<Rightarrow> nat \<Rightarrow> nat \<Rightarrow> (nat \<Rightarrow> bytes) \<Rightarrow> nat list \<Rightarrow> decoder \<Rightarrow> bool" where
  "holding a0 gid k m L sh js d \<longleftrightarrow> adds d = a0 + int (length js) \<and>
     (if js = [] then groups d = [] else \<exists>t. groups d = [(gid, held_group k m L sh js t)])"

lemma of_nat_byte_eq: "i < 256 \<Longrightarrow> j < 256 \<Longrightarrow> (of_nat i :: byte) = of_nat j \<longleftrightarrow> i = j"
  by (simp add: word_of_nat_eq_iff take_bit_nat_eq_self)

lemma unat_byte: "i < 256 \<Longrightarrow> unat (of_nat i :: byte) = i"
  by (simp add: unat_of_nat take_bit_nat_eq_self)

lemma map_of_shards:
  "i < 256 \<Longrightarrow> \<forall>j \<in> set js. j < 256 \<Longrightarrow>
     map_of (map (\<lambda>j. (of_nat j :: byte, sh j)) js) (of_nat i) = (if i \<in> set js then Some (sh i) else None)"
  by (induction js) (auto simp: of_nat_byte_eq)

text \<open>What the sender of one group put on the wire, as the receiver refers to it.\<close>

definition sent_group :: "u32 \<Rightarrow> nat \<Rightarrow> nat \<Rightarrow> nat \<Rightarrow> (packet \<times> timestamp) list \<Rightarrow> bytes list \<Rightarrow>
    (u32 \<times> byte) option list \<Rightarrow> parity list \<Rightarrow> bool" where
  "sent_group gid k m L ps par tags pars \<longleftrightarrow> 0 < k \<and> 0 < m \<and> k + m < 128 \<and> length ps = k \<and>
     length par = m \<and> (\<forall>p \<in> set par. length p = L) \<and>
     tags = map (\<lambda>i. Some (gid, of_nat i)) [0..<k] \<and>
     pars = map (\<lambda>i. \<lparr>p_group = gid, p_index = of_nat (k + i), p_k = of_nat k, p_m = of_nat m,
             p_shard = par ! i\<rparr>) [0..<m]"

text \<open>A decoder between groups that will not sweep during the next \<open>n\<close> datagrams.\<close>

definition idle :: "nat \<Rightarrow> decoder \<Rightarrow> bool" where
  "idle n d \<longleftrightarrow> groups d = [] \<and> adds d mod 128 + int n < 128"

lemma no_sweep:
  assumes "adds d = a0 + int n" "a0 mod 128 + int n < 127"
  shows "maybeSweepLocked ord now d = d\<lparr>adds := a0 + int (Suc n)\<rparr>"
proof -
  have "(a0 + int n + 1) mod 128 = (a0 mod 128 + int n + 1) mod 128"
    by (simp add: mod_simps add.assoc)
  moreover have "0 \<le> a0 mod 128" by simp
  ultimately have "(a0 + int n + 1) mod 128 \<noteq> 0"
    using assms(2) by simp
  then show ?thesis
    using assms(1) by (simp add: maybeSweepLocked_def Let_def ac_simps)
qed

lemma group_holding:
  assumes "holding a0 gid k m L sh js d"
  shows "group ord gid now (d\<lparr>adds := a\<rparr>) =
    (d\<lparr>adds := a, groups := [(gid, held_group k m L sh js now)]\<rparr>, held_group k m L sh js now)"
  using assms by (auto simp: holding_def group_def put_group_def held_group_def Let_def split: if_splits)

lemma receive_shard:
  fixes now :: timestamp
  assumes s: "sent_group gid k m L ps par tags pars" and h: "holding a0 gid k m L (shard_at ps par) js d"
    and j: "j < k + m" "j \<notin> set js" "set js \<subseteq> {..<k + m}" "a0 mod 128 + int (length js) < 127"
  defines "g' \<equiv> held_group k m L (shard_at ps par) (j # js) now"
  shows "receive ord rec ps tags pars (j, now) d =
    tryReconstructLocked rec gid g' (d\<lparr>adds := a0 + int (Suc (length js)), groups := [(gid, g')]\<rparr>)"
proof -
  let ?g = "held_group k m L (shard_at ps par) js now" and ?n = "a0 + int (Suc (length js))"
  have a: "adds d = a0 + int (length js)"
    using h by (simp add: holding_def)
  have lt: "k + m < 128" "length ps = k" "length par = m"
    using s by (simp_all add: sent_group_def)
  have js: "\<forall>i \<in> set js. i < 256"
    using j(3) lt(1) by auto
  have gr: "group ord gid now (maybeSweepLocked ord now d) = (d\<lparr>adds := ?n, groups := [(gid, ?g)]\<rparr>, ?g)"
    using group_holding [OF h, of ord now ?n] no_sweep [OF a j(4), of ord now] by simp
  have fresh: "map_of (dshards ?g) (of_nat j) = None"
    using map_of_shards [OF _ js, of j "shard_at ps par"] j(1,2) lt(1) by (simp add: held_group_def)
  show ?thesis
  proof (cases "j < k")
    case True
    obtain seq ct t where pj: "ps ! j = ((seq, ct), t)" by (metis prod.exhaust)
    have tg: "tags ! j = Some (gid, of_nat j)"
      using s True by (simp add: sent_group_def)
    have sh: "shard_at ps par j = buildShard seq ct"
      using True lt pj by (simp add: shard_at_def raw_def nth_append)
    have "?g\<lparr>dshards := (of_nat j, buildShard seq ct) # dshards ?g\<rparr> = g'"
      using True by (auto simp: g'_def held_group_def sh)
    then show ?thesis
      using True lt gr fresh by (simp add: receive_def pj tg AddData_def put_group_def held_group_def [of _ _ _ _ js])
  next
    case False
    have p: "pars ! (j - k) = \<lparr>p_group = gid, p_index = of_nat j, p_k = of_nat k, p_m = of_nat m, p_shard = par ! (j - k)\<rparr>"
    proof -
      have i: "j - k < m" "[0..<m] ! (j - k) = j - k" "k + (j - k) = j"
        using False j(1) by simp_all
      then show ?thesis
        using s unfolding sent_group_def by (simp only: nth_map length_upt diff_zero)
    qed
    have sh: "shard_at ps par j = par ! (j - k)" and L: "length (par ! (j - k)) = L"
      using False lt j(1) s by (auto simp: shard_at_def raw_def nth_append sent_group_def)
    have k0: "(of_nat k :: byte) \<noteq> 0" "unat (of_nat k :: byte) = k" "unat (of_nat m :: byte) = m"
      using of_nat_byte_eq [of k 0] unat_byte [of k] unat_byte [of m] s by (simp_all add: sent_group_def)
    have "?g\<lparr>dk := k, dm := m, shardLen := L, dshards := (of_nat j, par ! (j - k)) # dshards ?g\<rparr> = g'"
      using False by (auto simp: g'_def held_group_def sh)
    then show ?thesis
      using False lt gr fresh k0 L
      by (simp add: receive_def p AddParity_def put_group_def held_group_def [of _ _ _ _ js])
  qed
qed

lemma not_enough:
  assumes "length js < k"
  shows "tryReconstructLocked rec gid (held_group k m L sh js now) d = (d, [])"
proof -
  let ?g = "held_group k m L sh js now"
  have len: "length (dshards ?g) < k" "dk ?g = 0 \<or> dk ?g = k"
    using assms by (simp_all add: held_group_def)
  then have "\<not> dk ?g \<le> length (filter (\<lambda>(i, s). unat i < dk ?g) (dshards ?g)) \<or> dk ?g = 0"
    using le_less_trans [OF length_filter_le, of "dshards ?g" k] by (auto simp: not_le)
  with len show ?thesis
    unfolding tryReconstructLocked_def by auto
qed

lemma receive_partial:
  assumes s: "sent_group gid k m L ps par tags pars"
    and d0: "idle k d0" and "distinct (map fst xs)" "set (map fst xs) \<subseteq> {..<k + m}" "length xs < k"
  shows "\<exists>d. receive_run ord rec ps tags pars xs d0 = (d, []) \<and>
    holding (adds d0) gid k m L (shard_at ps par) (rev (map fst xs)) d \<and> Recovered d = Recovered d0"
  using assms(3-5)
proof (induction xs rule: rev_induct)
  case Nil
  then show ?case using d0 by (simp add: holding_def idle_def)
next
  case (snoc x xs)
  obtain j now where x: "x = (j, now)" by fastforce
  from snoc obtain d where d: "receive_run ord rec ps tags pars xs d0 = (d, [])"
      "holding (adds d0) gid k m L (shard_at ps par) (rev (map fst xs)) d" "Recovered d = Recovered d0"
    by auto
  have "receive ord rec ps tags pars (j, now) d =
      (d\<lparr>adds := adds d0 + int (Suc (length xs)),
         groups := [(gid, held_group k m L (shard_at ps par) (j # rev (map fst xs)) now)]\<rparr>, [])"
    using receive_shard [OF s d(2), where j = j and now = now and ord = ord and rec = rec] not_enough [of "j # rev (map fst xs)" k rec gid m L] snoc.prems s d0
    by (auto simp: x sent_group_def idle_def)
  with d(1,3) show ?case
    by (auto simp: receive_run_snoc x holding_def)
qed

lemma place_byte:
  "j < 256 \<Longrightarrow> place_shard n all (of_nat j, s) = (if j \<ge> length all then all else all[j := take n (padTo n s)])"
  by (simp add: place_shard_def unat_byte)

lemma layout_foldl:
  assumes "\<forall>j \<in> set js. j < 256"
  shows "length (foldl (place_shard n) all0 (map (\<lambda>j. (of_nat j, sh j)) js)) = length all0 \<and>
    (\<forall>i < length all0. foldl (place_shard n) all0 (map (\<lambda>j. (of_nat j, sh j)) js) ! i =
       (if i \<in> set js then take n (padTo n (sh i)) else all0 ! i))"
  using assms
proof (induction js arbitrary: all0)
  case (Cons j js)
  let ?all = "if j \<ge> length all0 then all0 else all0[j := take n (padTo n (sh j))]"
  have "length ?all = length all0" "i < length all0 \<Longrightarrow> ?all ! i = (if i = j then take n (padTo n (sh i)) else all0 ! i)" for i
    by (auto simp: nth_list_update)
  with Cons.IH [of ?all] Cons.prems show ?case
    by (simp add: place_byte)
qed simp

lemma layout_nth:
  assumes "\<forall>j \<in> set js. j < 256" "\<exists>j \<in> set js. k \<le> j"
  shows "length (layout (held_group k m L sh js t)) = k + m"
    and "i < k + m \<Longrightarrow> layout (held_group k m L sh js t) ! i = (if i \<in> set js then take L (padTo L (sh i)) else [])"
  using layout_foldl [OF assms(1), of L "replicate (k + m) []" sh] assms(2)
  by (simp_all add: layout_def held_group_def)

lemma data_padded:
  assumes "\<forall>s \<in> set (raw ps). length s \<le> L" "\<forall>p \<in> set par. length p = L" "j < length ps + length par"
  shows "take L (padTo L (shard_at ps par j)) = (map (padTo L) (raw ps) @ par) ! j"
proof (cases "j < length ps")
  case True
  then have "shard_at ps par j = raw ps ! j" "length (raw ps ! j) \<le> L" "j < length (raw ps)"
    using assms(1) by (simp_all add: shard_at_def raw_def nth_append)
  then show ?thesis
    using length_padTo [of "raw ps ! j" L] by (simp add: nth_append)
next
  case False
  then have "shard_at ps par j = par ! (j - length ps)" "length (par ! (j - length ps)) = L"
    using assms(2,3) by (auto simp: shard_at_def raw_def nth_append)
  then show ?thesis
    using False by (simp add: padTo_def nth_append raw_def)
qed

lemma few_data:
  assumes "\<forall>j \<in> set js. j < 256" "\<exists>j \<in> set js. k \<le> j" "length js = k"
  shows "length (filter (\<lambda>(i, s). unat i < k) (map (\<lambda>j. (of_nat j :: byte, sh j)) js)) < k"
proof -
  obtain j where j: "j \<in> set js" "k \<le> j" using assms(2) by blast
  then have "unat (of_nat j :: byte) = j" using assms(1) by (simp add: unat_byte)
  with j have "length (filter (\<lambda>(i, s). unat i < k) (map (\<lambda>j. (of_nat j :: byte, sh j)) js)) <
      length (map (\<lambda>j. (of_nat j :: byte, sh j)) js)"
    by (intro length_filter_less [of "(of_nat j, sh j)"]) auto
  with assms(3) show ?thesis by simp
qed

definition lost :: "(packet \<times> timestamp) list \<Rightarrow> nat list \<Rightarrow> packet list" where
  "lost ps js = map (\<lambda>i. fst (ps ! i)) (filter (\<lambda>i. i \<notin> set js) [0..<length ps])"

lemma map_filter_all: "\<forall>x \<in> set xs. f x = Some (g x) \<Longrightarrow> List.map_filter f xs = map g xs"
  by (induction xs) simp_all

lemma enough:
  fixes t :: timestamp
  assumes s: "sent_group gid k m L ps par tags pars" and L: "0 < L" "\<forall>s \<in> set (raw ps). length s \<le> L"
    and small: "\<forall>((seq, ct), t) \<in> set ps. length ct < 2 ^ 16"
    and js: "distinct js" "set js \<subseteq> {..<k + m}" "length js = k" "\<exists>j \<in> set js. k \<le> j"
    and rc: "\<And>all. length all = k + m \<Longrightarrow> (\<forall>j < k + m. all ! j = [] \<or> all ! j = (map (padTo L) (raw ps) @ par) ! j) \<Longrightarrow>
        k \<le> card {j. j < k + m \<and> all ! j \<noteq> []} \<Longrightarrow>
        \<exists>res. rec k m all = Some res \<and> length res = k + m \<and> (\<forall>j < k. res ! j = map (padTo L) (raw ps) ! j)"
  defines "g \<equiv> held_group k m L (shard_at ps par) js t"
  shows "tryReconstructLocked rec gid g (d\<lparr>groups := [(gid, g)]\<rparr>) =
    (d\<lparr>groups := [], Recovered := Recovered d + of_nat (length (lost ps js))\<rparr>, lost ps js)"
proof -
  have lt: "k + m < 128" "length ps = k" "length par = m" "0 < k" "\<forall>p \<in> set par. length p = L"
    using s by (simp_all add: sent_group_def)
  have b: "\<forall>j \<in> set js. j < 256" using js(2) lt(1) by auto
  have g: "dk g = k" "dm g = m" "dshards g = map (\<lambda>j. (of_nat j, shard_at ps par j)) js"
    using js(4) by (simp_all add: g_def held_group_def)
  note lay = layout_nth [OF b js(4), where m = m and L = L and sh = "shard_at ps par" and t = t, folded g_def]
  have nth: "layout g ! j = (if j \<in> set js then (map (padTo L) (raw ps) @ par) ! j else [])" if "j < k + m" for j
    using lay(2) [OF that] data_padded [OF L(2) lt(5), of j] that lt(2,3) by simp
  have len: "length ((map (padTo L) (raw ps) @ par) ! j) = L" if "j < k + m" for j
    using that lt L(2) length_padTo by (auto simp: nth_append raw_def)
  then have ne: "(map (padTo L) (raw ps) @ par) ! j \<noteq> []" if "j < k + m" for j
    using that L(1) by fastforce
  have "layout g ! j \<noteq> [] \<longleftrightarrow> j \<in> set js" if "j < k + m" for j
    using nth [OF that] ne [OF that] by metis
  then have "{j. j < k + m \<and> layout g ! j \<noteq> []} = set js"
    using js(2) by blast
  then have "k \<le> card {j. j < k + m \<and> layout g ! j \<noteq> []}"
    using js(1,3) by (simp add: distinct_card)
  moreover have "\<forall>j < k + m. layout g ! j = [] \<or> layout g ! j = (map (padTo L) (raw ps) @ par) ! j"
    using nth by metis
  ultimately obtain res where res: "rec k m (layout g) = Some res" "length res = k + m"
      "\<forall>j < k. res ! j = map (padTo L) (raw ps) ! j"
    using rc [of "layout g"] lay(1) by blast
  have missing: "filter (\<lambda>i. map_of (dshards g) (of_nat i) = None) [0..<k] = filter (\<lambda>i. i \<notin> set js) [0..<k]"
  proof (rule filter_cong [OF refl])
    fix i assume "i \<in> set [0..<k]"
    then have i: "i < 256" using lt(1) by simp
    show "(map_of (dshards g) (of_nat i) = None) = (i \<notin> set js)"
      unfolding g(3) map_of_shards [OF i b] by simp
  qed
  have "parseShard (res ! i) = Some (fst (ps ! i))" if "i < k" for i
  proof -
    obtain seq ct u where p: "ps ! i = ((seq, ct), u)" by (metis prod.exhaust)
    then have "length ct < 2 ^ 16"
      using small that lt(2) nth_mem [of i ps] by fastforce
    then show ?thesis
      using res(3) that lt(2) p parse_padded [of ct L seq] by (simp add: raw_def)
  qed
  then have recs: "List.map_filter (\<lambda>i. if i < length res then parseShard (res ! i) else None)
      (filter (\<lambda>i. i \<notin> set js) [0..<k]) = lost ps js"
    unfolding lost_def lt(2) using res(2) by (intro map_filter_all) simp
  have "\<not> dk g \<le> length (filter (\<lambda>(i, s). unat i < dk g) (dshards g))" "\<not> length (dshards g) < dk g"
    using few_data [OF b js(4,3), of "shard_at ps par"] js(3) by (simp_all add: g)
  then show ?thesis
    unfolding tryReconstructLocked_def g(1,2) missing res(1) using lt(4) by (simp add: g recs Let_def)
qed

text \<open>What a sender that completes a group puts on the wire, and what the codec can restore of it.\<close>

lemma shard_len_le: "\<forall>((seq, ct), t) \<in> set ps. length ct \<le> n \<Longrightarrow> shard_len ps \<le> 6 + n"
proof (induction ps rule: rev_induct)
  case (snoc p ps)
  then show ?case by (cases p) (auto simp: shard_len_def)
qed (simp add: shard_len_def)

lemma group_sent:
  assumes code: "erasure_code enc rec k m" and km: "0 < k" "0 < m" "k + m < 128"
    and e0: "eshards e0 = []" "params e0 = \<lparr>K = k, M = m\<rparr>" and ps: "length ps = k"
    and run: "add_run enc ps e0 = (e, tags, pars)"
  defines "ds \<equiv> map (padTo (shard_len ps)) (raw ps)"
  shows "\<exists>par. sent_group (gid_of e0) k m (shard_len ps) ps par tags pars \<and>
    (\<forall>all. length all = k + m \<and> (\<forall>j < k + m. all ! j = [] \<or> all ! j = (ds @ par) ! j) \<and>
       k \<le> card {j. j < k + m \<and> all ! j \<noteq> []} \<longrightarrow>
       (\<exists>res. rec k m all = Some res \<and> length res = k + m \<and> (\<forall>j < k. res ! j = ds ! j)))"
proof -
  have "ps \<noteq> []" using ps km(1) by auto
  then have L: "0 < shard_len ps" using shard_len_pos [of ps] by simp
  have ds: "length ds = k" "\<forall>s \<in> set ds. length s = shard_len ps"
    using ps raw_fits length_padTo by (auto simp: ds_def) (simp add: raw_def)
  obtain par where par: "enc k m ds = Some par" "length par = m" "\<forall>p \<in> set par. length p = shard_len ps"
      "\<forall>all. length all = k + m \<and> (\<forall>j < k + m. all ! j = [] \<or> all ! j = (ds @ par) ! j) \<and>
          k \<le> card {j. j < k + m \<and> all ! j \<noteq> []} \<longrightarrow>
          (\<exists>res. rec k m all = Some res \<and> length res = k + m \<and> (\<forall>j < k. res ! j = ds ! j))"
    using code ds L unfolding erasure_code_def by blast
  have "sent_group (gid_of e0) k m (shard_len ps) ps par tags pars"
    using add_run_full [OF e0 ps km(1,2), of enc par] par(1-3) run km ps by (simp add: sent_group_def ds_def)
  with par(4) show ?thesis by blast
qed

text \<open>The last of \<open>k\<close> datagrams of a group, after the others.\<close>

lemma receive_last:
  assumes sent: "sent_group gid k m L ps par tags pars"
    and d0: "idle k d0" and xs: "distinct (map fst xs)" "set (map fst xs) \<subseteq> {..<k + m}" "length xs = k"
  obtains ys j now d where "xs = ys @ [(j, now)]" "receive_run ord rec ps tags pars ys d0 = (d, [])" "Recovered d = Recovered d0"
    "receive ord rec ps tags pars (j, now) d =
      tryReconstructLocked rec gid (held_group k m L (shard_at ps par) (j # rev (map fst ys)) now)
        (d\<lparr>adds := adds d0 + int k, groups := [(gid, held_group k m L (shard_at ps par) (j # rev (map fst ys)) now)]\<rparr>)"
proof -
  have km: "0 < k" "k + m < 128" using sent by (simp_all add: sent_group_def)
  from xs(3) km(1) obtain ys j now where x: "xs = ys @ [(j, now)]"
    by (metis length_greater_0_conv prod.exhaust rev_exhaust)
  have ys: "distinct (map fst ys)" "set (map fst ys) \<subseteq> {..<k + m}" "length ys < k" "Suc (length ys) = k"
    using xs x by auto
  obtain d where d: "receive_run ord rec ps tags pars ys d0 = (d, [])"
      "holding (adds d0) gid k m L (shard_at ps par) (rev (map fst ys)) d" "Recovered d = Recovered d0"
    using receive_partial [OF sent d0 ys(1-3), of ord rec] by blast
  have "j < k + m" "j \<notin> set (rev (map fst ys))" "set (rev (map fst ys)) \<subseteq> {..<k + m}" "adds d0 mod 128 + int (length (rev (map fst ys))) < 127"
    using xs x ys d0 by (auto simp: idle_def)
  from receive_shard [OF sent d(2) this, where now = now and ord = ord and rec = rec] show thesis
    using that [OF x d(1,3)] ys(4) by simp
qed

text \<open>From the sender's state to the receiver's output, for one group.\<close>

lemma group_recovered:
  assumes code: "erasure_code enc rec k m" and km: "0 < k" "0 < m" "k + m < 128"
    and e0: "eshards e0 = []" "params e0 = \<lparr>K = k, M = m\<rparr>"
    and ps: "length ps = k" "\<forall>((seq, ct), t) \<in> set ps. length ct < 2 ^ 16"
    and run: "add_run enc ps e0 = (e, tags, pars)"
    and d0: "idle k d0" and xs: "distinct (map fst xs)" "set (map fst xs) \<subseteq> {..<k + m}" "length xs = k" "\<exists>x \<in> set xs. k \<le> fst x"
  shows "\<exists>d. receive_run ord rec ps tags pars xs d0 = (d, lost ps (map fst xs)) \<and>
    Recovered d = Recovered d0 + of_nat (length (lost ps (map fst xs))) \<and> groups d = []"
proof -
  have "ps \<noteq> []" using ps(1) km(1) by auto
  then have L: "0 < shard_len ps" "\<forall>s \<in> set (raw ps). length s \<le> shard_len ps"
    using shard_len_pos [of ps] raw_fits by auto
  obtain par where sent: "sent_group (gid_of e0) k m (shard_len ps) ps par tags pars"
    and rc: "\<forall>all. length all = k + m \<and> (\<forall>j < k + m. all ! j = [] \<or> all ! j = (map (padTo (shard_len ps)) (raw ps) @ par) ! j) \<and>
       k \<le> card {j. j < k + m \<and> all ! j \<noteq> []} \<longrightarrow>
       (\<exists>res. rec k m all = Some res \<and> length res = k + m \<and> (\<forall>j < k. res ! j = map (padTo (shard_len ps)) (raw ps) ! j))"
    using group_sent [OF code km e0 ps(1) run] by (elim exE conjE) (rule that)
  obtain ys j now d where r: "xs = ys @ [(j, now)]" "receive_run ord rec ps tags pars ys d0 = (d, [])" "Recovered d = Recovered d0"
      "receive ord rec ps tags pars (j, now) d =
        tryReconstructLocked rec (gid_of e0) (held_group k m (shard_len ps) (shard_at ps par) (j # rev (map fst ys)) now)
          (d\<lparr>adds := adds d0 + int k, groups := [(gid_of e0, held_group k m (shard_len ps) (shard_at ps par) (j # rev (map fst ys)) now)]\<rparr>)"
    by (rule receive_last [OF sent d0 xs(1-3), of ord rec])
  let ?js = "j # rev (map fst ys)"
  have js: "distinct ?js" "set ?js \<subseteq> {..<k + m}" "length ?js = k" "\<exists>j \<in> set ?js. k \<le> j"
    using xs r(1) by auto
  have "receive ord rec ps tags pars (j, now) d = (d\<lparr>adds := adds d0 + int k, groups := [],
        Recovered := Recovered d + of_nat (length (lost ps ?js))\<rparr>, lost ps ?js)"
    using enough [OF sent L ps(2) js, where rec = rec and t = now and d = "d\<lparr>adds := adds d0 + int k\<rparr>"] rc r(4)
    by simp
  moreover have "lost ps ?js = lost ps (map fst xs)"
    by (simp add: lost_def r(1))
  ultimately show ?thesis
    using r(2,3) by (simp add: r(1) receive_run_snoc)
qed

text \<open>With any \<open>k\<close> datagrams of the group, the packets that are not among them come out of the decoder.\<close>

lemma group_filled:
  assumes code: "erasure_code enc rec k m" "0 < k" "0 < m" "k + m < 128" "eshards e0 = []" "params e0 = \<lparr>K = k, M = m\<rparr>"
    and ps: "length ps = k" "\<forall>((seq, ct), t) \<in> set ps. length ct < 2 ^ 16"
    and run: "add_run enc ps e0 = (e, tags, pars)"
    and d0: "idle k d0" and xs: "distinct (map fst xs)" "set (map fst xs) \<subseteq> {..<k + m}" "length xs = k"
  shows "\<exists>d. receive_run ord rec ps tags pars xs d0 = (d, lost ps (map fst xs))"
proof (cases "\<exists>x \<in> set xs. k \<le> fst x")
  case True
  then show ?thesis using group_recovered [OF code ps run d0 xs True] by blast
next
  case False
  obtain par where sent: "sent_group (gid_of e0) k m (shard_len ps) ps par tags pars"
    using group_sent [OF code ps(1) run] by (elim exE conjE) (rule that)
  obtain ys j now d where r: "xs = ys @ [(j, now)]" "receive_run ord rec ps tags pars ys d0 = (d, [])"
      "receive ord rec ps tags pars (j, now) d =
        tryReconstructLocked rec (gid_of e0) (held_group k m (shard_len ps) (shard_at ps par) (j # rev (map fst ys)) now)
          (d\<lparr>adds := adds d0 + int k, groups := [(gid_of e0, held_group k m (shard_len ps) (shard_at ps par) (j # rev (map fst ys)) now)]\<rparr>)"
    by (rule receive_last [OF sent d0 xs, of ord rec])
  have "dk (held_group k m (shard_len ps) (shard_at ps par) (j # rev (map fst ys)) now) = 0"
    using False r(1) by (auto simp: held_group_def)
  then obtain d' where "receive ord rec ps tags pars (j, now) d = (d', [])"
    unfolding r(3) tryReconstructLocked_def by simp
  then have "receive_run ord rec ps tags pars xs d0 = (d', [])"
    using r(2) by (simp add: r(1) receive_run_snoc)
  moreover have "set (map fst xs) = {..<k}"
  proof (rule card_subset_eq)
    show "set (map fst xs) \<subseteq> {..<k}" using False by fastforce
    show "card (set (map fst xs)) = card {..<k}" using distinct_card [OF xs(1)] xs(3) by simp
  qed simp
  then have "lost ps (map fst xs) = []" by (auto simp: lost_def ps(1))
  ultimately show ?thesis by simp
qed

section \<open>The decoder's memory is bounded\<close>




















section \<open>A parity code\<close>

text \<open>
  The exclusive-or code of two data shards and one parity shard, a concrete function that
  satisfies \<open>erasure_code\<close>.
\<close>

definition xor_bytes :: "bytes \<Rightarrow> bytes \<Rightarrow> bytes" where
  "xor_bytes a b = map2 (XOR) a b"

definition xor_encode :: rs_encode where
  "xor_encode k m ds = (if k = 2 \<and> m = 1 \<and> length ds = 2 then Some [xor_bytes (ds ! 0) (ds ! 1)] else None)"

definition xor_reconstruct :: rs_reconstruct where
  "xor_reconstruct k m all = (if k = 2 \<and> m = 1 \<and> length all = 3 then
     (if all ! 0 = [] then Some (all[0 := xor_bytes (all ! 2) (all ! 1)])
      else if all ! 1 = [] then Some (all[1 := xor_bytes (all ! 0) (all ! 2)])
      else Some all) else None)"

lemma xor_bytes_cancel:
  assumes "length a = length b"
  shows "xor_bytes (xor_bytes a b) b = a" "xor_bytes a (xor_bytes a b) = b" "length (xor_bytes a b) = length a"
  using assms by (auto simp: xor_bytes_def xor.assoc intro!: nth_equalityI)

lemma less_3_cases: "i < 3 \<longleftrightarrow> i = 0 \<or> i = 1 \<or> i = (2 :: nat)"
  by auto

lemma xor_erasure: "erasure_code xor_encode xor_reconstruct 2 1"
  unfolding erasure_code_def
proof (intro allI impI)
  fix ds :: "bytes list" and L
  assume h: "length ds = 2 \<and> 0 < L \<and> (\<forall>s \<in> set ds. length s = L)"
  then obtain a b where ds: "ds = [a, b]"
    by (auto simp: length_Suc_conv numeral_2_eq_2)
  with h have ab: "length a = L" "length b = L" "a \<noteq> []" "b \<noteq> []" by auto
  let ?p = "xor_bytes a b"
  have p: "length ?p = L" "?p \<noteq> []"
    using xor_bytes_cancel(3) [of a b] ab by auto
  have rec: "\<exists>res. xor_reconstruct 2 1 all = Some res \<and> length res = 2 + 1 \<and> (\<forall>j < 2. res ! j = ds ! j)"
    if "length all = 3" "\<forall>j < 3. all ! j = [] \<or> all ! j = [a, b, ?p] ! j" "2 \<le> card {j. j < 3 \<and> all ! j \<noteq> []}" for all
  proof -
    note l = that(1)
    obtain x y z where all: "all = [x, y, z]"
      using l by (auto simp: length_Suc_conv numeral_3_eq_3)
    have v: "x = [] \<or> x = a" "y = [] \<or> y = b" "z = [] \<or> z = ?p"
      using that(2) by (auto simp: all less_3_cases)
    have "{j. j < 3 \<and> all ! j \<noteq> []} = (if x \<noteq> [] then {0} else {}) \<union> (if y \<noteq> [] then {1} else {}) \<union> (if z \<noteq> [] then {2} else {})"
      by (auto simp: all less_3_cases) (metis gr0I nth_Cons_0)
    with that(3) have "\<not> (x = [] \<and> y = []) \<and> \<not> (x = [] \<and> z = []) \<and> \<not> (y = [] \<and> z = [])"
      by (auto split: if_splits)
    with v show ?thesis
      using xor_bytes_cancel [of a b] ab
      by (auto simp: xor_reconstruct_def all ds less_2_cases_iff)
  qed
  show "\<exists>ps. xor_encode 2 1 ds = Some ps \<and> length ps = 1 \<and> (\<forall>p \<in> set ps. length p = L) \<and>
      (\<forall>all. length all = 2 + 1 \<and> (\<forall>j < 2 + 1. all ! j = [] \<or> all ! j = (ds @ ps) ! j) \<and>
         2 \<le> card {j. j < 2 + 1 \<and> all ! j \<noteq> []} \<longrightarrow>
         (\<exists>res. xor_reconstruct 2 1 all = Some res \<and> length res = 2 + 1 \<and> (\<forall>j < 2. res ! j = ds ! j)))"
    using rec p(1) by (intro exI [of _ "[?p]"]) (simp add: xor_encode_def ds)
qed

section \<open>Properties\<close>

text \<open>
  End-to-end repair: from any encoder state between groups with geometry \<open>k:m\<close>, send \<open>k\<close>
  packets of less than 64 KiB; let the receiver get any \<open>k\<close> of the \<open>k + m\<close> datagrams (stamped
  data and emitted parity), in any order and at any times, at least one of them parity, at a
  decoder that holds no group and does not sweep on the way (it does on every 128th datagram). Then
  the decoder hands exactly the data packets that did not arrive, sequence number and
  ciphertext, to \<^verbatim>\<open>recovered\<close>, each once, in index order, counts them and forgets the group. The
  erasure code is the documented behaviour of the Reed-Solomon package.
\<close>

theorem fec_repairs_losses:
  assumes "erasure_code enc rec k m" "0 < k" "0 < m" "k + m < 128"
    and "eshards e0 = []" "params e0 = \<lparr>K = k, M = m\<rparr>"
    and "length ps = k" "\<forall>((seq, ct), t) \<in> set ps. length ct < 2 ^ 16"
    and "add_run enc ps e0 = (e, tags, pars)"
    and "idle k dc" "distinct (map fst xs)" "set (map fst xs) \<subseteq> {..<k + m}" "length xs = k" "\<exists>x \<in> set xs. k \<le> fst x"
  shows "\<exists>d. receive_run ord rec ps tags pars xs dc =
      (d, map (\<lambda>i. fst (ps ! i)) (filter (\<lambda>i. i \<notin> fst ` set xs) [0..<k])) \<and>
    Recovered d = Recovered dc + of_nat (length (filter (\<lambda>i. i \<notin> fst ` set xs) [0..<k])) \<and> groups d = []"
  using group_recovered [OF assms, of ord] assms(7) by (simp add: lost_def)

theorem fec_repairs_losses_witness:
  "\<exists>e tags pars d. add_run xor_encode [((7, [1, 2, 3]), 0), ((8, [4]), 1)] (SetParams \<lparr>K = 2, M = 1\<rparr> NewEncoder) =
       (e, tags, pars) \<and>
     receive_run (\<lambda>gs. gs) xor_reconstruct [((7, [1, 2, 3]), 0), ((8, [4]), 1)] tags pars [(2, 5), (1, 6)] NewDecoder =
       (d, [(7, [1, 2, 3])])"
proof -
  let ?ps = "[((7, [1, 2, 3]), 0), ((8, [4]), 1)] :: (packet \<times> timestamp) list"
  obtain e tags pars where r: "add_run xor_encode ?ps (SetParams \<lparr>K = 2, M = 1\<rparr> NewEncoder) = (e, tags, pars)"
    by (metis prod_cases3)
  have "\<exists>d. receive_run (\<lambda>gs. gs) xor_reconstruct ?ps tags pars [(2, 5), (1, 6)] NewDecoder =
      (d, map (\<lambda>i. fst (?ps ! i)) (filter (\<lambda>i. i \<notin> fst ` set [(2, 5), (1, 6)]) [0..<2]))"
    using fec_repairs_losses [where k = 2 and m = 1 and xs = "[(2, 5), (1, 6)]" and ord = "\<lambda>gs. gs"
        and dc = NewDecoder, OF xor_erasure _ _ _ _ _ _ _ r]
    by (auto simp: SetParams_def NewEncoder_def NewDecoder_def idle_def simp del: receive_run.simps)
  then show ?thesis
    using r by (auto simp: upt_rec simp del: receive_run.simps)
qed

text \<open>
  A shard survives padding: parsing a shard built from a packet of less than 64 KiB, with
  any bytes appended, returns the packet's sequence number and ciphertext; a slice that is
  shorter than the header, or than the length it announces, is rejected.
\<close>

theorem shard_roundtrip:
  "(length ct < 2 ^ 16 \<longrightarrow> parseShard (buildShard seq ct @ pad) = Some (seq, ct)) \<and>
   (length s < 6 \<or> length s < 6 + unat (be16 (s ! 4) (s ! 5)) \<longrightarrow> parseShard s = None)"
  using parse_build [of ct seq pad] by (auto simp: parseShard_def Let_def)

theorem shard_roundtrip_witness:
  "parseShard (buildShard 9 [1, 2] @ [0, 0]) = Some (9, [1, 2]) \<and> parseShard [1] = None"
  using shard_roundtrip [of "[1, 2]" 9 "[0, 0]" "[1]"] by simp





text \<open>
  The controller's table: the geometry for a loss estimate is off or within the limits of
  \<^verbatim>\<open>ParseForce\<close>, and a higher loss never gets less redundancy (parity per data shard).
\<close>

theorem redundancy_monotone:
  assumes "x \<le> y"
  shows "PickParams x = off \<or>
     1 \<le> K (PickParams x) \<and> K (PickParams x) \<le> 64 \<and> 1 \<le> M (PickParams x) \<and> M (PickParams x) \<le> 16 \<and>
     PickParams y \<noteq> off \<and> M (PickParams x) * K (PickParams y) \<le> M (PickParams y) * K (PickParams x)"
  using assms rnd_mono [of "1 / 1000" "5 / 1000"] rnd_mono [of "5 / 1000" "2 / 100"] rnd_mono [of "2 / 100" "5 / 100"]
  by (auto simp: PickParams_def off_def)

theorem redundancy_monotone_witness:
  "PickParams (rnd (1 / 1000)) \<noteq> off \<and> PickParams (rnd (5 / 1000)) \<noteq> off"
proof -
  have "rnd (1 / 1000) \<le> rnd (5 / 1000)" by (simp add: rnd_mono)
  from redundancy_monotone [OF this] show ?thesis
    by (auto simp: PickParams_def off_def split: if_splits)
qed

end
