(* ===== verification/Config.thy ===== *)
theory Config
  imports GoText Fec
begin

text \<open>
  Package \<^verbatim>\<open>internal/config\<close> and \<^verbatim>\<open>fec.ParseForce\<close>: defaults and validation of the two
  configuration files. The YAML decoder (with unknown fields refused) is a parameter that maps
  the bytes of a file to the structure it fills, or to nothing; the file is what reading it gave.
  Every \<^verbatim>\<open>return\<close> with an error is one constructor of \<open>config_error\<close>.
\<close>

definition DefaultMTU :: int where "DefaultMTU = 1344"

record TunnelConfig =
  Interface :: string
  MTU :: int
  Address :: string
  PrivateKey :: string
  PeerPublicKey :: string
  Routes :: "string list"

record PathConfig =
  Name :: string
  Bind :: string
  ServerOverride :: string

record DashboardConfig =
  DashListen :: string
  Token :: string

record FECConfig =
  FECDisabled :: bool
  Force :: string

record ClassifyConfig =
  ClassifyDisabled :: bool
  Rules :: "Rule list"

record ClientConfig =
  cTunnel :: TunnelConfig
  ServerAddr :: string
  cControlPSK :: string
  cPaths :: "PathConfig list"
  cClassify :: ClassifyConfig
  cFEC :: FECConfig
  cDashboard :: DashboardConfig

record ServerConfig =
  sTunnel :: TunnelConfig
  Listen :: string
  sControlPSK :: string
  sClassify :: ClassifyConfig
  sFEC :: FECConfig
  sDashboard :: DashboardConfig

datatype config_error =
    ReadError
  | DecodeError
  | PrivateKeyRequired
  | PeerKeyRequired
  | BadAddress
  | BadRoute string
  | MTURange int
  | ServerAddrRequired
  | PSKRequired
  | NoPaths
  | TooManyPaths
  | BadClass nat string
  | PortRequired nat
  | BadProto nat string
  | ForceSyntax string
  | ForceRange string
  | DuplicatePath string
  | BadBind nat

section \<open>Operations\<close>

definition ParseForce :: "string \<Rightarrow> config_error + Params" where
  "ParseForce s =
     (case do {
        (k, r) \<leftarrow> scan_int s;
        (case r of c # r \<Rightarrow> if c = CHR '':'' then map_option (\<lambda>(m, _). (k, m)) (scan_int r) else None | [] \<Rightarrow> None)
      } of
        None \<Rightarrow> Inl (ForceSyntax s)
      | Some (k, m) \<Rightarrow>
          if k < 1 \<or> k > 64 \<or> m < 1 \<or> m > 16 then Inl (ForceRange s) else Inr \<lparr>K = nat k, M = nat m\<rparr>)"

text \<open>\<^verbatim>\<open>Params.String\<close>.\<close>

definition params_string :: "Params \<Rightarrow> string" where
  "params_string p = (if K p = 0 then ''off'' else decimal (K p) @ '':'' @ decimal (M p))"

definition fec_params :: "FECConfig \<Rightarrow> config_error + Params" where
  "fec_params f = (if Force f = '''' then Inr off else ParseForce (Force f))"

text \<open>\<^verbatim>\<open>Classify.validate\<close>, from the \<open>i\<close>-th rule on; \<open>None\<close> is the \<^verbatim>\<open>nil\<close> error.\<close>

fun validate_rules :: "nat \<Rightarrow> Rule list \<Rightarrow> config_error option" where
  "validate_rules i [] = None"
| "validate_rules i (r # rs) =
     (if ParseClass (rClass r) = None then Some (BadClass i (rClass r))
      else if rPort r = 0 then Some (PortRequired i)
      else if rProto r \<notin> {''tcp'', ''udp'', ''any'', ''''} then Some (BadProto i (rProto r))
      else validate_rules (i + 1) rs)"

definition validate_classify :: "ClassifyConfig \<Rightarrow> config_error option" where
  "validate_classify c = validate_rules 0 (Rules c)"

definition applyDefaults :: "string \<Rightarrow> TunnelConfig \<Rightarrow> TunnelConfig" where
  "applyDefaults iface t =
     (let t = (if Interface t = '''' then t\<lparr>Interface := iface\<rparr> else t)
      in if MTU t = 0 then t\<lparr>MTU := DefaultMTU\<rparr> else t)"

definition validate_tunnel :: "TunnelConfig \<Rightarrow> config_error option" where
  "validate_tunnel t =
     (if PrivateKey t = '''' then Some PrivateKeyRequired
      else if PeerPublicKey t = '''' then Some PeerKeyRequired
      else if ParsePrefix (Address t) = None then Some BadAddress
      else case List.find (\<lambda>r. ParsePrefix r = None) (Routes t) of
        Some r \<Rightarrow> Some (BadRoute r)
      | None \<Rightarrow> if MTU t < 576 \<or> MTU t > 1420 then Some (MTURange (MTU t)) else None)"

text \<open>The loop over the paths: default names, duplicates, source addresses.\<close>

fun check_paths :: "nat \<Rightarrow> string set \<Rightarrow> PathConfig list \<Rightarrow> config_error + PathConfig list" where
  "check_paths i seen [] = Inr []"
| "check_paths i seen (p # ps) =
     (let p = (if Name p = '''' then p\<lparr>Name := ''path'' @ decimal i\<rparr> else p) in
      if Name p \<in> seen then Inl (DuplicatePath (Name p))
      else if Bind p \<noteq> '''' \<and> ParseAddr (Bind p) = None then Inl (BadBind i)
      else map_sum id ((#) p) (check_paths (i + 1) (insert (Name p) seen) ps))"

text \<open>\<^verbatim>\<open>if err := ...; err != nil { return nil, err }\<close>, then the rest.\<close>

definition on_ok :: "'e option \<Rightarrow> 'e + 'a \<Rightarrow> 'e + 'a" where
  "on_ok err k = (case err of Some e \<Rightarrow> Inl e | None \<Rightarrow> k)"

definition err_of :: "'e + 'a \<Rightarrow> 'e option" where
  "err_of r = (case r of Inl e \<Rightarrow> Some e | Inr _ \<Rightarrow> None)"

definition load :: "(bytes \<Rightarrow> 'c option) \<Rightarrow> bytes option \<Rightarrow> config_error + 'c" where
  "load yaml file =
     (case file of None \<Rightarrow> Inl ReadError
      | Some data \<Rightarrow> (case yaml data of None \<Rightarrow> Inl DecodeError | Some c \<Rightarrow> Inr c))"

definition check_client :: "ClientConfig \<Rightarrow> config_error + ClientConfig" where
  "check_client c =
     (let c = c\<lparr>cTunnel := applyDefaults ''treccia0'' (cTunnel c)\<rparr> in
      on_ok (validate_tunnel (cTunnel c))
       (if ServerAddr c = '''' then Inl ServerAddrRequired
        else if cControlPSK c = '''' then Inl PSKRequired
        else if length (cPaths c) = 0 then Inl NoPaths
        else if length (cPaths c) > 250 then Inl TooManyPaths
        else on_ok (validate_classify (cClassify c))
         (on_ok (err_of (fec_params (cFEC c)))
           (map_sum id (\<lambda>ps. c\<lparr>cPaths := ps\<rparr>) (check_paths 0 {} (cPaths c))))))"

definition LoadClient :: "(bytes \<Rightarrow> ClientConfig option) \<Rightarrow> bytes option \<Rightarrow> config_error + ClientConfig" where
  "LoadClient yaml file = (case load yaml file of Inl e \<Rightarrow> Inl e | Inr c \<Rightarrow> check_client c)"

definition check_server :: "ServerConfig \<Rightarrow> config_error + ServerConfig" where
  "check_server s =
     (let s = s\<lparr>sTunnel := applyDefaults ''treccia0'' (sTunnel s)\<rparr> in
      on_ok (validate_tunnel (sTunnel s))
       (let s = (if Listen s = '''' then s\<lparr>Listen := '':51820''\<rparr> else s) in
        if sControlPSK s = '''' then Inl PSKRequired
        else on_ok (validate_classify (sClassify s)) (on_ok (err_of (fec_params (sFEC s))) (Inr s))))"

definition LoadServer :: "(bytes \<Rightarrow> ServerConfig option) \<Rightarrow> bytes option \<Rightarrow> config_error + ServerConfig" where
  "LoadServer yaml file = (case load yaml file of Inl e \<Rightarrow> Inl e | Inr s \<Rightarrow> check_server s)"

section \<open>What an accepted configuration is\<close>

text \<open>Each part said once, without the order in which the code tests it.\<close>

definition tunnel_ok :: "TunnelConfig \<Rightarrow> bool" where
  "tunnel_ok t \<longleftrightarrow> PrivateKey t \<noteq> '''' \<and> PeerPublicKey t \<noteq> '''' \<and> ParsePrefix (Address t) \<noteq> None \<and>
     list_all (\<lambda>r. ParsePrefix r \<noteq> None) (Routes t) \<and> (MTU t = 0 \<or> 576 \<le> MTU t \<and> MTU t \<le> 1420)"

definition rule_ok :: "Rule \<Rightarrow> bool" where
  "rule_ok r \<longleftrightarrow> ParseClass (rClass r) \<noteq> None \<and> rPort r \<noteq> 0 \<and> rProto r \<in> {''tcp'', ''udp'', ''any'', ''''}"

definition force_ok :: "string \<Rightarrow> bool" where
  "force_ok s \<longleftrightarrow> s = '''' \<or> (\<exists>p. ParseForce s = Inr p)"

definition named :: "nat \<Rightarrow> PathConfig \<Rightarrow> PathConfig" where
  "named i p = (if Name p = '''' then p\<lparr>Name := ''path'' @ decimal i\<rparr> else p)"

definition named_paths :: "PathConfig list \<Rightarrow> PathConfig list" where
  "named_paths ps = map2 named [0..<length ps] ps"

definition client_ok :: "ClientConfig \<Rightarrow> bool" where
  "client_ok c \<longleftrightarrow> tunnel_ok (cTunnel c) \<and> ServerAddr c \<noteq> '''' \<and> cControlPSK c \<noteq> '''' \<and>
     1 \<le> length (cPaths c) \<and> length (cPaths c) \<le> 250 \<and> list_all rule_ok (Rules (cClassify c)) \<and> force_ok (Force (cFEC c)) \<and>
     distinct (map Name (named_paths (cPaths c))) \<and> list_all (\<lambda>p. Bind p = '''' \<or> ParseAddr (Bind p) \<noteq> None) (cPaths c)"

definition server_ok :: "ServerConfig \<Rightarrow> bool" where
  "server_ok s \<longleftrightarrow> tunnel_ok (sTunnel s) \<and> sControlPSK s \<noteq> '''' \<and> list_all rule_ok (Rules (sClassify s)) \<and> force_ok (Force (sFEC s))"

section \<open>Validation decides it\<close>

lemma validate_rules_None: "validate_rules i rs = None \<longleftrightarrow> list_all rule_ok rs"
  by (induction i rs rule: validate_rules.induct) (auto simp: rule_ok_def)

lemma find_None_all: "List.find P xs = None \<longleftrightarrow> list_all (\<lambda>x. \<not> P x) xs"
  by (auto simp: find_None_iff list_all_iff)

lemma on_ok_Inr [simp]: "on_ok err k = Inr x \<longleftrightarrow> err = None \<and> k = Inr x"
  by (simp add: on_ok_def split: option.splits)

lemma err_of_None: "err_of r = None \<longleftrightarrow> (\<exists>x. r = Inr x)"
  by (simp add: err_of_def split: sum.splits)

lemma validate_tunnel_None: "validate_tunnel (applyDefaults f t) = None \<longleftrightarrow> tunnel_ok t"
  unfolding validate_tunnel_def tunnel_ok_def find_None_all [symmetric, where P = "\<lambda>r. ParsePrefix r = None"]
  by (cases "List.find (\<lambda>r. ParsePrefix r = None) (Routes t)") (auto simp: applyDefaults_def DefaultMTU_def Let_def)

lemma fec_params_ok: "err_of (fec_params f) = None \<longleftrightarrow> force_ok (Force f)"
  by (simp add: fec_params_def force_ok_def err_of_None)

lemma check_paths_Inr:
  "check_paths i seen ps = Inr ps' \<longleftrightarrow>
     ps' = map2 named [i..<i + length ps] ps \<and> distinct (map Name ps') \<and> set (map Name ps') \<inter> seen = {} \<and>
     list_all (\<lambda>p. Bind p = '''' \<or> ParseAddr (Bind p) \<noteq> None) ps"
proof (induction ps arbitrary: i seen ps')
  case (Cons p ps)
  let ?p = "named i p"
  have u: "[i..<i + length (p # ps)] = i # [i + 1..<(i + 1) + length ps]"
    by (simp add: upt_conv_Cons del: upt_Suc)
  have "check_paths i seen (p # ps) = Inr ps' \<longleftrightarrow> Name ?p \<notin> seen \<and> (Bind p = '''' \<or> ParseAddr (Bind p) \<noteq> None) \<and>
      (\<exists>qs. check_paths (i + 1) (insert (Name ?p) seen) ps = Inr qs \<and> ps' = ?p # qs)"
    by (cases "check_paths (i + 1) (insert (Name ?p) seen) ps") (auto simp: named_def Let_def)
  moreover have "map2 named [i..<i + length (p # ps)] (p # ps) = ?p # map2 named [i + 1..<(i + 1) + length ps] ps"
    unfolding u by simp
  moreover obtain R where R: "R = map2 named [i + 1..<(i + 1) + length ps] ps" by simp
  ultimately show ?case
    unfolding Cons.IH R [symmetric] by (cases "ps' = ?p # R") auto
qed auto

lemma map_sum_Inr: "map_sum id f r = Inr y \<longleftrightarrow> (\<exists>x. r = Inr x \<and> y = f x)"
  by (cases r) auto

lemmas validation = validate_rules_None validate_tunnel_None fec_params_ok validate_classify_def map_sum_Inr check_paths_Inr

text \<open>
  What a loader promises its callers: it accepts exactly the structures that are in order, fills in
  the defaults, and what it returns needs no further correction.
\<close>

locale validator =
  fixes check :: "'c \<Rightarrow> 'e + 'c"
    and in_order :: "'c \<Rightarrow> bool"
    and fill :: "'c \<Rightarrow> 'c"
  assumes decides: "check c = Inr c' \<longleftrightarrow> in_order c \<and> c' = fill c"
    and fill_in_order: "in_order c \<Longrightarrow> in_order (fill c)"
    and fill_idem: "in_order c \<Longrightarrow> fill (fill c) = fill c"
begin

lemma accepted_in_order: "check c = Inr c' \<Longrightarrow> in_order c'"
  by (simp add: decides fill_in_order)

lemma accepted_stable: "check c = Inr c' \<Longrightarrow> check c' = Inr c'"
  by (simp add: decides fill_in_order fill_idem)

lemma rejected_iff: "(\<exists>e. check c = Inl e) \<longleftrightarrow> \<not> in_order c"
  using decides [of c] by (cases "check c") auto

end

definition client_fill :: "ClientConfig \<Rightarrow> ClientConfig" where
  "client_fill c = c\<lparr>cTunnel := applyDefaults ''treccia0'' (cTunnel c), cPaths := named_paths (cPaths c)\<rparr>"

definition server_fill :: "ServerConfig \<Rightarrow> ServerConfig" where
  "server_fill s = s\<lparr>sTunnel := applyDefaults ''treccia0'' (sTunnel s), Listen := (if Listen s = '''' then '':51820'' else Listen s)\<rparr>"

lemma check_client_Inr: "check_client c = Inr c' \<longleftrightarrow> client_ok c \<and> c' = client_fill c"
  by (auto simp: check_client_def client_ok_def client_fill_def named_paths_def validation Let_def Suc_le_eq)

lemma check_server_Inr: "check_server s = Inr s' \<longleftrightarrow> server_ok s \<and> s' = server_fill s"
  by (auto simp: check_server_def server_ok_def server_fill_def validation Let_def)

lemma named_idem: "named i (named i p) = named i p"
  by (simp add: named_def)

lemma named_paths_idem: "named_paths (named_paths ps) = named_paths ps"
  by (rule nth_equalityI) (simp_all add: named_paths_def named_idem)

lemma length_named_paths [simp]: "length (named_paths ps) = length ps"
  by (simp add: named_paths_def)

lemma binds_named: "list_all (\<lambda>p. Q (Bind p)) (named_paths ps) \<longleftrightarrow> list_all (\<lambda>p. Q (Bind p)) ps"
  by (auto simp: list_all_length named_paths_def named_def)

lemma tunnel_defaults: "tunnel_ok t \<Longrightarrow> tunnel_ok (applyDefaults ''treccia0'' t)" "applyDefaults ''treccia0'' (applyDefaults ''treccia0'' t) = applyDefaults ''treccia0'' t"
  by (auto simp: tunnel_ok_def applyDefaults_def DefaultMTU_def Let_def)

interpretation client_file: validator check_client client_ok client_fill
  by unfold_locales
    (simp_all add: check_client_Inr client_ok_def client_fill_def tunnel_defaults named_paths_idem binds_named
      [where Q = "\<lambda>b. b = '''' \<or> ParseAddr b \<noteq> None", simplified])

interpretation server_file: validator check_server server_ok server_fill
  by unfold_locales (simp_all add: check_server_Inr server_ok_def server_fill_def tunnel_defaults)

section \<open>Properties\<close>

text \<open>
  C25. Validation of the client's file. A file is accepted exactly when it can be read and
  decoded and the decoded structure meets \<open>client_ok\<close>: keys, server address and control key are
  there, address and routes are prefixes, the MTU is absent or within 576 and 1420, there are
  1 to 250 paths whose names, with \<^verbatim>\<open>path<i>\<close> for a missing one, are different and whose source
  addresses parse, every rule is valid and the forced geometry is absent or valid. What is
  returned is the structure with the defaults filled in, which would be accepted as it is.
\<close>

theorem LoadClient_decides:
  "LoadClient yaml file = Inr c' \<longleftrightarrow>
     (\<exists>data c. file = Some data \<and> yaml data = Some c \<and> client_ok c \<and> check_client c' = Inr c' \<and>
        c' = c\<lparr>cTunnel := applyDefaults ''treccia0'' (cTunnel c), cPaths := named_paths (cPaths c)\<rparr>)"
proof -
  have "LoadClient yaml file = Inr c' \<longleftrightarrow>
      (\<exists>data c. file = Some data \<and> yaml data = Some c \<and> check_client c = Inr c')"
    by (auto simp: LoadClient_def load_def split: option.splits)
  then show ?thesis
    using client_file.accepted_stable by (fastforce simp: client_file.decides client_fill_def)
qed

text \<open>
  C31. Forced geometry. The text of every geometry within the limits is read back by
  \<^verbatim>\<open>ParseForce\<close>, whatever follows the second number (unless it is a further digit):
  \<^verbatim>\<open>Sscanf\<close> stops there and the rest is not looked at.
\<close>

theorem ParseForce_reads:
  assumes "1 \<le> K p" "K p \<le> 64" "1 \<le> M p" "M p \<le> 16" "\<not> starts_digit junk"
  shows "ParseForce (params_string p @ junk) = Inr p"
proof -
  have "scan_int (decimal (K p) @ '':'' @ decimal (M p) @ junk) = Some (int (K p), '':'' @ decimal (M p) @ junk)"
    using assms(2) by (intro scan_int_decimal) (simp_all add: starts_digit_def digit_val_def)
  moreover have "scan_int (decimal (M p) @ junk) = Some (int (M p), junk)"
    using assms(4,5) by (intro scan_int_decimal) simp_all
  ultimately show ?thesis
    using assms(1-4) by (simp add: ParseForce_def params_string_def)
qed

theorem ParseForce_reads_witness: "ParseForce (params_string \<lparr>K = 10, M = 3\<rparr> @ '' of 13'') = Inr \<lparr>K = 10, M = 3\<rparr>"
  by (rule ParseForce_reads) (simp_all add: starts_digit_def digit_val_def)

lemma map_filter_list_all: "list_all (\<lambda>x. f x = Some (g x)) xs \<Longrightarrow> List.map_filter f xs = map g xs"
  by (induction xs) simp_all

lemma rule_entry_ok: "rule_ok r \<Longrightarrow> rule_entry r = Some ((protoKey (rProto r), rPort r), the (ParseClass (rClass r)))"
  by (auto simp: rule_ok_def rule_entry_def)

text \<open>
  Rules of an accepted file. None is skipped by the classifier: its table maps the protocol
  and port of a rule to the class of the last rule that names them, and a port and protocol that
  no rule names to nothing.
\<close>

theorem accepted_rules_apply:
  assumes "LoadClient yaml file = Inr c"
  shows "Mapping.lookup (rules (Classify.New (Rules (cClassify c)))) key =
    map_of (rev (map (\<lambda>r. ((protoKey (rProto r), rPort r), the (ParseClass (rClass r)))) (Rules (cClassify c)))) key"
proof -
  have "list_all rule_ok (Rules (cClassify c))"
    using assms by (auto simp: LoadClient_def load_def check_client_Inr client_ok_def client_fill_def split: option.splits)
  then have "list_all (\<lambda>r. rule_entry r = Some ((protoKey (rProto r), rPort r), the (ParseClass (rClass r)))) (Rules (cClassify c))"
    by (simp add: list_all_iff rule_entry_ok)
  then show ?thesis
    by (simp add: Classify.New_def rule_table_lookup last_rule_def map_filter_list_all split: option.split)
qed

definition sample_client :: ClientConfig where
  "sample_client = \<lparr>cTunnel = \<lparr>Interface = '''', MTU = 0, Address = ''10.200.0.2/24'', PrivateKey = ''k'', PeerPublicKey = ''p'', Routes = []\<rparr>,
     ServerAddr = ''203.0.113.1:51820'', cControlPSK = ''psk'',
     cPaths = [\<lparr>Name = '''', Bind = ''192.168.1.2'', ServerOverride = ''''\<rparr>, \<lparr>Name = ''lte'', Bind = '''', ServerOverride = ''''\<rparr>],
     cClassify = \<lparr>ClassifyDisabled = False, Rules = [\<lparr>rProto = ''udp'', rPort = 5060, rClass = ''realtime''\<rparr>]\<rparr>,
     cFEC = \<lparr>FECDisabled = False, Force = ''10:2''\<rparr>, cDashboard = \<lparr>DashListen = '''', Token = ''''\<rparr>\<rparr>"

lemma sample_texts:
  "ParsePrefix ''10.200.0.2/24'' = Some (Addr4 [10, 200, 0, 2], 24)" "ParseAddr ''192.168.1.2'' = Some (Addr4 [192, 168, 1, 2], [])"
  "ParseForce ''10:2'' = Inr \<lparr>K = 10, M = 2\<rparr>"
  by (simp_all add: ParsePrefix_def ParseAddr_def digit_val_def Atoi_def starts_digit_def ParseForce_def scan_int_def
      skip_plain plain_char_def)

lemma sample_decimals: "decimal 0 = ''0''" "decimal 1 = ''1''"
  by code_simp+

lemma sample_client_ok: "client_ok sample_client"
  by (simp add: client_ok_def sample_client_def tunnel_ok_def sample_texts sample_decimals force_ok_def rule_ok_def ParseClass_def
      named_paths_def named_def upt_rec)

theorem accepted_rules_apply_witness:
  "\<exists>c. LoadClient (\<lambda>_. Some sample_client) (Some []) = Inr c \<and>
     Mapping.lookup (rules (Classify.New (Rules (cClassify c)))) (17, 5060) = Some 1"
proof -
  obtain c where c: "LoadClient (\<lambda>_. Some sample_client) (Some []) = Inr c" "cClassify c = cClassify sample_client"
    by (simp add: LoadClient_def load_def check_client_Inr sample_client_ok client_fill_def)
  from accepted_rules_apply [OF c(1), of "(17, 5060)"] c show ?thesis
    by (auto simp: sample_client_def ParseClass_def protoKey_def)
qed

end
