(* ===== verification/Keys.thy ===== *)
theory Keys
  imports Config
begin

text \<open>
  Files \<^verbatim>\<open>keys.go\<close> and \<^verbatim>\<open>wg.go\<close> of \<^verbatim>\<open>internal/wgbridge\<close> and the key subcommands of \<^verbatim>\<open>internal/cli\<close>:
  WireGuard keys and their texts, and the configuration text handed to WireGuard. A key is a
  list of 32 bytes. Random bytes are what \<^verbatim>\<open>rand.Read\<close> gave, or \<open>None\<close> for its error; the scalar
  multiplication of Curve25519, the TUN device and WireGuard's own configuration call are
  parameters.
\<close>

type_synonym Key = bytes

datatype key_error = BadEncoding | BadLength nat

section \<open>Keys\<close>

definition clamp :: "bytes \<Rightarrow> Key" where
  "clamp r = r[0 := r ! 0 AND 248, 31 := (r ! 31 AND 127) OR 64]"

definition GeneratePrivateKey :: "bytes option \<Rightarrow> Key option" where
  "GeneratePrivateKey rand = map_option clamp rand"

text \<open>\<open>x25519\<close> multiplies the base point; \<^verbatim>\<open>copy\<close> fills an array of 32 zeros.\<close>

definition PublicKey :: "(Key \<Rightarrow> bytes option) \<Rightarrow> Key \<Rightarrow> Key option" where
  "PublicKey x25519 k = map_option (\<lambda>pub. take 32 pub @ replicate (32 - length pub) 0) (x25519 k)"

definition ParseKey :: "string \<Rightarrow> key_error + Key" where
  "ParseKey s =
     (case DecodeString s of
        None \<Rightarrow> Inl BadEncoding
      | Some dat \<Rightarrow> if length dat \<noteq> 32 then Inl (BadLength (length dat)) else Inr dat)"

definition KeyString :: "Key \<Rightarrow> string" where "KeyString k = EncodeToString k"

definition Hex :: "Key \<Rightarrow> string" where "Hex k = hex_of k"

section \<open>The subcommands\<close>

datatype cli_result = NotHandled | Printed string | Exit1

text \<open>The first line that a \<^verbatim>\<open>bufio.Scanner\<close> gives: at most 65535 bytes, without its end.\<close>

definition scan_line :: "string \<Rightarrow> string option" where
  "scan_line inp =
     (let l = takeWhile (\<lambda>c. c \<noteq> CHR 0x0A) inp
      in if inp = [] \<or> length l > 65535 then None
         else Some (if l \<noteq> [] \<and> last l = CHR 0x0D then butlast l else l))"

definition Println :: "string \<Rightarrow> cli_result" where
  "Println s = Printed (s @ [CHR 0x0A])"

definition KeySubcommand :: "(Key \<Rightarrow> bytes option) \<Rightarrow> bytes option \<Rightarrow> string \<Rightarrow> string list \<Rightarrow> cli_result" where
  "KeySubcommand x25519 rand inp args =
     (if length args < 1 then NotHandled
      else if args ! 0 = ''genkey'' then
        (case GeneratePrivateKey rand of None \<Rightarrow> Exit1 | Some k \<Rightarrow> Println (KeyString k))
      else if args ! 0 = ''pubkey'' then
        (case scan_line inp of None \<Rightarrow> Exit1
         | Some l \<Rightarrow> (case ParseKey (TrimSpace l) of Inl _ \<Rightarrow> Exit1
           | Inr k \<Rightarrow> (case PublicKey x25519 k of None \<Rightarrow> Exit1 | Some pub \<Rightarrow> Println (KeyString pub))))
      else NotHandled)"

section \<open>The configuration of WireGuard\<close>

datatype wg_error = PrivKey key_error | PeerKey key_error | NoTUN | BadIpc

definition uapi_text :: "Key \<Rightarrow> Key \<Rightarrow> bool \<Rightarrow> string" where
  "uapi_text priv peer isClient =
     ''private_key='' @ Hex priv @ [CHR 0x0A] @
     ''public_key='' @ Hex peer @ [CHR 0x0A] @
     ''allowed_ip=0.0.0.0/0'' @ [CHR 0x0A] @
     ''allowed_ip=::/0'' @ [CHR 0x0A] @
     (if isClient then ''endpoint=treccia'' @ [CHR 0x0A] else [])"

text \<open>\<open>tun\<close> and \<open>ipc\<close> tell whether the TUN device is made and WireGuard takes the text; the result is the text.\<close>

definition NewWG :: "(string \<Rightarrow> int \<Rightarrow> bool) \<Rightarrow> (string \<Rightarrow> bool) \<Rightarrow> TunnelConfig \<Rightarrow> bool \<Rightarrow> wg_error + string" where
  "NewWG tun ipc cfg isClient =
     (case ParseKey (PrivateKey cfg) of Inl e \<Rightarrow> Inl (PrivKey e)
      | Inr priv \<Rightarrow> (case ParseKey (PeerPublicKey cfg) of Inl e \<Rightarrow> Inl (PeerKey e)
        | Inr peer \<Rightarrow>
            if \<not> tun (Interface cfg) (MTU cfg) then Inl NoTUN
            else if \<not> ipc (uapi_text priv peer isClient) then Inl BadIpc
            else Inr (uapi_text priv peer isClient)))"

section \<open>Properties\<close>

lemma ParseKey_KeyString: "length k = 32 \<Longrightarrow> ParseKey (KeyString k) = Inr k"
  by (simp add: ParseKey_def KeyString_def DecodeString_EncodeToString)

lemma length_EncodeToString: "length (EncodeToString bs) = 4 * ((length bs + 2) div 3)"
proof (induction bs rule: EncodeToString.induct)
  case (4 a b c s)
  have "(length (a # b # c # s) + 2) div 3 = Suc ((length s + 2) div 3)"
    using div_add_self1 [of 3 "length s + 2"] by simp
  with 4 show ?case by simp
qed simp_all

lemma plain_not_eol: "plain_char c \<Longrightarrow> c \<noteq> CHR 0x0A \<and> c \<noteq> CHR 0x0D"
  by (auto simp: plain_char_def)

lemma scan_line_plain:
  assumes "list_all plain_char s" "s \<noteq> []" "length s \<le> 65535"
  shows "scan_line (s @ [CHR 0x0A]) = Some s"
proof -
  have "takeWhile (\<lambda>c. c \<noteq> CHR 0x0A) (s @ [CHR 0x0A]) = s"
    using assms(1) plain_not_eol by (subst takeWhile_append2) (auto simp: list_all_iff)
  moreover have "last s \<noteq> CHR 0x0D"
    using assms(1,2) plain_not_eol by (auto simp: list_all_iff)
  ultimately show ?thesis
    using assms(3) by (simp add: scan_line_def Let_def)
qed

lemma clamped_bits:
  assumes "length r = 32"
  shows "length (clamp r) = 32" "clamp r ! 0 AND 7 = 0" "bit (clamp r ! 31) 6" "\<not> bit (clamp r ! 31) 7"
proof -
  have "(r ! 0 AND 248) AND 7 = 0" by (simp add: and.assoc)
  with assms show "length (clamp r) = 32" "clamp r ! 0 AND 7 = 0" "bit (clamp r ! 31) 6" "\<not> bit (clamp r ! 31) 7"
    by (simp_all add: clamp_def bit_or_iff bit_and_iff)
qed

text \<open>
  C29. Keys. What \<^verbatim>\<open>genkey\<close> prints is the text of a clamped key (a multiple of eight with bit 254
  as its top bit), and \<^verbatim>\<open>pubkey\<close>, given that output on its input, reads the same key back and
  prints the text of its public key.
\<close>

theorem genkey_pubkey:
  assumes "length r = 32" "x25519 (clamp r) = Some pub" "length pub = 32"
  shows "\<exists>k. KeySubcommand x25519 (Some r) inp (''genkey'' # as) = Printed (KeyString k @ [CHR 0x0A]) \<and>
    length k = 32 \<and> k ! 0 AND 7 = 0 \<and> bit (k ! 31) 6 \<and> \<not> bit (k ! 31) 7 \<and> x25519 k = Some pub \<and>
    KeySubcommand x25519 rand (KeyString k @ [CHR 0x0A]) (''pubkey'' # as) = Printed (KeyString pub @ [CHR 0x0A])"
proof -
  note k = clamped_bits [OF assms(1)]
  have s: "list_all plain_char (KeyString (clamp r))" "KeyString (clamp r) \<noteq> []" "length (KeyString (clamp r)) \<le> 65535"
    using k(1) encode_plain [of "clamp r"] by (auto simp: KeyString_def length_EncodeToString)
  have "KeySubcommand x25519 rand (KeyString (clamp r) @ [CHR 0x0A]) (''pubkey'' # as) = Printed (KeyString pub @ [CHR 0x0A])"
    using k(1) assms(2,3) by (simp add: KeySubcommand_def scan_line_plain s TrimSpace_plain ParseKey_KeyString PublicKey_def Println_def)
  then show ?thesis
    using k assms(2) by (intro exI [of _ "clamp r"]) (simp add: KeySubcommand_def GeneratePrivateKey_def Println_def)
qed

theorem genkey_pubkey_witness:
  "\<exists>k. KeySubcommand Some (Some (replicate 32 255)) [] [''genkey''] = Printed (KeyString k @ [CHR 0x0A]) \<and> k ! 0 AND 7 = 0 \<and>
    KeySubcommand Some None (KeyString k @ [CHR 0x0A]) [''pubkey''] = Printed (KeyString (clamp (replicate 32 255)) @ [CHR 0x0A])"
  using genkey_pubkey [of "replicate 32 255" Some "clamp (replicate 32 255)" "[]" "[]" None]
  by (auto simp: clamped_bits)

text \<open>The lines of a text.\<close>

fun lines_of :: "string \<Rightarrow> string list" where
  "lines_of [] = []"
| "lines_of (c # s) =
     (if c = CHR 0x0A then [] # lines_of s
      else case lines_of s of [] \<Rightarrow> [[c]] | l # ls \<Rightarrow> (c # l) # ls)"

lemma lines_of_line: "CHR 0x0A \<notin> set l \<Longrightarrow> lines_of (l @ CHR 0x0A # s) = l # lines_of s"
  by (induction l) auto

lemma lines_of_concat: "list_all (\<lambda>l. CHR 0x0A \<notin> set l) ls \<Longrightarrow> lines_of (concat (map (\<lambda>l. l @ [CHR 0x0A]) ls)) = ls"
  by (induction ls) (simp_all add: lines_of_line)

lemma hex_char_not_eol: "n < 16 \<Longrightarrow> hex_char n \<noteq> CHR 0x0A"
proof -
  assume "n < 16"
  then have "hex_char n \<in> set ''0123456789abcdef''"
    unfolding hex_char_def by (intro nth_mem) simp
  then show ?thesis by auto
qed

lemma hex_no_eol: "CHR 0x0A \<notin> set (Hex k)"
proof -
  have "hex_char (unat b div 16) \<noteq> CHR 0x0A" "hex_char (unat b mod 16) \<noteq> CHR 0x0A" for b :: byte
    by (intro hex_char_not_eol byte_parts, intro hex_char_not_eol) simp
  then show ?thesis by (auto simp: Hex_def hex_of_def dest: sym)
qed

text \<open>
  The text handed to WireGuard. Whatever the two key fields of the configuration contain,
  the text has exactly the lines meant: no character of the configuration can end a line or add
  a setting, since keys go through decoding and hexadecimal.
\<close>

theorem wg_config_lines:
  assumes "NewWG tun ipc cfg isClient = Inr txt"
  shows "\<exists>priv peer. ParseKey (PrivateKey cfg) = Inr priv \<and> ParseKey (PeerPublicKey cfg) = Inr peer \<and>
    lines_of txt = [''private_key='' @ Hex priv, ''public_key='' @ Hex peer, ''allowed_ip=0.0.0.0/0'', ''allowed_ip=::/0''] @
      (if isClient then [''endpoint=treccia''] else [])"
proof -
  obtain priv peer where p: "ParseKey (PrivateKey cfg) = Inr priv" "ParseKey (PeerPublicKey cfg) = Inr peer"
      "txt = uapi_text priv peer isClient"
    using assms by (auto simp: NewWG_def split: sum.splits if_splits)
  let ?ls = "[''private_key='' @ Hex priv, ''public_key='' @ Hex peer, ''allowed_ip=0.0.0.0/0'', ''allowed_ip=::/0''] @
    (if isClient then [''endpoint=treccia''] else [])"
  have "txt = concat (map (\<lambda>l. l @ [CHR 0x0A]) ?ls)"
    by (simp add: p(3) uapi_text_def)
  moreover have "list_all (\<lambda>l. CHR 0x0A \<notin> set l) ?ls"
    using hex_no_eol by simp
  ultimately show ?thesis
    using p(1,2) lines_of_concat [of ?ls] by metis
qed

lemma sample_keys: "ParseKey (KeyString (replicate 32 x)) = Inr (replicate 32 x)"
  by (simp add: ParseKey_KeyString)

theorem wg_config_lines_witness:
  "\<exists>txt. NewWG (\<lambda>_ _. True) (\<lambda>_. True) \<lparr>Interface = ''t'', MTU = 1344, Address = '''', PrivateKey = KeyString (replicate 32 1),
      PeerPublicKey = KeyString (replicate 32 2), Routes = []\<rparr> True = Inr txt \<and> length (lines_of txt) = 5"
proof -
  let ?cfg = "\<lparr>Interface = ''t'', MTU = 1344, Address = '''', PrivateKey = KeyString (replicate 32 1),
      PeerPublicKey = KeyString (replicate 32 2), Routes = []\<rparr>"
  have "NewWG (\<lambda>_ _. True) (\<lambda>_. True) ?cfg True = Inr (uapi_text (replicate 32 1) (replicate 32 2) True)"
    by (simp add: NewWG_def sample_keys)
  from wg_config_lines [OF this] this show ?thesis by auto
qed

end
