(* ===== verification/Control.thy ===== *)
theory Control
  imports Wire
begin

text \<open>
  Package \<^verbatim>\<open>internal/control\<close>: the HELLO, HELLO_ACK, BYE, PROBE, PROBE_ACK and CTRL messages
  and the freshness test of their timestamps. As in \<open>Wire\<close>, the outer option of a parser is
  a run-time panic; the inner one is the boolean \<^verbatim>\<open>ok\<close> of the Go signature.

  Signed 64-bit timestamps are kept as 64-bit words and read with \<open>sint\<close>.
\<close>

type_synonym blake = "bytes \<Rightarrow> bytes \<Rightarrow> bytes"

section \<open>Freshness\<close>

definition ReplayWindow :: duration where
  "ReplayWindow = 30 * Second"

definition FreshTS :: "u64 \<Rightarrow> u64 \<Rightarrow> bool" where
  "FreshTS unixTS now_unix =
     (let d = now_unix - unixTS; d = (if sint d < 0 then - d else d)
      in sint d \<le> quot ReplayWindow Second)"

section \<open>HELLO and HELLO\_ACK\<close>

record Hello =
  HSession :: u32
  ClientID :: u64
  Features :: u32
  UnixTS :: u64

definition helloBodySize :: nat where [simp]: "helloBodySize = 4 + 8 + 4 + 8"

definition EncodeHello :: "blake \<Rightarrow> Header \<Rightarrow> Hello \<Rightarrow> MAC \<Rightarrow> bool \<Rightarrow> bytes option" where
  "EncodeHello blake h m mac ack = (
     let h = h\<lparr>Type := (if ack then TypeHelloAck else TypeHello)\<rparr>;
         buf = replicate (HeaderSize + helloBodySize) 0 in do {
       buf \<leftarrow> PutHeader buf h;
       buf \<leftarrow> put_u32 buf 4 (HSession m);
       buf \<leftarrow> put_u64 buf 8 (ClientID m);
       buf \<leftarrow> put_u32 buf 16 (Features m);
       buf \<leftarrow> put_u64 buf 20 (UnixTS m);
       Some (AppendTag blake mac buf)
     })"

definition ParseHello :: "blake \<Rightarrow> bytes \<Rightarrow> MAC \<Rightarrow> (Header \<times> Hello) option option" where
  "ParseHello blake datagram mac =
     (case Verify blake mac datagram of
        None \<Rightarrow> Some None
      | Some msg \<Rightarrow>
          if length msg \<noteq> HeaderSize + helloBodySize then Some None
          else do {
            r \<leftarrow> ParseHeader msg;
            case r of
              Inl _ \<Rightarrow> Some None
            | Inr h \<Rightarrow>
                if Type h \<noteq> TypeHello \<and> Type h \<noteq> TypeHelloAck then Some None
                else do {
                  s \<leftarrow> get_u32 msg 4;
                  c \<leftarrow> get_u64 msg 8;
                  f \<leftarrow> get_u32 msg 16;
                  t \<leftarrow> get_u64 msg 20;
                  Some (Some (h, \<lparr>HSession = s, ClientID = c, Features = f, UnixTS = t\<rparr>))
                }
          })"

section \<open>BYE\<close>

record Bye =
  BSession :: u32
  BUnixTS :: u64

definition byeBodySize :: nat where [simp]: "byeBodySize = 4 + 8"

definition EncodeBye :: "blake \<Rightarrow> Header \<Rightarrow> Bye \<Rightarrow> MAC \<Rightarrow> bytes option" where
  "EncodeBye blake h m mac = (
     let h = h\<lparr>Type := TypeBye\<rparr>; buf = replicate (HeaderSize + byeBodySize) 0 in do {
       buf \<leftarrow> PutHeader buf h;
       buf \<leftarrow> put_u32 buf 4 (BSession m);
       buf \<leftarrow> put_u64 buf 8 (BUnixTS m);
       Some (AppendTag blake mac buf)
     })"

definition ParseBye :: "blake \<Rightarrow> bytes \<Rightarrow> MAC \<Rightarrow> (Header \<times> Bye) option option" where
  "ParseBye blake datagram mac =
     (case Verify blake mac datagram of
        None \<Rightarrow> Some None
      | Some msg \<Rightarrow>
          if length msg \<noteq> HeaderSize + byeBodySize then Some None
          else do {
            r \<leftarrow> ParseHeader msg;
            case r of
              Inl _ \<Rightarrow> Some None
            | Inr h \<Rightarrow>
                if Type h \<noteq> TypeBye then Some None
                else do {
                  s \<leftarrow> get_u32 msg 4;
                  t \<leftarrow> get_u64 msg 8;
                  Some (Some (h, \<lparr>BSession = s, BUnixTS = t\<rparr>))
                }
          })"

section \<open>PROBE and PROBE\_ACK\<close>

record Probe =
  PSession :: u32
  PSeq :: u32
  PTxTS :: u64

definition probeBodySize :: nat where [simp]: "probeBodySize = 4 + 4 + 8"

definition EncodeProbe :: "blake \<Rightarrow> Header \<Rightarrow> Probe \<Rightarrow> MAC \<Rightarrow> bytes option" where
  "EncodeProbe blake h p mac = (
     let h = h\<lparr>Type := TypeProbe\<rparr>; buf = replicate (HeaderSize + probeBodySize) 0 in do {
       buf \<leftarrow> PutHeader buf h;
       buf \<leftarrow> put_u32 buf 4 (PSession p);
       buf \<leftarrow> put_u32 buf 8 (PSeq p);
       buf \<leftarrow> put_u64 buf 12 (PTxTS p);
       Some (AppendTag blake mac buf)
     })"

definition ParseProbe :: "blake \<Rightarrow> bytes \<Rightarrow> MAC \<Rightarrow> (Header \<times> Probe) option option" where
  "ParseProbe blake datagram mac =
     (case Verify blake mac datagram of
        None \<Rightarrow> Some None
      | Some msg \<Rightarrow>
          if length msg \<noteq> HeaderSize + probeBodySize then Some None
          else do {
            r \<leftarrow> ParseHeader msg;
            case r of
              Inl _ \<Rightarrow> Some None
            | Inr h \<Rightarrow>
                if Type h \<noteq> TypeProbe then Some None
                else do {
                  s \<leftarrow> get_u32 msg 4;
                  q \<leftarrow> get_u32 msg 8;
                  t \<leftarrow> get_u64 msg 12;
                  Some (Some (h, \<lparr>PSession = s, PSeq = q, PTxTS = t\<rparr>))
                }
          })"

record ProbeAck =
  ASession :: u32
  ASeq :: u32
  ATxTS :: u64
  HoldUS :: u32

definition probeAckBodySize :: nat where [simp]: "probeAckBodySize = 4 + 4 + 8 + 4"

definition EncodeProbeAck :: "blake \<Rightarrow> Header \<Rightarrow> ProbeAck \<Rightarrow> MAC \<Rightarrow> bytes option" where
  "EncodeProbeAck blake h p mac = (
     let h = h\<lparr>Type := TypeProbeAck\<rparr>; buf = replicate (HeaderSize + probeAckBodySize) 0 in do {
       buf \<leftarrow> PutHeader buf h;
       buf \<leftarrow> put_u32 buf 4 (ASession p);
       buf \<leftarrow> put_u32 buf 8 (ASeq p);
       buf \<leftarrow> put_u64 buf 12 (ATxTS p);
       buf \<leftarrow> put_u32 buf 20 (HoldUS p);
       Some (AppendTag blake mac buf)
     })"

definition ParseProbeAck :: "blake \<Rightarrow> bytes \<Rightarrow> MAC \<Rightarrow> (Header \<times> ProbeAck) option option" where
  "ParseProbeAck blake datagram mac =
     (case Verify blake mac datagram of
        None \<Rightarrow> Some None
      | Some msg \<Rightarrow>
          if length msg \<noteq> HeaderSize + probeAckBodySize then Some None
          else do {
            r \<leftarrow> ParseHeader msg;
            case r of
              Inl _ \<Rightarrow> Some None
            | Inr h \<Rightarrow>
                if Type h \<noteq> TypeProbeAck then Some None
                else do {
                  s \<leftarrow> get_u32 msg 4;
                  q \<leftarrow> get_u32 msg 8;
                  t \<leftarrow> get_u64 msg 12;
                  u \<leftarrow> get_u32 msg 20;
                  Some (Some (h, \<lparr>ASession = s, ASeq = q, ATxTS = t, HoldUS = u\<rparr>))
                }
          })"

section \<open>CTRL\<close>

record PathStats =
  SPathID :: byte
  Highest :: u32
  RxPkts :: u32
  RxBytes :: u64
  OwdMinUS :: u32
  OwdAvgUS :: u32

record Ctrl =
  CSession :: u32
  Paths :: "PathStats list"

definition tlvPathStats :: byte where [simp]: "tlvPathStats = 1"
definition pathStatsSize :: nat where [simp]: "pathStatsSize = 1 + 4 + 4 + 8 + 4 + 4"
definition MaxCtrlPaths :: nat where [simp]: "MaxCtrlPaths = 40"

definition encode_record :: "PathStats \<Rightarrow> bytes option" where
  "encode_record ps = do {
     rec \<leftarrow> set_idx (replicate (2 + pathStatsSize) 0) 0 tlvPathStats;
     rec \<leftarrow> set_idx rec 1 (of_nat pathStatsSize);
     rec \<leftarrow> set_idx rec 2 (SPathID ps);
     rec \<leftarrow> put_u32 rec 3 (Highest ps);
     rec \<leftarrow> put_u32 rec 7 (RxPkts ps);
     rec \<leftarrow> put_u64 rec 11 (RxBytes ps);
     rec \<leftarrow> put_u32 rec 19 (OwdMinUS ps);
     put_u32 rec 23 (OwdAvgUS ps)
   }"

fun append_records :: "bytes \<Rightarrow> PathStats list \<Rightarrow> bytes option" where
  "append_records buf [] = Some buf"
| "append_records buf (ps # pss) = do {
     rec \<leftarrow> encode_record ps;
     append_records (buf @ rec) pss
   }"

definition EncodeCtrl :: "blake \<Rightarrow> Header \<Rightarrow> Ctrl \<Rightarrow> MAC \<Rightarrow> bytes option" where
  "EncodeCtrl blake h c mac = (
     let h = h\<lparr>Type := TypeCtrl\<rparr>;
         n = (if length (Paths c) > MaxCtrlPaths then MaxCtrlPaths else length (Paths c));
         buf = replicate (HeaderSize + 4) 0 in do {
       buf \<leftarrow> PutHeader buf h;
       buf \<leftarrow> put_u32 buf 4 (CSession c);
       buf \<leftarrow> append_records buf (take n (Paths c));
       Some (AppendTag blake mac buf)
     })"

definition parse_record :: "bytes \<Rightarrow> PathStats option" where
  "parse_record body = do {
     i \<leftarrow> idx body 0;
     hi \<leftarrow> get_u32 body 1;
     p \<leftarrow> get_u32 body 5;
     by \<leftarrow> get_u64 body 9;
     mi \<leftarrow> get_u32 body 17;
     av \<leftarrow> get_u32 body 21;
     Some \<lparr>SPathID = i, Highest = hi, RxPkts = p, RxBytes = by, OwdMinUS = mi, OwdAvgUS = av\<rparr>
   }"

text \<open>The record loop of \<^verbatim>\<open>ParseCtrl\<close>; \<open>Some None\<close> is the early return with \<^verbatim>\<open>ok = false\<close>.\<close>

function ctrl_records :: "bytes \<Rightarrow> PathStats list \<Rightarrow> PathStats list option option" where
  "ctrl_records rest acc =
     (if 2 \<le> length rest then do {
        typ \<leftarrow> idx rest 0;
        lb \<leftarrow> idx rest 1;
        let l = unat lb in
        if length rest < 2 + l then Some None
        else do {
          body \<leftarrow> slice rest 2 (2 + l);
          rest' \<leftarrow> slice_from rest (2 + l);
          if typ \<noteq> tlvPathStats \<or> l \<noteq> pathStatsSize then ctrl_records rest' acc
          else do {
            ps \<leftarrow> parse_record body;
            ctrl_records rest' (acc @ [ps])
          }
        }
      }
      else Some (Some acc))"
  by pat_completeness auto
termination
  by (relation "measure (\<lambda>(rest, acc). length rest)") (auto simp: slice_from_def split: if_splits)

declare ctrl_records.simps [simp del]

definition ParseCtrl :: "blake \<Rightarrow> bytes \<Rightarrow> MAC \<Rightarrow> (Header \<times> Ctrl) option option" where
  "ParseCtrl blake datagram mac =
     (case Verify blake mac datagram of
        None \<Rightarrow> Some None
      | Some msg \<Rightarrow>
          if length msg < HeaderSize + 4 then Some None
          else do {
            r \<leftarrow> ParseHeader msg;
            case r of
              Inl _ \<Rightarrow> Some None
            | Inr h \<Rightarrow>
                if Type h \<noteq> TypeCtrl then Some None
                else do {
                  s \<leftarrow> get_u32 msg 4;
                  rest \<leftarrow> slice_from msg (HeaderSize + 4);
                  ps \<leftarrow> ctrl_records rest [];
                  Some (map_option (\<lambda>ps. (h, \<lparr>CSession = s, Paths = ps\<rparr>)) ps)
                }
          })"

section \<open>Layouts\<close>

definition hello_layout :: "Header \<Rightarrow> Hello \<Rightarrow> bytes" where
  "hello_layout h m = header_layout h @ bytes_of_u32 (HSession m) @ bytes_of_u64 (ClientID m) @
     bytes_of_u32 (Features m) @ bytes_of_u64 (UnixTS m)"

definition bye_layout :: "Header \<Rightarrow> Bye \<Rightarrow> bytes" where
  "bye_layout h m = header_layout h @ bytes_of_u32 (BSession m) @ bytes_of_u64 (BUnixTS m)"

definition probe_layout :: "Header \<Rightarrow> Probe \<Rightarrow> bytes" where
  "probe_layout h p = header_layout h @ bytes_of_u32 (PSession p) @ bytes_of_u32 (PSeq p) @
     bytes_of_u64 (PTxTS p)"

definition probe_ack_layout :: "Header \<Rightarrow> ProbeAck \<Rightarrow> bytes" where
  "probe_ack_layout h p = header_layout h @ bytes_of_u32 (ASession p) @ bytes_of_u32 (ASeq p) @
     bytes_of_u64 (ATxTS p) @ bytes_of_u32 (HoldUS p)"

definition record_layout :: "PathStats \<Rightarrow> bytes" where
  "record_layout ps = [1, 25, SPathID ps] @ bytes_of_u32 (Highest ps) @ bytes_of_u32 (RxPkts ps) @
     bytes_of_u64 (RxBytes ps) @ bytes_of_u32 (OwdMinUS ps) @ bytes_of_u32 (OwdAvgUS ps)"

definition ctrl_layout :: "Header \<Rightarrow> Ctrl \<Rightarrow> bytes" where
  "ctrl_layout h c = header_layout h @ bytes_of_u32 (CSession c) @ concat (map record_layout (Paths c))"

lemmas message_layouts = hello_layout_def bye_layout_def probe_layout_def probe_ack_layout_def
  ctrl_layout_def record_layout_def header_layout_def field_bytes

lemma EncodeHello_layout:
  "EncodeHello blake h m mac ack =
     Some (AppendTag blake mac (hello_layout (h\<lparr>Type := if ack then 6 else 5\<rparr>) m))"
  by (simp add: EncodeHello_def Let_def go_bytes message_layouts replicate_numeral_conv)

lemma EncodeBye_layout:
  "EncodeBye blake h m mac = Some (AppendTag blake mac (bye_layout (h\<lparr>Type := 7\<rparr>) m))"
  by (simp add: EncodeBye_def Let_def go_bytes message_layouts replicate_numeral_conv)

lemma EncodeProbe_layout:
  "EncodeProbe blake h p mac = Some (AppendTag blake mac (probe_layout (h\<lparr>Type := 1\<rparr>) p))"
  by (simp add: EncodeProbe_def Let_def go_bytes message_layouts replicate_numeral_conv)

lemma EncodeProbeAck_layout:
  "EncodeProbeAck blake h p mac = Some (AppendTag blake mac (probe_ack_layout (h\<lparr>Type := 2\<rparr>) p))"
  by (simp add: EncodeProbeAck_def Let_def go_bytes message_layouts replicate_numeral_conv)

lemma encode_record_layout: "encode_record ps = Some (record_layout ps)"
  by (simp add: encode_record_def go_bytes message_layouts replicate_numeral_conv)

lemma append_records_layout:
  "append_records buf pss = Some (buf @ concat (map record_layout pss))"
  by (induction pss arbitrary: buf) (simp_all add: encode_record_layout)

lemma EncodeCtrl_layout:
  "EncodeCtrl blake h c mac =
     Some (AppendTag blake mac (ctrl_layout (h\<lparr>Type := 3\<rparr>) (c\<lparr>Paths := take 40 (Paths c)\<rparr>)))"
  by (simp add: EncodeCtrl_def Let_def go_bytes append_records_layout ctrl_layout_def
      header_layout_def bytes_of_u32_def replicate_numeral_conv)

section \<open>The contract of a control message\<close>

text \<open>
  \<open>control_message\<close> is what the engine relies on for every message: the parser never panics,
  what it accepts carries a valid tag, and what an encoder seals is accepted with the same
  contents. \<open>fixed_message\<close> adds, for the messages without TLV records, that nothing else is
  accepted.
\<close>

locale control_message = authenticator tag_on check
  for tag_on :: "bytes \<Rightarrow> bytes" and check :: "bytes \<Rightarrow> bytes option" +
  fixes layout :: "Header \<Rightarrow> 'm \<Rightarrow> bytes"
    and parse :: "bytes \<Rightarrow> (Header \<times> 'm) option option"
    and carried :: "Header \<Rightarrow> bool"
  assumes total: "parse b \<noteq> None"
    and authentic: "parse b = Some (Some r) \<Longrightarrow> check b \<noteq> None"
    and roundtrip: "carried h \<Longrightarrow> parse (tag_on (layout h m)) = Some (Some (h, m))"
begin

lemma forged_rejected: "check b = None \<Longrightarrow> parse b = Some None"
  using total [of b] authentic [of b] by (cases "parse b"; cases "the (parse b)") auto

end

locale fixed_message = control_message +
  assumes exact: "parse b = Some (Some (h, m)) \<Longrightarrow> carried h \<and> b = tag_on (layout h m)"
begin

lemma accepts_iff: "parse b = Some (Some (h, m)) \<longleftrightarrow> carried h \<and> b = tag_on (layout h m)"
  using exact roundtrip by blast

end

interpretation hello_msg: fixed_message "AppendTag blake mac" "Verify blake mac" hello_layout
  "\<lambda>b. ParseHello blake b mac" "\<lambda>h. Type h = 5 \<or> Type h = 6" for blake mac
proof
  fix b
  show "ParseHello blake b mac \<noteq> None"
    by (auto simp: ParseHello_def go_bytes ParseHeader_no_panic split: option.splits sum.splits bind_splits)
next
  fix b r
  show "ParseHello blake b mac = Some (Some r) \<Longrightarrow> Verify blake mac b \<noteq> None"
    by (cases "Verify blake mac b") (auto simp: ParseHello_def)
next
  fix h :: Header and m
  assume h: "Type h = 5 \<or> Type h = 6"
  then have "ParseHeader (hello_layout h m) = Some (Inr h)"
    by (auto simp: hello_layout_def header_layout_parse)
  with h show "ParseHello blake (AppendTag blake mac (hello_layout h m)) mac = Some (Some (h, m))"
    by (auto simp: ParseHello_def mac.check_tag_on go_bytes message_layouts codec)
next
  fix b h m
  assume p: "ParseHello blake b mac = Some (Some (h, m))"
  then obtain msg where msg: "Verify blake mac b = Some msg" "length msg = 28"
      and h: "ParseHeader msg = Some (Inr h)" "Type h = 5 \<or> Type h = 6"
    by (auto simp: ParseHello_def go_bytes split: option.splits sum.splits bind_splits if_splits)
  have "hello_layout h m = map ((!) msg) [0..<28]"
    using p msg h header_layout_nths [OF h(1)]
    by (auto simp: ParseHello_def go_bytes hello_layout_def field_bytes codec upt_eval)
  then show "(Type h = 5 \<or> Type h = 6) \<and> b = AppendTag blake mac (hello_layout h m)"
    using h(2) msg map_nth [of msg] mac.check_sound [OF msg(1)] by simp
qed

interpretation bye_msg: fixed_message "AppendTag blake mac" "Verify blake mac" bye_layout
  "\<lambda>b. ParseBye blake b mac" "\<lambda>h. Type h = 7" for blake mac
proof
  fix b
  show "ParseBye blake b mac \<noteq> None"
    by (auto simp: ParseBye_def go_bytes ParseHeader_no_panic split: option.splits sum.splits bind_splits)
next
  fix b r
  show "ParseBye blake b mac = Some (Some r) \<Longrightarrow> Verify blake mac b \<noteq> None"
    by (cases "Verify blake mac b") (auto simp: ParseBye_def)
next
  fix h :: Header and m
  assume h: "Type h = 7"
  then have "ParseHeader (bye_layout h m) = Some (Inr h)"
    by (auto simp: bye_layout_def header_layout_parse)
  with h show "ParseBye blake (AppendTag blake mac (bye_layout h m)) mac = Some (Some (h, m))"
    by (auto simp: ParseBye_def mac.check_tag_on go_bytes message_layouts codec)
next
  fix b h m
  assume p: "ParseBye blake b mac = Some (Some (h, m))"
  then obtain msg where msg: "Verify blake mac b = Some msg" "length msg = 16"
      and h: "ParseHeader msg = Some (Inr h)" "Type h = 7"
    by (auto simp: ParseBye_def go_bytes split: option.splits sum.splits bind_splits if_splits)
  have "bye_layout h m = map ((!) msg) [0..<16]"
    using p msg h header_layout_nths [OF h(1)]
    by (auto simp: ParseBye_def go_bytes bye_layout_def field_bytes codec upt_eval)
  then show "(Type h = 7) \<and> b = AppendTag blake mac (bye_layout h m)"
    using h(2) msg map_nth [of msg] mac.check_sound [OF msg(1)] by simp
qed

interpretation probe_msg: fixed_message "AppendTag blake mac" "Verify blake mac" probe_layout
  "\<lambda>b. ParseProbe blake b mac" "\<lambda>h. Type h = 1" for blake mac
proof
  fix b
  show "ParseProbe blake b mac \<noteq> None"
    by (auto simp: ParseProbe_def go_bytes ParseHeader_no_panic split: option.splits sum.splits bind_splits)
next
  fix b r
  show "ParseProbe blake b mac = Some (Some r) \<Longrightarrow> Verify blake mac b \<noteq> None"
    by (cases "Verify blake mac b") (auto simp: ParseProbe_def)
next
  fix h :: Header and m
  assume h: "Type h = 1"
  then have "ParseHeader (probe_layout h m) = Some (Inr h)"
    by (auto simp: probe_layout_def header_layout_parse)
  with h show "ParseProbe blake (AppendTag blake mac (probe_layout h m)) mac = Some (Some (h, m))"
    by (auto simp: ParseProbe_def mac.check_tag_on go_bytes message_layouts codec)
next
  fix b h m
  assume p: "ParseProbe blake b mac = Some (Some (h, m))"
  then obtain msg where msg: "Verify blake mac b = Some msg" "length msg = 20"
      and h: "ParseHeader msg = Some (Inr h)" "Type h = 1"
    by (auto simp: ParseProbe_def go_bytes split: option.splits sum.splits bind_splits if_splits)
  have "probe_layout h m = map ((!) msg) [0..<20]"
    using p msg h header_layout_nths [OF h(1)]
    by (auto simp: ParseProbe_def go_bytes probe_layout_def field_bytes codec upt_eval)
  then show "(Type h = 1) \<and> b = AppendTag blake mac (probe_layout h m)"
    using h(2) msg map_nth [of msg] mac.check_sound [OF msg(1)] by simp
qed

interpretation probe_ack_msg: fixed_message "AppendTag blake mac" "Verify blake mac" probe_ack_layout
  "\<lambda>b. ParseProbeAck blake b mac" "\<lambda>h. Type h = 2" for blake mac
proof
  fix b
  show "ParseProbeAck blake b mac \<noteq> None"
    by (auto simp: ParseProbeAck_def go_bytes ParseHeader_no_panic split: option.splits sum.splits bind_splits)
next
  fix b r
  show "ParseProbeAck blake b mac = Some (Some r) \<Longrightarrow> Verify blake mac b \<noteq> None"
    by (cases "Verify blake mac b") (auto simp: ParseProbeAck_def)
next
  fix h :: Header and m
  assume h: "Type h = 2"
  then have "ParseHeader (probe_ack_layout h m) = Some (Inr h)"
    by (auto simp: probe_ack_layout_def header_layout_parse)
  with h show "ParseProbeAck blake (AppendTag blake mac (probe_ack_layout h m)) mac = Some (Some (h, m))"
    by (auto simp: ParseProbeAck_def mac.check_tag_on go_bytes message_layouts codec)
next
  fix b h m
  assume p: "ParseProbeAck blake b mac = Some (Some (h, m))"
  then obtain msg where msg: "Verify blake mac b = Some msg" "length msg = 24"
      and h: "ParseHeader msg = Some (Inr h)" "Type h = 2"
    by (auto simp: ParseProbeAck_def go_bytes split: option.splits sum.splits bind_splits if_splits)
  have "probe_ack_layout h m = map ((!) msg) [0..<24]"
    using p msg h header_layout_nths [OF h(1)]
    by (auto simp: ParseProbeAck_def go_bytes probe_ack_layout_def field_bytes codec upt_eval)
  then show "(Type h = 2) \<and> b = AppendTag blake mac (probe_ack_layout h m)"
    using h(2) msg map_nth [of msg] mac.check_sound [OF msg(1)] by simp
qed

lemma parse_record_layout:
  "parse_record (drop 2 (record_layout ps)) = Some ps"
  by (simp add: parse_record_def go_bytes message_layouts codec)

lemma length_record_layout [simp]: "length (record_layout ps) = 27"
  by (simp add: message_layouts)

lemma ctrl_records_step:
  "ctrl_records (record_layout ps @ rest) acc = ctrl_records rest (acc @ [ps])"
proof -
  obtain tl where l: "record_layout ps = 1 # 25 # tl" "drop 2 (record_layout ps) = tl" "length tl = 25"
    by (simp add: message_layouts)
  then show ?thesis
    using parse_record_layout [of ps]
    by (subst ctrl_records.simps) (simp add: go_bytes)
qed

lemma ctrl_records_layout:
  "ctrl_records (concat (map record_layout pss)) acc = Some (Some (acc @ pss))"
proof (induction pss arbitrary: acc)
  case Nil
  then show ?case by (subst ctrl_records.simps) simp
next
  case (Cons ps pss)
  then show ?case by (simp add: ctrl_records_step)
qed

lemma ctrl_records_skip:
  assumes "typ \<noteq> tlvPathStats \<or> length body \<noteq> 25" and "length body < 256"
  shows "ctrl_records (typ # of_nat (length body) # body @ rest) acc = ctrl_records rest acc"
proof -
  have "unat (of_nat (length body) :: byte) = length body"
    using assms(2) by (simp add: unat_of_nat take_bit_nat_eq_self)
  with assms(1) show ?thesis
    by (subst ctrl_records.simps) (auto simp: go_bytes)
qed

lemma parse_record_total: "length body = 25 \<Longrightarrow> parse_record body \<noteq> None"
  using nonempty_of_length [of 25 body] by (simp add: parse_record_def go_bytes)

lemma ctrl_records_total: "ctrl_records rest acc \<noteq> None"
proof (induction rest acc rule: ctrl_records.induct)
  case (1 rest acc)
  show ?case
  proof (cases "2 \<le> length rest \<and> 2 + unat (rest ! 1) \<le> length rest")
    case True
    define l where "l = unat (rest ! 1)"
    have r: "idx rest 0 = Some (rest ! 0)" "idx rest 1 = Some (rest ! 1)"
        "slice rest 2 (2 + l) = Some (drop 2 (take (2 + l) rest))"
        "slice_from rest (2 + l) = Some (drop (2 + l) rest)"
      using True by (auto simp: l_def idx_def slice_def slice_from_def)
    have t: "l = 25 \<Longrightarrow> parse_record (drop 2 (take (2 + l) rest)) \<noteq> None"
      using True by (intro parse_record_total) (simp add: l_def)
    show ?thesis
      using True "1.IH" t r by (subst ctrl_records.simps) (auto simp: l_def Let_def)
  next
    case False
    then show ?thesis
      by (subst ctrl_records.simps) (auto simp: idx_def slice_def slice_from_def Let_def)
  qed
qed

interpretation ctrl_msg: control_message "AppendTag blake mac" "Verify blake mac" ctrl_layout
  "\<lambda>b. ParseCtrl blake b mac" "\<lambda>h. Type h = 3" for blake mac
proof
  fix b
  show "ParseCtrl blake b mac \<noteq> None"
    by (auto simp: ParseCtrl_def go_bytes ParseHeader_no_panic ctrl_records_total
        split: option.splits sum.splits bind_splits)
next
  fix b r
  show "ParseCtrl blake b mac = Some (Some r) \<Longrightarrow> Verify blake mac b \<noteq> None"
    by (cases "Verify blake mac b") (auto simp: ParseCtrl_def)
next
  fix h :: Header and m
  assume h: "Type h = 3"
  then have "ParseHeader (ctrl_layout h m) = Some (Inr h)"
    by (simp add: ctrl_layout_def header_layout_parse)
  with h show "ParseCtrl blake (AppendTag blake mac (ctrl_layout h m)) mac = Some (Some (h, m))"
    by (simp add: ParseCtrl_def mac.check_tag_on go_bytes ctrl_layout_def header_layout_def
        bytes_of_u32_def codec ctrl_records_layout)
qed

section \<open>Freshness\<close>

lemma sint_uminus_u64: "sint (- d :: u64) = (if sint d = - (2 ^ 63) then - (2 ^ 63) else - sint d)"
proof -
  have r: "- (2 ^ 63) \<le> sint d" "sint d < 2 ^ 63"
    using sint_range_size [of d] by (simp_all add: word_size)
  have "sint (- d) = signed_take_bit 63 (- sint d)"
    using sint_word_ariths(4) [of d] by simp
  also have "\<dots> = (if sint d = - (2 ^ 63) then - (2 ^ 63) else - sint d)"
    using r by (auto simp: signed_take_bit_int_eq_self)
  finally show ?thesis .
qed

lemma FreshTS_iff:
  "FreshTS ts now_unix \<longleftrightarrow>
     \<bar>sint (now_unix - ts)\<bar> \<le> 30 \<or> sint (now_unix - ts) = - (2 ^ 63)"
proof -
  obtain d where d: "now_unix - ts = d" by simp
  show ?thesis
    unfolding FreshTS_def d Let_def
    by (auto simp: sint_uminus_u64 ReplayWindow_def Second_def quot_def)
qed

lemma sint_diff_u64:
  "- (2 ^ 63) \<le> sint (a :: u64) - sint b \<Longrightarrow> sint a - sint b < 2 ^ 63 \<Longrightarrow>
     sint (a - b) = sint a - sint b"
  using sint_word_ariths(2) [of a b] by (simp add: signed_take_bit_int_eq_self)

section \<open>Properties\<close>

text \<open>
  C35. HELLO, HELLO\_ACK, BYE, PROBE and PROBE\_ACK round trips. Encoding never panics, yields
  a datagram of the fixed size (44, 32, 36 and 40 bytes), and parsing that datagram under the
  same key returns the header, with the message's own type, and the message.
\<close>

theorem control_roundtrips:
  "(\<exists>d. EncodeHello blake h hello mac ack = Some d \<and> length d = 44 \<and>
      ParseHello blake d mac =
        Some (Some (h\<lparr>Type := if ack then TypeHelloAck else TypeHello\<rparr>, hello))) \<and>
   (\<exists>d. EncodeBye blake h bye mac = Some d \<and> length d = 32 \<and>
      ParseBye blake d mac = Some (Some (h\<lparr>Type := TypeBye\<rparr>, bye))) \<and>
   (\<exists>d. EncodeProbe blake h probe mac = Some d \<and> length d = 36 \<and>
      ParseProbe blake d mac = Some (Some (h\<lparr>Type := TypeProbe\<rparr>, probe))) \<and>
   (\<exists>d. EncodeProbeAck blake h pack mac = Some d \<and> length d = 40 \<and>
      ParseProbeAck blake d mac = Some (Some (h\<lparr>Type := TypeProbeAck\<rparr>, pack)))"
proof (intro conjI)
  show "\<exists>d. EncodeHello blake h hello mac ack = Some d \<and> length d = 44 \<and>
      ParseHello blake d mac =
        Some (Some (h\<lparr>Type := if ack then TypeHelloAck else TypeHello\<rparr>, hello))"
    by (simp add: EncodeHello_layout hello_msg.roundtrip) (simp add: message_layouts)
  show "\<exists>d. EncodeBye blake h bye mac = Some d \<and> length d = 32 \<and>
      ParseBye blake d mac = Some (Some (h\<lparr>Type := TypeBye\<rparr>, bye))"
    by (simp add: EncodeBye_layout bye_msg.roundtrip) (simp add: message_layouts)
  show "\<exists>d. EncodeProbe blake h probe mac = Some d \<and> length d = 36 \<and>
      ParseProbe blake d mac = Some (Some (h\<lparr>Type := TypeProbe\<rparr>, probe))"
    by (simp add: EncodeProbe_layout probe_msg.roundtrip) (simp add: message_layouts)
  show "\<exists>d. EncodeProbeAck blake h pack mac = Some d \<and> length d = 40 \<and>
      ParseProbeAck blake d mac = Some (Some (h\<lparr>Type := TypeProbeAck\<rparr>, pack))"
    by (simp add: EncodeProbeAck_layout probe_ack_msg.roundtrip) (simp add: message_layouts)
qed

text \<open>
  CTRL round trip and size. The receiver gets the session and the first 40 path records,
  and the datagram never exceeds 1104 bytes, so it fits an MTU of 1500.
\<close>

theorem ctrl_roundtrip:
  "\<exists>d. EncodeCtrl blake h c mac = Some d \<and> length d \<le> 1104 \<and>
     ParseCtrl blake d mac =
       Some (Some (h\<lparr>Type := TypeCtrl\<rparr>, c\<lparr>Paths := take MaxCtrlPaths (Paths c)\<rparr>))"
proof -
  have len: "length (concat (map record_layout pss)) = 27 * length pss" for pss
    by (induction pss) simp_all
  show ?thesis
    by (simp add: EncodeCtrl_layout ctrl_msg.roundtrip)
       (simp add: ctrl_layout_def header_layout_def bytes_of_u32_def len)
qed

text \<open>
  unknown TLV records are skipped: a CTRL datagram with a record of another type (or of a
  resized path record) in front of the path records is accepted with the same contents as
  without it.
\<close>

theorem ctrl_skips_unknown_record:
  assumes "typ \<noteq> tlvPathStats \<or> length body \<noteq> pathStatsSize" and "length body < 256"
    and "Type h = TypeCtrl"
  shows "ParseCtrl blake (AppendTag blake mac
      (header_layout h @ bytes_of_u32 s @ (typ # of_nat (length body) # body) @
       concat (map record_layout pss))) mac = Some (Some (h, \<lparr>CSession = s, Paths = pss\<rparr>))"
proof -
  have "ParseHeader (header_layout h @ r) = Some (Inr h)" for r
    using assms(3) by (simp add: header_layout_parse)
  then show ?thesis
    using assms ctrl_records_skip [of "typ" body "concat (map record_layout pss)" "[]"]
    by (simp add: ParseCtrl_def mac.check_tag_on go_bytes ctrl_records_layout)
       (simp add: header_layout_def bytes_of_u32_def go_bytes codec ctrl_records_layout)
qed

theorem ctrl_skips_unknown_record_witness:
  "ParseCtrl (\<lambda>k m. [9]) (AppendTag (\<lambda>k m. [9]) \<lparr>mac_key = []\<rparr>
      (header_layout \<lparr>Type = 3, Flags = 0, PathID = 1, Epoch = 0\<rparr> @ bytes_of_u32 5 @
       (2 # of_nat 3 # [7, 7, 7]) @ concat (map record_layout []))) \<lparr>mac_key = []\<rparr> =
    Some (Some (\<lparr>Type = 3, Flags = 0, PathID = 1, Epoch = 0\<rparr>, \<lparr>CSession = 5, Paths = []\<rparr>))"
  using ctrl_skips_unknown_record [of 2 "[7, 7, 7]" "\<lparr>Type = 3, Flags = 0, PathID = 1, Epoch = 0\<rparr>"
      "\<lambda>k m. [9]" "\<lparr>mac_key = []\<rparr>" 5 "[]"]
  by simp

text \<open>
  C23. control-plane authenticity. No control parser panics; the fixed-size messages are
  accepted exactly as the tagged layout of a header of that type and a message, so every
  accepted byte, the path id included, is covered by the tag; and a CTRL datagram without
  a valid tag is rejected.
\<close>

theorem control_plane_authentic:
  "(ParseHello blake b mac = Some (Some (h, hello)) \<longleftrightarrow>
      (Type h = TypeHello \<or> Type h = TypeHelloAck) \<and> b = AppendTag blake mac (hello_layout h hello)) \<and>
   (ParseBye blake b mac = Some (Some (h, bye)) \<longleftrightarrow>
      Type h = TypeBye \<and> b = AppendTag blake mac (bye_layout h bye)) \<and>
   (ParseProbe blake b mac = Some (Some (h, probe)) \<longleftrightarrow>
      Type h = TypeProbe \<and> b = AppendTag blake mac (probe_layout h probe)) \<and>
   (ParseProbeAck blake b mac = Some (Some (h, pack)) \<longleftrightarrow>
      Type h = TypeProbeAck \<and> b = AppendTag blake mac (probe_ack_layout h pack)) \<and>
   (case Verify blake mac b of None \<Rightarrow> ParseCtrl blake b mac = Some None | Some msg \<Rightarrow> b = AppendTag blake mac msg) \<and>
   ParseHello blake b mac \<noteq> None \<and> ParseBye blake b mac \<noteq> None \<and>
   ParseProbe blake b mac \<noteq> None \<and> ParseProbeAck blake b mac \<noteq> None \<and>
   ParseCtrl blake b mac \<noteq> None"
  using hello_msg.accepts_iff bye_msg.accepts_iff probe_msg.accepts_iff probe_ack_msg.accepts_iff
    ctrl_msg.forged_rejected hello_msg.total bye_msg.total probe_msg.total probe_ack_msg.total
    ctrl_msg.total mac.check_iff
  by (auto simp del: not_None_eq split: option.split)

text \<open>
  the replay window. For clocks and timestamps within 2^62 seconds of the epoch,
  \<^verbatim>\<open>FreshTS\<close> accepts exactly the timestamps at most 30 seconds away in either direction.
\<close>

theorem FreshTS_window:
  assumes "\<bar>sint ts\<bar> \<le> 2 ^ 62" and "\<bar>sint now_unix\<bar> < 2 ^ 62"
  shows "FreshTS ts now_unix \<longleftrightarrow> \<bar>sint now_unix - sint ts\<bar> \<le> 30"
proof -
  have "sint (now_unix - ts) = sint now_unix - sint ts"
    using assms by (intro sint_diff_u64) (simp_all add: abs_le_iff abs_less_iff)
  with assms show ?thesis
    by (auto simp: FreshTS_iff)
qed

theorem FreshTS_window_witness:
  "FreshTS 1700000000 1700000030 \<and> \<not> FreshTS 1700000000 1700000031"
  using FreshTS_window [of 1700000000 1700000030] FreshTS_window [of 1700000000 1700000031]
  by simp

text \<open>
  C37. outside that range the negation of the difference overflows: whatever the clock, the
  timestamp 2^63 seconds away is accepted as fresh, because \<^verbatim>\<open>-d\<close> is again negative.
\<close>

theorem FreshTS_accepts_opposite_timestamp:
  "FreshTS (now_unix + 2 ^ 63) now_unix"
proof -
  have "now_unix - (now_unix + 2 ^ 63) = - (2 ^ 63 :: u64)"
    by simp
  then show ?thesis
    by (simp add: FreshTS_iff)
qed

end
