(* ===== verification/Reorder.thy ===== *)
theory Reorder
  imports Prelude
begin

text \<open>
  Package \<^verbatim>\<open>internal/reorder\<close>: the resequencing ring. The state is the Go struct, with the
  8192-element array as a function of the slot index and Go's zero value of the packet type
  as the \<open>0\<close> of class \<open>zero\<close>. The callbacks \<^verbatim>\<open>deliver\<close> and \<^verbatim>\<open>drop\<close> are recorded as the list of
  outputs of an operation, in the order of the calls; the clock is an argument, read once by
  \<^verbatim>\<open>insertLocked\<close> and once by \<^verbatim>\<open>expireLocked\<close>. A pending \<^verbatim>\<open>time.AfterFunc\<close> is the duration it
  was armed with.
\<close>

section \<open>Definitions\<close>

definition Size :: nat where [simp]: "Size = 8192"

definition DefaultHold :: duration where "DefaultHold = 75 * Millisecond"

definition resetThreshold :: int where [simp]: "resetThreshold = 16"

record stats =
  Delivered :: u64
  Duplicates :: u64
  Late :: u64
  TimedOut :: u64
  Overflows :: u64
  Resets :: u64
  Depth :: int

record 'a slot =
  occ :: bool
  sseq :: u32
  arrival :: timestamp
  sval :: 'a

record 'a buffer =
  slots :: "nat \<Rightarrow> 'a slot"
  started :: bool
  nextExpected :: u32
  occupied :: int
  hold :: duration
  farLate :: int
  timer :: "duration option"
  bstats :: stats

datatype 'a out = Deliver 'a (late: bool) | Drop 'a

definition New :: "'a::zero buffer" where
  "New = \<lparr>slots = (\<lambda>_. \<lparr>occ = False, sseq = 0, arrival = zeroTime, sval = 0\<rparr>), started = False,
    nextExpected = 0, occupied = 0, hold = DefaultHold, farLate = 0, timer = None,
    bstats = \<lparr>Delivered = 0, Duplicates = 0, Late = 0, TimedOut = 0, Overflows = 0, Resets = 0,
              Depth = 0\<rparr>\<rparr>"

definition SetHold :: "duration \<Rightarrow> 'a buffer \<Rightarrow> 'a buffer" where
  "SetHold d b =
     (let d = (if d < 2 * Millisecond then 2 * Millisecond else d);
          d = (if d > 250 * Millisecond then 250 * Millisecond else d)
      in b\<lparr>hold := d\<rparr>)"

definition Snapshot :: "'a buffer \<Rightarrow> stats" where
  "Snapshot b = (bstats b)\<lparr>Depth := occupied b\<rparr>"

text \<open>The slot of a sequence number, \<^verbatim>\<open>seq % Size\<close> on \<^verbatim>\<open>uint32\<close>.\<close>

definition ring :: "u32 \<Rightarrow> nat" where
  "ring s = unat s mod Size"

lemma ring_less [simp]: "ring s < 8192"
  by (simp add: ring_def)

definition waiting :: "'a buffer \<Rightarrow> nat set" where
  "waiting b = {i. i < Size \<and> occ (slots b i)}"

lemma finite_waiting [simp]: "finite (waiting b)"
  by (simp add: waiting_def)

definition insertLocked :: "timestamp \<Rightarrow> u32 \<Rightarrow> 'a \<Rightarrow> 'a buffer \<Rightarrow> 'a buffer \<times> 'a out list" where
  "insertLocked now seq val b =
     (let i = ring seq; s = slots b i in
      if occ s
      then (b\<lparr>bstats := (bstats b)\<lparr>Duplicates := Duplicates (bstats b) + 1\<rparr>\<rparr>, [Drop val])
      else (b\<lparr>slots := (slots b)(i := \<lparr>occ = True, sseq = seq, arrival = now, sval = val\<rparr>),
              occupied := occupied b + 1\<rparr>, []))"

text \<open>Emptying one slot, as \<^verbatim>\<open>drainLocked\<close> and \<^verbatim>\<open>flushLocked\<close> do after the delivery.\<close>

definition release :: "nat \<Rightarrow> 'a::zero buffer \<Rightarrow> 'a buffer" where
  "release i b =
     b\<lparr>slots := (slots b)(i := (slots b i)\<lparr>occ := False, sval := 0\<rparr>),
       occupied := occupied b - 1,
       bstats := (bstats b)\<lparr>Delivered := Delivered (bstats b) + 1\<rparr>\<rparr>"

lemma waiting_less: "i \<in> waiting b \<Longrightarrow> i < 8192"
  by (simp add: waiting_def)

lemma waiting_release: "i < 8192 \<Longrightarrow> waiting (release i b) = waiting b - {i}"
  by (auto simp: waiting_def release_def)

lemma waiting_next [simp]: "waiting (b\<lparr>nextExpected := n\<rparr>) = waiting b"
  by (simp add: waiting_def)

function drainLocked :: "'a::zero buffer \<Rightarrow> 'a buffer \<times> 'a out list" where
  "drainLocked b =
     (let i = ring (nextExpected b); s = slots b i in
      if \<not> occ s \<or> sseq s \<noteq> nextExpected b then (b, [])
      else (let (b', os) = drainLocked ((release i b)\<lparr>nextExpected := nextExpected b + 1\<rparr>)
            in (b', Deliver (sval s) False # os)))"
  by pat_completeness auto
termination
proof (relation "measure (\<lambda>b. card (waiting b))")
  fix b :: "'a buffer" and i s
  assume i: "i = ring (nextExpected b)" and s: "s = slots b i"
    and g: "\<not> (\<not> occ s \<or> sseq s \<noteq> nextExpected b)"
  then have "i \<in> waiting b"
    by (simp add: waiting_def)
  then have "card (waiting b - {i}) < card (waiting b)"
    by (intro card_Diff1_less) simp_all
  then show "((release i b)\<lparr>nextExpected := nextExpected b + 1\<rparr>, b) \<in> measure (\<lambda>b. card (waiting b))"
    by (simp add: waiting_release i)
qed simp

declare drainLocked.simps [simp del]

function flush_from :: "nat \<Rightarrow> 'a::zero buffer \<Rightarrow> 'a buffer \<times> 'a out list" where
  "flush_from i b =
     (if i < Size \<and> occupied b > 0
      then (let j = ring (nextExpected b + of_nat i); s = slots b j in
            if occ s then (let (b', os) = flush_from (Suc i) (release j b)
                           in (b', Deliver (sval s) False # os))
            else flush_from (Suc i) b)
      else (b, []))"
  by pat_completeness auto
termination
  by (relation "measure (\<lambda>(i, b). Size - i)") auto

declare flush_from.simps [simp del]

definition flushLocked :: "'a::zero buffer \<Rightarrow> 'a buffer \<times> 'a out list" where
  "flushLocked b = flush_from 0 b"

definition resetLocked :: "u32 \<Rightarrow> 'a::zero buffer \<Rightarrow> 'a buffer \<times> 'a out list" where
  "resetLocked seq b =
     (let (b, os) = flushLocked b
      in (b\<lparr>nextExpected := seq, farLate := 0,
            bstats := (bstats b)\<lparr>Resets := Resets (bstats b) + 1\<rparr>\<rparr>, os))"

definition armTimerLocked :: "'a buffer \<Rightarrow> 'a buffer" where
  "armTimerLocked b =
     (if occupied b = 0 \<or> timer b \<noteq> None then b else b\<lparr>timer := Some (hold b)\<rparr>)"

text \<open>The branch of \<^verbatim>\<open>Push\<close> for a packet far outside the window, ahead or behind.\<close>

definition push_far :: "timestamp \<Rightarrow> u32 \<Rightarrow> 'a::zero \<Rightarrow> 'a buffer \<Rightarrow> 'a buffer \<times> 'a out list" where
  "push_far now seq val b =
     (let b = b\<lparr>farLate := farLate b + 1\<rparr> in
      if farLate b \<ge> resetThreshold
      then (let (b, o1) = resetLocked seq b;
                (b, o2) = insertLocked now seq val b;
                (b, o3) = drainLocked b
            in (b, o1 @ o2 @ o3))
      else (b\<lparr>bstats := (bstats b)\<lparr>Late := Late (bstats b) + 1\<rparr>\<rparr>, [Drop val]))"

definition push_window :: "timestamp \<Rightarrow> u32 \<Rightarrow> 'a::zero \<Rightarrow> 'a buffer \<Rightarrow> 'a buffer \<times> 'a out list" where
  "push_window now seq val b =
     (let b = b\<lparr>farLate := 0\<rparr>;
          (b, o1) = insertLocked now seq val b;
          (b, o2) = drainLocked b
      in (armTimerLocked b, o1 @ o2))"

definition Push :: "timestamp \<Rightarrow> u32 \<Rightarrow> 'a::zero \<Rightarrow> 'a buffer \<Rightarrow> 'a buffer \<times> 'a out list" where
  "Push now seq val b =
     (let b = (if \<not> started b then b\<lparr>started := True, nextExpected := seq\<rparr> else b);
          diff = sint (seq - nextExpected b) in
      if diff < 0 then
        (if diff < - int Size then push_far now seq val b
         else (b\<lparr>bstats := (bstats b)\<lparr>Late := Late (bstats b) + 1\<rparr>\<rparr>, [Deliver val True]))
      else if diff \<ge> int Size then
        (if diff > 4 * int Size then push_far now seq val b
         else (let b = b\<lparr>bstats := (bstats b)\<lparr>Overflows := Overflows (bstats b) + 1\<rparr>\<rparr>;
                   (b, o1) = flushLocked b;
                   b = b\<lparr>nextExpected := seq\<rparr>;
                   (b, o2) = push_window now seq val b
               in (b, o1 @ o2)))
      else push_window now seq val b)"

function first_waiting :: "nat \<Rightarrow> 'a buffer \<Rightarrow> 'a slot option" where
  "first_waiting i b =
     (if i < Size
      then (let s = slots b (ring (nextExpected b + of_nat i)) in
            if occ s then Some s else first_waiting (Suc i) b)
      else None)"
  by pat_completeness auto
termination
  by (relation "measure (\<lambda>(i, b). Size - i)") auto

declare first_waiting.simps [simp del]

text \<open>
  The loop of \<^verbatim>\<open>expireLocked\<close> has no bound of its own; \<open>None\<close> is not returning. That it returns
  from every state the buffer can be in is proved below.
\<close>

partial_function (option) expireLocked ::
    "timestamp \<Rightarrow> 'a::zero buffer \<Rightarrow> ('a buffer \<times> 'a out list) option" where
  "expireLocked now b =
     (if occupied b > 0 then
        (case first_waiting 0 b of
           None \<Rightarrow> Some (b, [])
         | Some first \<Rightarrow>
             if time_sub now (arrival first) < hold b then Some (b, [])
             else (let b = b\<lparr>bstats := (bstats b)\<lparr>TimedOut := TimedOut (bstats b) + 1\<rparr>,
                             nextExpected := sseq first\<rparr>;
                       (b, o1) = drainLocked b
                   in Option.bind (expireLocked now b) (\<lambda>(b, o2). Some (b, o1 @ o2))))
      else Some (b, []))"

definition onTimer :: "timestamp \<Rightarrow> 'a::zero buffer \<Rightarrow> ('a buffer \<times> 'a out list) option" where
  "onTimer now b =
     Option.bind (expireLocked now (b\<lparr>timer := None\<rparr>)) (\<lambda>(b, os).
       Some (if occupied b > 0 then b\<lparr>timer := Some (hold b)\<rparr> else b, os))"

definition Tick :: "timestamp \<Rightarrow> 'a::zero buffer \<Rightarrow> ('a buffer \<times> 'a out list) option" where
  "Tick now b = expireLocked now b"

definition Close :: "'a::zero buffer \<Rightarrow> 'a buffer \<times> 'a out list" where
  "Close b = flushLocked (b\<lparr>timer := None\<rparr>)"

section \<open>Ring arithmetic\<close>

lemma ring_add: "ring (n + of_nat k) = (ring n + k) mod 8192"
proof -
  have "unat (n + of_nat k) = (unat n + k) mod 2 ^ 32"
    by (simp add: unat_word_ariths unat_of_nat take_bit_eq_mod mod_add_right_eq)
  then have "ring (n + of_nat k) = (unat n + k) mod 2 ^ 32 mod 8192"
    by (simp add: ring_def)
  also have "\<dots> = (unat n + k) mod 8192"
    by (rule mod_mod_cancel) simp
  also have "\<dots> = (ring n + k) mod 8192"
    by (simp add: ring_def mod_add_left_eq)
  finally show ?thesis .
qed

lemma offset_add: "s = n + of_nat (unat (s - n))" for s n :: u32
  by simp

lemma mod_shift_inj:
  assumes "(x + k) mod 8192 = (x + j) mod 8192" and "k < 8192" and "j < (8192 :: nat)"
  shows "k = j"
proof -
  have "(of_nat (x + k) :: 13 word) = of_nat (x + j)"
    using assms(1) by (simp add: word_of_nat_eq_iff take_bit_eq_mod del: of_nat_add)
  then have "(of_nat k :: 13 word) = of_nat j"
    by simp
  then show ?thesis
    using assms(2,3) by (simp add: word_of_nat_eq_iff take_bit_eq_mod)
qed

lemma ring_inj:
  assumes "ring s = ring t" "unat (s - n) < 8192" "unat (t - n) < 8192"
  shows "s = t"
proof -
  have "(ring n + unat (s - n)) mod 8192 = (ring n + unat (t - n)) mod 8192"
    using assms(1) ring_add [of n "unat (s - n)"] ring_add [of n "unat (t - n)"] by simp
  then have "unat (s - n) = unat (t - n)"
    using assms(2,3) by (rule mod_shift_inj)
  then have "s - n = t - n"
    by (rule word_unat_eq_iff [THEN iffD2])
  then show ?thesis by simp
qed

lemma unat_pred: "x \<noteq> 0 \<Longrightarrow> unat (x - 1) = unat x - 1" for x :: u32
  by (rule unat_minus_one)

section \<open>The invariant\<close>

text \<open>
  Every occupied slot holds a sequence number of its own residue inside the window that
  starts at \<^verbatim>\<open>nextExpected\<close>, and \<^verbatim>\<open>occupied\<close> counts the occupied slots.
\<close>

definition ring_ok :: "'a buffer \<Rightarrow> bool" where
  "ring_ok b \<longleftrightarrow> (\<forall>i \<in> waiting b. ring (sseq (slots b i)) = i \<and>
     unat (sseq (slots b i) - nextExpected b) < Size)"

definition count_ok :: "'a buffer \<Rightarrow> bool" where
  "count_ok b \<longleftrightarrow> occupied b = int (card (waiting b))"

definition drained :: "'a buffer \<Rightarrow> bool" where
  "drained b \<longleftrightarrow> ring (nextExpected b) \<notin> waiting b"

definition reorder_inv :: "'a buffer \<Rightarrow> bool" where
  "reorder_inv b \<longleftrightarrow> ring_ok b \<and> count_ok b \<and> drained b \<and>
     2 * Millisecond \<le> hold b \<and> hold b \<le> 250 * Millisecond \<and>
     (occupied b > 0 \<longrightarrow> timer b \<noteq> None) \<and> 0 \<le> farLate b \<and> farLate b < resetThreshold \<and>
     (\<not> started b \<longrightarrow> occupied b = 0)"

definition held :: "'a buffer \<Rightarrow> 'a multiset" where
  "held b = image_mset (\<lambda>i. sval (slots b i)) (mset_set (waiting b))"

fun out_val :: "'a out \<Rightarrow> 'a" where
  "out_val (Deliver v l) = v"
| "out_val (Drop v) = v"

definition out_vals :: "'a out list \<Rightarrow> 'a multiset" where
  "out_vals os = image_mset out_val (mset os)"

lemma out_vals_simps [simp]:
  "out_vals [] = {#}" "out_vals (x # os) = add_mset (out_val x) (out_vals os)"
  "out_vals (os @ os') = out_vals os + out_vals os'"
  by (simp_all add: out_vals_def)

text \<open>The values handed to \<^verbatim>\<open>deliver\<close> in sequence order (not as late stragglers).\<close>

fun in_order :: "'a out list \<Rightarrow> 'a list" where
  "in_order [] = []"
| "in_order (Deliver v False # os) = v # in_order os"
| "in_order (x # os) = in_order os"

lemma in_order_append [simp]: "in_order (os @ os') = in_order os @ in_order os'"
  by (induction os rule: in_order.induct) simp_all

text \<open>\<open>tagged f b\<close>: every waiting value knows its sequence number, read off by \<open>f\<close>.\<close>

definition tagged :: "('a \<Rightarrow> u32) \<Rightarrow> 'a buffer \<Rightarrow> bool" where
  "tagged f b \<longleftrightarrow> (\<forall>i \<in> waiting b. f (sval (slots b i)) = sseq (slots b i))"

text \<open>Fields an operation on the slots leaves alone.\<close>

definition same_control :: "'a buffer \<Rightarrow> 'a buffer \<Rightarrow> bool" where
  "same_control b b' \<longleftrightarrow> started b' = started b \<and> hold b' = hold b \<and> farLate b' = farLate b \<and>
     timer b' = timer b \<and> Resets (bstats b') = Resets (bstats b) \<and>
     Overflows (bstats b') = Overflows (bstats b)"

lemma same_control_trans: "same_control a b \<Longrightarrow> same_control b c \<Longrightarrow> same_control a c"
  by (simp add: same_control_def)

section \<open>Releasing one slot\<close>

lemma release_frame [simp]:
  "nextExpected (release i b) = nextExpected b" "same_control b (release i b)"
  "\<And>n. same_control b ((release i b)\<lparr>nextExpected := n\<rparr>)"
  by (simp_all add: release_def same_control_def)

lemma slots_release: "j \<noteq> i \<Longrightarrow> slots (release i b) j = slots b j"
  by (simp add: release_def)

lemma occupied_release [simp]: "occupied (release i b) = occupied b - 1"
  by (simp add: release_def)

lemma count_release: "i \<in> waiting b \<Longrightarrow> count_ok b \<Longrightarrow> count_ok (release i b)"
proof -
  assume i: "i \<in> waiting b" and c: "count_ok b"
  have "Suc (card (waiting b - {i})) = card (waiting b)"
    using i by (intro card_Suc_Diff1) simp_all
  then have "int (card (waiting b - {i})) = int (card (waiting b)) - 1"
    by linarith
  with c show ?thesis
    by (simp add: count_ok_def waiting_release [OF waiting_less [OF i]])
qed

lemma held_release: "i \<in> waiting b \<Longrightarrow> add_mset (sval (slots b i)) (held (release i b)) = held b"
proof -
  assume i: "i \<in> waiting b"
  then have "mset_set (waiting b) = add_mset i (mset_set (waiting b - {i}))"
    by (simp add: mset_set.remove)
  moreover have "image_mset (\<lambda>j. sval (slots (release i b) j)) (mset_set (waiting b - {i}))
      = image_mset (\<lambda>j. sval (slots b j)) (mset_set (waiting b - {i}))"
    by (rule image_mset_cong) (auto simp: slots_release)
  ultimately show ?thesis
    by (simp add: held_def waiting_release [OF waiting_less [OF i]])
qed

lemma tagged_release: "tagged f b \<Longrightarrow> i < 8192 \<Longrightarrow> tagged f (release i b)"
  by (auto simp: tagged_def waiting_release slots_release)

lemma held_next [simp]: "held (b\<lparr>nextExpected := n\<rparr>) = held b"
  by (simp add: held_def)

lemma tagged_next [simp]: "tagged f (b\<lparr>nextExpected := n\<rparr>) = tagged f b"
  by (simp add: tagged_def)

lemma count_next [simp]: "count_ok (b\<lparr>nextExpected := n\<rparr>) = count_ok b"
  by (simp add: count_ok_def)

lemma ring_ok_advance:
  assumes r: "ring_ok b"
  shows "ring_ok ((release (ring (nextExpected b)) b)\<lparr>nextExpected := nextExpected b + 1\<rparr>)"
  unfolding ring_ok_def
proof
  let ?n = "nextExpected b"
  fix i
  assume i: "i \<in> waiting ((release (ring ?n) b)\<lparr>nextExpected := ?n + 1\<rparr>)"
  then have w: "i \<in> waiting b" "i \<noteq> ring ?n"
    by (auto simp: waiting_release)
  with r have o: "ring (sseq (slots b i)) = i" "unat (sseq (slots b i) - ?n) < 8192"
    by (auto simp: ring_ok_def)
  with w have "sseq (slots b i) - ?n \<noteq> 0"
    by auto
  then have "unat (sseq (slots b i) - ?n - 1) = unat (sseq (slots b i) - ?n) - 1"
    by (rule unat_pred)
  with o w show "ring (sseq (slots ((release (ring ?n) b)\<lparr>nextExpected := ?n + 1\<rparr>) i)) = i \<and>
      unat (sseq (slots ((release (ring ?n) b)\<lparr>nextExpected := ?n + 1\<rparr>) i) -
        nextExpected ((release (ring ?n) b)\<lparr>nextExpected := ?n + 1\<rparr>)) < Size"
    by (simp add: slots_release diff_diff_eq)
qed

section \<open>Draining\<close>

text \<open>
  \<open>drains b b' os\<close>: the outputs are in-order deliveries of the contiguous run that starts at
  the release point, which moves behind the last of them; the rest stays.
\<close>

definition drains :: "'a buffer \<Rightarrow> 'a buffer \<Rightarrow> 'a out list \<Rightarrow> bool" where
  "drains b b' os \<longleftrightarrow> ring_ok b' \<and> count_ok b' \<and> drained b' \<and> same_control b b' \<and>
     nextExpected b' = nextExpected b + of_nat (length os) \<and>
     os = map (\<lambda>v. Deliver v False) (in_order os) \<and>
     held b = out_vals os + held b' \<and>
     (\<forall>f. tagged f b \<longrightarrow> tagged f b' \<and>
        map f (in_order os) = map (\<lambda>k. nextExpected b + of_nat k) [0..<length os])"

lemma drain_stop:
  "ring_ok b \<Longrightarrow> ring (nextExpected b) \<notin> waiting b \<Longrightarrow> drainLocked b = (b, [])"
  by (subst drainLocked.simps) (auto simp: waiting_def)

lemma drain_step:
  assumes "ring_ok b" "ring (nextExpected b) \<in> waiting b"
  shows "drainLocked b =
    (let (b', os) = drainLocked ((release (ring (nextExpected b)) b)\<lparr>nextExpected := nextExpected b + 1\<rparr>)
     in (b', Deliver (sval (slots b (ring (nextExpected b)))) False # os))"
    and "sseq (slots b (ring (nextExpected b))) = nextExpected b"
proof -
  let ?n = "nextExpected b"
  have "ring (sseq (slots b (ring ?n))) = ring ?n" "unat (sseq (slots b (ring ?n)) - ?n) < 8192"
    using assms by (auto simp: ring_ok_def)
  then show q: "sseq (slots b (ring ?n)) = ?n"
    by (rule ring_inj [of _ _ ?n]) simp
  then show "drainLocked b =
    (let (b', os) = drainLocked ((release (ring ?n) b)\<lparr>nextExpected := ?n + 1\<rparr>)
     in (b', Deliver (sval (slots b (ring ?n))) False # os))"
    using assms(2) by (subst drainLocked.simps) (simp add: waiting_def Let_def)
qed

lemma drainLocked_drains:
  assumes "ring_ok b" "count_ok b" "drainLocked b = (b', os)"
  shows "drains b b' os"
  using assms
proof (induction "card (waiting b)" arbitrary: b b' os rule: less_induct)
  case less
  let ?n = "nextExpected b" and ?i = "ring (nextExpected b)"
  let ?b = "(release ?i b)\<lparr>nextExpected := ?n + 1\<rparr>"
  show ?case
  proof (cases "?i \<in> waiting b")
    case False
    with less.prems show ?thesis
      by (simp add: drain_stop drains_def drained_def same_control_def)
  next
    case True
    obtain bb oos where rec: "drainLocked ?b = (bb, oos)"
      by fastforce
    with less.prems drain_step(1) [OF less.prems(1) True]
    have b': "b' = bb" "os = Deliver (sval (slots b ?i)) False # oos"
      by simp_all
    have "card (waiting ?b) < card (waiting b)"
      using card_Diff1_less [OF finite_waiting True] by (simp add: waiting_release)
    then have d: "drains ?b bb oos"
      using less.hyps [OF _ _ _ rec] less.prems True ring_ok_advance count_release by auto
    have "held b = add_mset (sval (slots b ?i)) (held ?b)"
      using held_release [OF True] by simp
    moreover have "tagged f b \<Longrightarrow> tagged f ?b \<and> f (sval (slots b ?i)) = ?n" for f
      using True drain_step(2) [OF less.prems(1) True] by (simp add: tagged_release) (simp add: tagged_def)
    moreover have "map (\<lambda>k. ?n + of_nat k) [0..<Suc m] = ?n # map (\<lambda>k. ?n + 1 + of_nat k) [0..<m]" for m
      by (simp add: map_upt_Suc algebra_simps del: upt_Suc)
    ultimately show ?thesis
      using d by (auto simp: drains_def b' algebra_simps simp del: upt_Suc
          intro: same_control_trans [OF release_frame(3)])
  qed
qed

section \<open>Flushing\<close>

text \<open>
  Offsets from the release point: a flush visits them in increasing order, so what it
  delivers is in sequence order. \<open>before b i\<close>: no slot at an offset below \<open>i\<close> is occupied.
\<close>

definition before :: "'a buffer \<Rightarrow> nat \<Rightarrow> bool" where
  "before b i \<longleftrightarrow> (\<forall>k < i. ring (nextExpected b + of_nat k) \<notin> waiting b)"

definition offset :: "'a buffer \<Rightarrow> nat \<Rightarrow> nat" where
  "offset b i = unat (sseq (slots b i) - nextExpected b)"

lemma waiting_offset:
  "ring_ok b \<Longrightarrow> i \<in> waiting b \<Longrightarrow>
     offset b i < 8192 \<and> ring (nextExpected b + of_nat (offset b i)) = i"
  by (auto simp: ring_ok_def offset_def)

lemma before_all_empty: "ring_ok b \<Longrightarrow> before b 8192 \<Longrightarrow> waiting b = {}"
  using waiting_offset [of b] unfolding before_def by (metis all_not_in_conv)

lemma slot_at_offset:
  assumes "ring_ok b" "k < 8192" "ring (nextExpected b + of_nat k) \<in> waiting b"
  shows "sseq (slots b (ring (nextExpected b + of_nat k))) = nextExpected b + of_nat k"
proof -
  have "unat (of_nat k :: u32) = k"
    using assms(2) by (simp add: unat_of_nat take_bit_nat_eq_self)
  then show ?thesis
    using assms by (intro ring_inj [of _ _ "nextExpected b"]) (auto simp: ring_ok_def)
qed

lemma before_release:
  assumes "before b k" "k < 8192"
  shows "before (release (ring (nextExpected b + of_nat k)) b) (Suc k)"
  using assms by (auto simp: before_def waiting_release less_Suc_eq)

lemma ring_ok_release: "ring_ok b \<Longrightarrow> i < 8192 \<Longrightarrow> ring_ok (release i b)"
  by (auto simp: ring_ok_def waiting_release slots_release)

definition flushes :: "nat \<Rightarrow> 'a buffer \<Rightarrow> 'a buffer \<Rightarrow> 'a out list \<Rightarrow> bool" where
  "flushes i b b' os \<longleftrightarrow> waiting b' = {} \<and> count_ok b' \<and> same_control b b' \<and>
     nextExpected b' = nextExpected b \<and> os = map (\<lambda>v. Deliver v False) (in_order os) \<and>
     held b = out_vals os \<and>
     (\<forall>f. tagged f b \<longrightarrow> (\<exists>ks. map f (in_order os) = map (\<lambda>k. nextExpected b + of_nat k) ks \<and>
        sorted_wrt (<) ks \<and> set ks \<subseteq> {i..<8192}))"

lemma count_pos: "count_ok b \<Longrightarrow> occupied b > 0 \<longleftrightarrow> waiting b \<noteq> {}"
  by (simp add: count_ok_def card_gt_0_iff)

lemma held_empty: "held b = {#} \<longleftrightarrow> waiting b = {}"
  by (simp add: held_def mset_set_empty_iff)

lemma flush_from_flushes:
  assumes "ring_ok b" "count_ok b" "before b i" "i \<le> 8192" "flush_from i b = (b', os)"
  shows "flushes i b b' os"
  using assms
proof (induction "8192 - i" arbitrary: i b b' os rule: less_induct)
  case less
  let ?j = "ring (nextExpected b + of_nat i)"
  show ?case
  proof (cases "i < 8192 \<and> occupied b > 0")
    case False
    with less.prems have "waiting b = {}"
      using before_all_empty count_pos by (metis le_neq_implies_less)
    with False less.prems show ?thesis
      by (subst (asm) flush_from.simps)
         (auto simp: flushes_def same_control_def held_def)
  next
    case True
    then have i: "i < 8192" by simp
    show ?thesis
    proof (cases "?j \<in> waiting b")
      case w: True
      obtain bb oos where rec: "flush_from (Suc i) (release ?j b) = (bb, oos)"
        by fastforce
      with less.prems True w have os: "b' = bb" "os = Deliver (sval (slots b ?j)) False # oos"
        by (subst (asm) flush_from.simps, simp add: waiting_def Let_def)+
      have f: "flushes (Suc i) (release ?j b) bb oos"
        using less.prems i w before_release [OF less.prems(3) i] ring_ok_release count_release
        by (intro less.hyps [OF _ _ _ _ _ rec]) auto
      have t: "tagged g b \<Longrightarrow> tagged g (release ?j b) \<and> g (sval (slots b ?j)) = nextExpected b + of_nat i" for g
        using w slot_at_offset [OF less.prems(1) i w] by (simp add: tagged_release) (simp add: tagged_def)
      have "\<exists>ks. map g (in_order os) = map (\<lambda>k. nextExpected b + of_nat k) ks \<and>
          sorted_wrt (<) ks \<and> set ks \<subseteq> {i..<8192}" if tg: "tagged g b" for g
      proof -
        obtain ks where "map g (in_order oos) = map (\<lambda>k. nextExpected b + of_nat k) ks"
            "sorted_wrt (<) ks" "set ks \<subseteq> {Suc i..<8192}"
          using f t [OF tg] by (auto simp: flushes_def)
        then show ?thesis
          using t [OF tg] i by (intro exI [of _ "i # ks"]) (auto simp: os)
      qed
      then show ?thesis
        using f held_release [OF w] unfolding flushes_def os
        by (auto intro: same_control_trans [OF release_frame(2)])
    next
      case w: False
      with less.prems True have rec: "flush_from (Suc i) b = (b', os)"
        by (subst (asm) flush_from.simps) (simp add: waiting_def Let_def)
      have "before b (Suc i)"
        using less.prems(3) w by (auto simp: before_def less_Suc_eq)
      then have f: "flushes (Suc i) b b' os"
        using less.prems i by (intro less.hyps [OF _ _ _ _ _ rec]) auto
      show ?thesis
        using f unfolding flushes_def by (fastforce intro: less_imp_le)
    qed
  qed
qed

lemma flushLocked_flushes:
  "ring_ok b \<Longrightarrow> count_ok b \<Longrightarrow> flushLocked b = (b', os) \<Longrightarrow> flushes 0 b b' os"
  by (rule flush_from_flushes) (auto simp: flushLocked_def before_def)

section \<open>Inserting\<close>

text \<open>Updates of the scalar fields leave the slots' invariants alone.\<close>

lemma waiting_scalar [simp]:
  "waiting (b\<lparr>farLate := x\<rparr>) = waiting b" "waiting (b\<lparr>timer := t\<rparr>) = waiting b"
  "waiting (b\<lparr>bstats := st\<rparr>) = waiting b" "waiting (b\<lparr>started := st'\<rparr>) = waiting b"
  "waiting (b\<lparr>hold := h\<rparr>) = waiting b" "waiting (armTimerLocked b) = waiting b"
  by (simp_all add: waiting_def armTimerLocked_def)

lemma slots_arm [simp]: "slots (armTimerLocked b) = slots b" "nextExpected (armTimerLocked b) = nextExpected b"
  "occupied (armTimerLocked b) = occupied b" "bstats (armTimerLocked b) = bstats b"
  "hold (armTimerLocked b) = hold b" "farLate (armTimerLocked b) = farLate b"
  "started (armTimerLocked b) = started b"
  by (simp_all add: armTimerLocked_def)

lemmas slot_preds = ring_ok_def count_ok_def drained_def held_def tagged_def

lemma scalar_frame [simp]:
  "ring_ok (b\<lparr>farLate := x\<rparr>) = ring_ok b" "ring_ok (b\<lparr>timer := t\<rparr>) = ring_ok b"
  "ring_ok (b\<lparr>bstats := st\<rparr>) = ring_ok b" "ring_ok (b\<lparr>started := st'\<rparr>) = ring_ok b"
  "ring_ok (b\<lparr>hold := h\<rparr>) = ring_ok b" "ring_ok (armTimerLocked b) = ring_ok b"
  "count_ok (b\<lparr>farLate := x\<rparr>) = count_ok b" "count_ok (b\<lparr>timer := t\<rparr>) = count_ok b"
  "count_ok (b\<lparr>bstats := st\<rparr>) = count_ok b" "count_ok (b\<lparr>started := st'\<rparr>) = count_ok b"
  "count_ok (b\<lparr>hold := h\<rparr>) = count_ok b" "count_ok (armTimerLocked b) = count_ok b"
  "drained (b\<lparr>farLate := x\<rparr>) = drained b" "drained (b\<lparr>timer := t\<rparr>) = drained b"
  "drained (b\<lparr>bstats := st\<rparr>) = drained b" "drained (b\<lparr>hold := h\<rparr>) = drained b"
  "drained (armTimerLocked b) = drained b"
  "held (b\<lparr>farLate := x\<rparr>) = held b" "held (b\<lparr>timer := t\<rparr>) = held b"
  "held (b\<lparr>bstats := st\<rparr>) = held b" "held (b\<lparr>started := st'\<rparr>) = held b"
  "held (b\<lparr>hold := h\<rparr>) = held b" "held (armTimerLocked b) = held b"
  "tagged f (b\<lparr>farLate := x\<rparr>) = tagged f b" "tagged f (b\<lparr>timer := t\<rparr>) = tagged f b"
  "tagged f (b\<lparr>bstats := st\<rparr>) = tagged f b" "tagged f (b\<lparr>started := st'\<rparr>) = tagged f b"
  "tagged f (b\<lparr>hold := h\<rparr>) = tagged f b" "tagged f (armTimerLocked b) = tagged f b"
  by (simp_all add: slot_preds)

lemma empty_slots:
  "waiting b = {} \<Longrightarrow> ring_ok b" "waiting b = {} \<Longrightarrow> held b = {#}" "waiting b = {} \<Longrightarrow> tagged f b"
  "waiting b = {} \<Longrightarrow> drained b"
  by (simp_all add: slot_preds)

lemma insert_occupied:
  assumes "ring seq \<in> waiting b"
  shows "insertLocked now seq val b =
    (b\<lparr>bstats := (bstats b)\<lparr>Duplicates := Duplicates (bstats b) + 1\<rparr>\<rparr>, [Drop val])"
  using assms by (simp add: insertLocked_def waiting_def)

definition put_slot :: "timestamp \<Rightarrow> u32 \<Rightarrow> 'a \<Rightarrow> 'a buffer \<Rightarrow> 'a buffer" where
  "put_slot now seq val b =
     b\<lparr>slots := (slots b)(ring seq := \<lparr>occ = True, sseq = seq, arrival = now, sval = val\<rparr>),
       occupied := occupied b + 1\<rparr>"

lemma insert_free:
  "ring seq \<notin> waiting b \<Longrightarrow> insertLocked now seq val b = (put_slot now seq val b, [])"
  by (simp add: insertLocked_def put_slot_def waiting_def)

lemma put_slot_simps [simp]:
  "waiting (put_slot now seq val b) = insert (ring seq) (waiting b)"
  "nextExpected (put_slot now seq val b) = nextExpected b"
  "same_control b (put_slot now seq val b)"
  by (auto simp: put_slot_def waiting_def same_control_def)

lemma put_slot_ok:
  assumes "ring_ok b" "count_ok b" "ring seq \<notin> waiting b" "unat (seq - nextExpected b) < 8192"
  shows "ring_ok (put_slot now seq val b)" "count_ok (put_slot now seq val b)"
    "held (put_slot now seq val b) = add_mset val (held b)"
    "tagged f b \<Longrightarrow> f val = seq \<Longrightarrow> tagged f (put_slot now seq val b)"
proof -
  let ?b = "put_slot now seq val b"
  have s: "slots ?b (ring seq) = \<lparr>occ = True, sseq = seq, arrival = now, sval = val\<rparr>"
    "\<And>i. i \<in> waiting b \<Longrightarrow> slots ?b i = slots b i"
    using assms(3) by (auto simp: put_slot_def)
  show "ring_ok ?b"
    using assms s by (auto simp: ring_ok_def)
  show "count_ok ?b"
    using assms(2,3) by (simp add: count_ok_def) (simp add: put_slot_def)
  have "image_mset (\<lambda>i. sval (slots ?b i)) (mset_set (waiting b)) = held b"
    unfolding held_def by (rule image_mset_cong) (simp add: s)
  then show "held ?b = add_mset val (held b)"
    using assms(3) s by (simp add: held_def)
  show "tagged f ?b" if "tagged f b" "f val = seq"
    using that s by (auto simp: tagged_def)
qed

section \<open>In-order segments\<close>

text \<open>
  \<open>in_seq n ss n'\<close>: the release point moves from \<open>n\<close> to \<open>n'\<close> by delivering \<open>ss\<close>. Every number is
  ahead of the release point in serial-number arithmetic, by at most the four windows that
  \<^verbatim>\<open>Push\<close> accepts without a reset, and the release point moves right behind it.
\<close>

fun in_seq :: "u32 \<Rightarrow> u32 list \<Rightarrow> u32 \<Rightarrow> bool" where
  "in_seq n [] n' \<longleftrightarrow> n' = n"
| "in_seq n (x # xs) n' \<longleftrightarrow> unat (x - n) \<le> 4 * Size \<and> in_seq (x + 1) xs n'"

lemma in_seq_trans: "in_seq n ss m \<Longrightarrow> in_seq m ts l \<Longrightarrow> in_seq n (ss @ ts) l"
  by (induction n ss m rule: in_seq.induct) auto

lemma in_seq_jump:
  "in_seq m xs l \<Longrightarrow> xs \<noteq> [] \<Longrightarrow> hd xs = m \<Longrightarrow> unat (m - n) \<le> 4 * Size \<Longrightarrow> in_seq n xs l"
  by (cases xs) auto

lemma unat_of_nat_diff:
  assumes "i \<le> k" "k \<le> 32768"
  shows "unat (n + of_nat k - (n + of_nat i) :: u32) = k - i"
proof -
  have "n + of_nat k - (n + of_nat i) = (of_nat (k - i) :: u32)"
    using assms(1) by simp
  then show ?thesis
    using assms by (simp add: unat_of_nat take_bit_nat_eq_self del: of_nat_diff)
qed

lemma in_seq_run: "in_seq (n + of_nat i) (map (\<lambda>k. n + of_nat k) [i..<i + m]) (n + of_nat (i + m))"
proof (induction m arbitrary: i)
  case (Suc m)
  have "[i..<i + Suc m] = i # [Suc i..<Suc i + m]"
    by (simp add: upt_conv_Cons)
  then show ?case
    using Suc.IH [of "Suc i"] by (simp add: ac_simps)
qed simp

lemma in_seq_offsets:
  assumes "sorted_wrt (<) ks" "set ks \<subseteq> {i..<d}" "i \<le> d" "d \<le> 32768"
    and "in_seq (n + of_nat d) xs l" "xs \<noteq> []" "hd xs = n + of_nat d"
  shows "in_seq (n + of_nat i) (map (\<lambda>k. n + of_nat k) ks @ xs) l"
  using assms(1-3)
proof (induction ks arbitrary: i)
  case Nil
  then show ?case
    using assms(4-7) unat_of_nat_diff [of i d n] by (auto intro!: in_seq_jump [of "n + of_nat d"])
next
  case (Cons k ks)
  then have k: "i \<le> k" "k < d"
    by auto
  have "set ks \<subseteq> {Suc k..<d}"
    using Cons.prems by (auto simp: Suc_le_eq)
  then have "in_seq (n + of_nat (Suc k)) (map (\<lambda>k. n + of_nat k) ks @ xs) l"
    using Cons.prems k by (intro Cons.IH) auto
  with k show ?case
    using unat_of_nat_diff [of i k n] assms(4) by (simp add: ac_simps)
qed

lemma unat_minus_one_u32: "unat (- 1 :: u32) = 4294967295"
  by (simp add: unsigned_minus_1_eq_mask mask_eq_exp_minus_1)

lemma in_seq_successively:
  "in_seq (s + 1) xs n \<Longrightarrow>
     successively (\<lambda>x y. 1 \<le> unat (y - x) \<and> unat (y - x) \<le> 4 * Size + 1) (s # xs) \<and>
     n = last (s # xs) + 1"
proof (induction xs arbitrary: s)
  case (Cons x xs)
  have "x \<noteq> s"
    using Cons.prems by (auto simp: unat_minus_one_u32)
  then have "0 < unat (x - s)" "unat (x - (s + 1)) = unat (x - s) - 1"
    using unat_pred [of "x - s"] by (simp_all add: diff_diff_eq unat_gt_0)
  then show ?case
    using Cons.prems Cons.IH [of x] by auto
qed simp

lemma drains_in_seq:
  "drains b b' os \<Longrightarrow> tagged f b \<Longrightarrow> in_seq (nextExpected b) (map f (in_order os)) (nextExpected b')"
  using in_seq_run [of "nextExpected b" 0 "length os"] by (simp add: drains_def)

lemma drains_in_seq_skip:
  assumes "drains b b' os" "tagged f b" "os \<noteq> []" "unat (nextExpected b - n) \<le> 4 * Size"
  shows "in_seq n (map f (in_order os)) (nextExpected b')"
proof (rule in_seq_jump [OF drains_in_seq [OF assms(1,2)] _ _ assms(4)])
  have "map f (in_order os) = map (\<lambda>k. nextExpected b + of_nat k) [0..<length os]"
    using assms(1,2) by (simp add: drains_def)
  with assms(3) show "map f (in_order os) \<noteq> []" "hd (map f (in_order os)) = nextExpected b"
    by (simp_all add: hd_map)
qed

lemma flushes_in_seq:
  assumes "flushes 0 b b' os" "tagged f b" "8192 \<le> unat (s - nextExpected b)"
    and "unat (s - nextExpected b) \<le> 32768"
  shows "in_seq (nextExpected b) (map f (in_order os) @ [s]) (s + 1)"
proof -
  obtain ks where ks: "map f (in_order os) = map (\<lambda>k. nextExpected b + of_nat k) ks"
      "sorted_wrt (<) ks" "set ks \<subseteq> {0..<8192}"
    using assms by (auto simp: flushes_def)
  then show ?thesis
    using in_seq_offsets [of ks 0 "unat (s - nextExpected b)" "nextExpected b" "[s]" "s + 1"] assms(3,4)
    by fastforce
qed

section \<open>Push\<close>

definition hold_ok :: "'a buffer \<Rightarrow> bool" where
  "hold_ok b \<longleftrightarrow> 2 * Millisecond \<le> hold b \<and> hold b \<le> 250 * Millisecond"

text \<open>What one operation on the buffer guarantees, with \<open>vs\<close> the values it takes in.\<close>

definition step_ok :: "'a multiset \<Rightarrow> 'a buffer \<Rightarrow> 'a buffer \<Rightarrow> 'a out list \<Rightarrow> bool" where
  "step_ok vs b b' os \<longleftrightarrow> reorder_inv b' \<and> vs + held b = out_vals os + held b'"

definition order_ok :: "('a \<Rightarrow> u32) \<Rightarrow> 'a buffer \<Rightarrow> 'a buffer \<Rightarrow> 'a out list \<Rightarrow> bool" where
  "order_ok f b b' os \<longleftrightarrow> started b' \<and> tagged f b' \<and> (Resets (bstats b') = Resets (bstats b) \<longrightarrow>
     in_seq (nextExpected b) (map f (in_order os)) (nextExpected b'))"

lemma arm_timer: "0 < occupied b \<Longrightarrow> timer (armTimerLocked b) \<noteq> None"
  by (simp add: armTimerLocked_def)

lemma push_window_ok:
  assumes "ring_ok b" "count_ok b" "hold_ok b" "started b" "unat (seq - nextExpected b) < 8192"
    and p: "push_window now seq val b = (b', os)"
  shows "step_ok {#val#} b b' os" and "started b'" and "Resets (bstats b') = Resets (bstats b)"
    and "tagged f b \<Longrightarrow> f val = seq \<Longrightarrow>
      tagged f b' \<and> in_seq (nextExpected b) (map f (in_order os)) (nextExpected b')"
proof -
  let ?b0 = "b\<lparr>farLate := 0\<rparr>"
  obtain b1 o1 where i: "insertLocked now seq val ?b0 = (b1, o1)" by fastforce
  obtain b2 o2 where d: "drainLocked b1 = (b2, o2)" by fastforce
  have r: "b' = armTimerLocked b2" "os = o1 @ o2"
    using p i d by (simp_all add: push_window_def)
  have ok: "ring_ok b1 \<and> count_ok b1 \<and> same_control ?b0 b1 \<and> nextExpected b1 = nextExpected b \<and>
      in_order o1 = [] \<and> add_mset val (held b) = out_vals o1 + held b1 \<and>
      (\<forall>f. tagged f b \<and> f val = seq \<longrightarrow> tagged f b1)"
  proof (cases "ring seq \<in> waiting b")
    case True
    then show ?thesis
      using i insert_occupied [of seq ?b0] assms(1,2) by (auto simp: same_control_def)
  next
    case False
    then show ?thesis
      using i insert_free [of seq ?b0] put_slot_ok [where b = ?b0 and seq = seq and now = now and val = val] assms(1,2,5) by auto
  qed
  then have dr: "drains b1 b2 o2"
    using d by (intro drainLocked_drains) simp_all
  with ok have sc: "same_control ?b0 b2"
    by (auto simp: drains_def intro: same_control_trans)
  show "step_ok {#val#} b b' os"
    using dr ok sc assms(3,4) arm_timer [of b2]
    by (auto simp: step_ok_def reorder_inv_def r drains_def same_control_def hold_ok_def ac_simps)
  show "started b'" "Resets (bstats b') = Resets (bstats b)"
    using sc assms(4) by (simp_all add: r same_control_def)
  show "tagged f b' \<and> in_seq (nextExpected b) (map f (in_order os)) (nextExpected b')"
    if "tagged f b" "f val = seq"
    using that ok dr drains_in_seq [OF dr, of f] by (auto simp: r drains_def)
qed

lemma reset_insert_drain:
  assumes "waiting b = {}" "count_ok b" "nextExpected b = seq"
    and i: "insertLocked now seq val b = (b1, o1)" and d: "drainLocked b1 = (b2, o2)"
  shows "waiting b2 = {}" "count_ok b2" "same_control b b2" "o1 = []" "o2 = [Deliver val False]"
proof -
  have b1: "b1 = put_slot now seq val b" "o1 = []"
    using i insert_free [of seq b] assms(1) by simp_all
  then have ok: "ring_ok b1" "count_ok b1"
    using put_slot_ok(1,2) [of b seq now val] assms(1-3) empty_slots(1) by auto
  have w: "waiting b1 = {ring seq}" and n: "nextExpected b1 = seq"
    using b1 assms by simp_all
  let ?b = "(release (ring seq) b1)\<lparr>nextExpected := seq + 1\<rparr>"
  have e: "waiting ?b = {}"
    using w by (simp add: waiting_release)
  have "drainLocked ?b = (?b, [])"
    using e empty_slots(1) [OF e] by (intro drain_stop) simp_all
  then have "drainLocked b1 = (?b, [Deliver (sval (slots b1 (ring seq))) False])"
    using drain_step(1) [OF ok(1)] w n by simp
  then have "b2 = ?b" "o2 = [Deliver val False]"
    using d b1 by (auto simp: put_slot_def)
  then show "waiting b2 = {}" "count_ok b2" "same_control b b2" "o1 = []" "o2 = [Deliver val False]"
    using e b1 count_release [of "ring seq" b1] ok w
    by (auto intro: same_control_trans [OF _ release_frame(3)])
qed

lemma push_far_ok:
  assumes "ring_ok b" "count_ok b" "drained b" "hold_ok b" "started b" "0 \<le> farLate b" "farLate b < 16"
    and t: "occupied b > 0 \<longrightarrow> timer b \<noteq> None"
    and p: "push_far now seq val b = (b', os)"
  shows "step_ok {#val#} b b' os" and "tagged f b \<Longrightarrow> order_ok f b b' os"
proof -
  let ?b0 = "b\<lparr>farLate := farLate b + 1\<rparr>"
  have "step_ok {#val#} b b' os \<and> (tagged f b \<longrightarrow> order_ok f b b' os)"
  proof (cases "farLate b + 1 < 16")
    case True
    then show ?thesis
      using p assms by (auto simp: push_far_def Let_def step_ok_def order_ok_def reorder_inv_def hold_ok_def)
  next
    case False
    obtain b1 o1 where fl: "flushLocked ?b0 = (b1, o1)" by fastforce
    then have f: "flushes 0 ?b0 b1 o1"
      using assms(1,2) by (intro flushLocked_flushes) simp_all
    let ?b1 = "b1\<lparr>nextExpected := seq, farLate := 0,
        bstats := (bstats b1)\<lparr>Resets := Resets (bstats b1) + 1\<rparr>\<rparr>"
    obtain b2 o2 where i: "insertLocked now seq val ?b1 = (b2, o2)" by fastforce
    obtain b3 o3 where d: "drainLocked b2 = (b3, o3)" by fastforce
    have r: "b' = b3" "os = o1 @ o2 @ o3"
      using p False fl i d by (simp_all add: push_far_def Let_def resetLocked_def)
    have e: "waiting ?b1 = {}" "count_ok ?b1"
      using f by (simp_all add: flushes_def)
    note rid = reset_insert_drain [OF e _ i d, simplified]
    have "Resets (bstats b3) = Resets (bstats b) + 1"
      using rid(3) f by (simp add: same_control_def flushes_def)
    moreover have "occupied b3 = 0"
      using rid(1,2) by (simp add: count_ok_def)
    ultimately show ?thesis
      using rid f assms(4,5) empty_slots [of b3]
      by (auto simp: step_ok_def order_ok_def reorder_inv_def hold_ok_def r flushes_def same_control_def)
  qed
  then show "step_ok {#val#} b b' os" "tagged f b \<Longrightarrow> order_ok f b b' os"
    by simp_all
qed

text \<open>The guard of \<^verbatim>\<open>Push\<close> reads the distance as a signed number.\<close>

lemma sint_unat_u32: "0 \<le> sint x \<Longrightarrow> sint x = int (unat x)" for x :: u32
  using uint_sint [of x] sint_range_size [of x] by (simp add: take_bit_int_eq_self word_size)

definition start :: "u32 \<Rightarrow> 'a buffer \<Rightarrow> 'a buffer" where
  "start seq b = (if \<not> started b then b\<lparr>started := True, nextExpected := seq\<rparr> else b)"

lemma start_ok:
  assumes "reorder_inv b"
  shows "ring_ok (start seq b)" "count_ok (start seq b)" "drained (start seq b)"
    "started (start seq b)" "held (start seq b) = held b" "tagged f (start seq b) = tagged f b"
    "bstats (start seq b) = bstats b" "hold_ok (start seq b)"
    "0 \<le> farLate (start seq b)" "farLate (start seq b) < 16"
    "occupied (start seq b) > 0 \<longrightarrow> timer (start seq b) \<noteq> None"
proof -
  have e: "\<not> started b \<Longrightarrow> waiting b = {}"
    using assms count_pos [of b] by (auto simp: reorder_inv_def)
  show "ring_ok (start seq b)" "drained (start seq b)"
    using assms e by (auto simp: start_def reorder_inv_def empty_slots)
qed (use assms in \<open>auto simp: start_def reorder_inv_def hold_ok_def\<close>)

lemma push_overflow_ok:
  assumes "ring_ok b" "count_ok b" "hold_ok b" "started b" "8192 \<le> unat (seq - nextExpected b)"
    and far: "unat (seq - nextExpected b) \<le> 32768"
    and fl: "flushLocked (b\<lparr>bstats := (bstats b)\<lparr>Overflows := n\<rparr>\<rparr>) = (b1, o1)"
    and w: "push_window now seq val (b1\<lparr>nextExpected := seq\<rparr>) = (b2, o2)"
  shows "step_ok {#val#} b b2 (o1 @ o2)"
    and "tagged f b \<Longrightarrow> f val = seq \<Longrightarrow> order_ok f b b2 (o1 @ o2)"
proof -
  let ?ov = "b\<lparr>bstats := (bstats b)\<lparr>Overflows := n\<rparr>\<rparr>" and ?b1 = "b1\<lparr>nextExpected := seq\<rparr>"
  have f: "flushes 0 ?ov b1 o1"
    using fl assms(1,2) by (intro flushLocked_flushes) simp_all
  then have e: "waiting ?b1 = {}" "count_ok ?b1" "hold_ok ?b1" "started ?b1"
    using assms(3,4) by (auto simp: flushes_def same_control_def hold_ok_def)
  note pw = push_window_ok [OF empty_slots(1) [OF e(1)] e(2-4) _ w, simplified]
  show "step_ok {#val#} b b2 (o1 @ o2)"
    using pw(1) f empty_slots(2) [OF e(1)] by (simp add: step_ok_def flushes_def)
  have o2: "in_order o2 = [val]" "nextExpected b2 = seq + 1" if "f val = seq"
  proof -
    obtain b3 o3 b4 o4 where i: "insertLocked now seq val (?b1\<lparr>farLate := 0\<rparr>) = (b3, o3)"
        "drainLocked b3 = (b4, o4)"
      by (metis surj_pair)
    with w have "o2 = o3 @ o4"
      by (simp add: push_window_def)
    then show "in_order o2 = [val]"
      using reset_insert_drain [OF _ _ _ i] e by simp
    then show "nextExpected b2 = seq + 1"
      using pw(4) [of f] that empty_slots(3) [of b1 f] e(1) by simp
  qed
  show "order_ok f b b2 (o1 @ o2)" if "tagged f b" "f val = seq"
    using that o2 pw(2,3) pw(4) [of f] empty_slots(3) [of b1 f] e(1) f assms(5) far
      flushes_in_seq [OF f, of f seq]
    by (auto simp: order_ok_def flushes_def same_control_def)
qed

lemma Push_ok:
  assumes inv: "reorder_inv b" and p: "Push now seq val b = (b', os)"
  shows "step_ok {#val#} b b' os"
    and "tagged f b \<Longrightarrow> f val = seq \<Longrightarrow> started b \<Longrightarrow> order_ok f b b' os"
proof -
  let ?b = "start seq b" and ?d = "sint (seq - nextExpected (start seq b))"
  note s = start_ok [OF inv, where seq = seq]
  have "step_ok {#val#} ?b b' os \<and> (tagged f ?b \<and> f val = seq \<longrightarrow> order_ok f ?b b' os)"
  proof -
    consider (far) "?d < - 8192 \<or> ?d > 32768" | (late) "- 8192 \<le> ?d" "?d < 0"
      | (over) "8192 \<le> ?d" "?d \<le> 32768" | (window) "0 \<le> ?d" "?d < 8192"
      by linarith
    then show ?thesis
    proof cases
      case far
      then have "push_far now seq val ?b = (b', os)"
        using p by (auto simp: Push_def Let_def start_def)
      from push_far_ok [OF s(1-3,8,4,9-11) this] show ?thesis by blast
    next
      case late
      then have "b' = ?b\<lparr>bstats := (bstats ?b)\<lparr>Late := Late (bstats ?b) + 1\<rparr>\<rparr>" "os = [Deliver val True]"
        using p by (auto simp: Push_def Let_def start_def)
      then show ?thesis
        using s by (auto simp: step_ok_def order_ok_def reorder_inv_def hold_ok_def)
    next
      case window
      then have w: "push_window now seq val ?b = (b', os)"
        using p by (auto simp: Push_def Let_def start_def)
      have "unat (seq - nextExpected ?b) < 8192"
        using window sint_unat_u32 [of "seq - nextExpected ?b"] by linarith
      from push_window_ok [OF s(1,2,8,4) this w] show ?thesis
        by (auto simp: order_ok_def)
    next
      case over
      let ?ov = "?b\<lparr>bstats := (bstats ?b)\<lparr>Overflows := Overflows (bstats ?b) + 1\<rparr>\<rparr>"
      obtain b1 o1 where fl: "flushLocked ?ov = (b1, o1)" by fastforce
      obtain b2 o2 where w: "push_window now seq val (b1\<lparr>nextExpected := seq\<rparr>) = (b2, o2)" by fastforce
      have r: "b' = b2" "os = o1 @ o2"
        using over p fl w by (auto simp: Push_def Let_def start_def)
      have "int 8192 \<le> int (unat (seq - nextExpected ?b))"
        using over sint_unat_u32 [of "seq - nextExpected ?b"] by linarith
      then have "8192 \<le> unat (seq - nextExpected ?b)"
        by (simp only: of_nat_le_iff)
      moreover have "int (unat (seq - nextExpected ?b)) \<le> int 32768"
        using over sint_unat_u32 [of "seq - nextExpected ?b"] by linarith
      then have "unat (seq - nextExpected ?b) \<le> 32768"
        by (simp only: of_nat_le_iff)
      ultimately show ?thesis
        using push_overflow_ok [OF s(1,2,8,4) _ _ fl w] r by blast
    qed
  qed
  then show "step_ok {#val#} b b' os"
      "tagged f b \<Longrightarrow> f val = seq \<Longrightarrow> started b \<Longrightarrow> order_ok f b b' os"
    using s(5-7) by (auto simp: step_ok_def order_ok_def start_def)
qed

section \<open>Expiry\<close>

lemma first_waiting_cases:
  assumes "before b i" "i \<le> 8192"
  shows "(first_waiting i b = None \<and> before b 8192) \<or>
    (\<exists>k < 8192. before b k \<and> ring (nextExpected b + of_nat k) \<in> waiting b \<and>
       first_waiting i b = Some (slots b (ring (nextExpected b + of_nat k))))"
  using assms
proof (induction "8192 - i" arbitrary: i rule: less_induct)
  case less
  let ?j = "ring (nextExpected b + of_nat i)"
  consider (stop) "i = 8192" | (hit) "i < 8192" "?j \<in> waiting b" | (miss) "i < 8192" "?j \<notin> waiting b"
    using less.prems(2) by linarith
  then show ?case
  proof cases
    case stop
    then show ?thesis using less.prems(1) by (simp add: first_waiting.simps [of 8192])
  next
    case hit
    then show ?thesis
      using less.prems(1) by (simp add: first_waiting.simps [of i] waiting_def Let_def) blast
  next
    case miss
    then have "before b (Suc i)"
      using less.prems(1) by (auto simp: before_def less_Suc_eq)
    then show ?thesis
      using less.hyps [of "Suc i"] miss by (simp add: first_waiting.simps [of i] waiting_def Let_def)
  qed
qed

lemma before_offset:
  "ring_ok b \<Longrightarrow> before b k \<Longrightarrow> i \<in> waiting b \<Longrightarrow> k \<le> offset b i"
  using waiting_offset [of b i] unfolding before_def by (metis not_le)

lemma ring_ok_skip:
  assumes "ring_ok b" "before b k" "k < 8192"
  shows "ring_ok (b\<lparr>nextExpected := nextExpected b + of_nat k\<rparr>)"
  unfolding ring_ok_def
proof
  fix i
  assume "i \<in> waiting (b\<lparr>nextExpected := nextExpected b + of_nat k\<rparr>)"
  then have i: "i \<in> waiting b" by simp
  let ?s = "sseq (slots b i) - nextExpected b"
  have k: "unat (of_nat k :: u32) = k"
    using assms(3) by (simp add: unat_of_nat take_bit_nat_eq_self)
  have "k \<le> unat ?s" "unat ?s < 8192"
    using before_offset [OF assms(1,2) i] waiting_offset [OF assms(1) i] by (simp_all add: offset_def)
  moreover from this have "unat (?s - of_nat k) = unat ?s - k"
    using k by (subst unat_sub) (simp_all add: word_le_nat_alt)
  ultimately show "ring (sseq (slots (b\<lparr>nextExpected := nextExpected b + of_nat k\<rparr>) i)) = i \<and>
      unat (sseq (slots (b\<lparr>nextExpected := nextExpected b + of_nat k\<rparr>) i) -
        nextExpected (b\<lparr>nextExpected := nextExpected b + of_nat k\<rparr>)) < Size"
    using assms(1) i by (simp add: ring_ok_def diff_diff_eq less_imp_diff_less)
qed

lemma size_held: "size (held b) = card (waiting b)"
  by (simp add: held_def)

definition expires :: "timestamp \<Rightarrow> 'a buffer \<Rightarrow> 'a buffer \<Rightarrow> 'a out list \<Rightarrow> bool" where
  "expires now b b' os \<longleftrightarrow> ring_ok b' \<and> count_ok b' \<and> drained b' \<and> same_control b b' \<and>
     os = map (\<lambda>v. Deliver v False) (in_order os) \<and> held b = out_vals os + held b' \<and>
     (\<forall>f. tagged f b \<longrightarrow> tagged f b' \<and>
        in_seq (nextExpected b) (map f (in_order os)) (nextExpected b')) \<and>
     (waiting b' \<noteq> {} \<longrightarrow> (\<exists>s. first_waiting 0 b' = Some s \<and> time_sub now (arrival s) < hold b'))"

lemma expires_trans:
  assumes "same_control b b1" "held b = out_vals o1 + held b1" "expires now b1 b2 o2"
    and "o1 = map (\<lambda>v. Deliver v False) (in_order o1)"
    and "\<And>f. tagged f b \<Longrightarrow> tagged f b1 \<and>
      in_seq (nextExpected b) (map f (in_order o1)) (nextExpected b1)"
  shows "expires now b b2 (o1 @ o2)"
proof -
  have "tagged f b2 \<and> in_seq (nextExpected b) (map f (in_order (o1 @ o2))) (nextExpected b2)"
    if "tagged f b" for f
    using assms(5) [OF that] assms(3) in_seq_trans by (fastforce simp: expires_def)
  moreover have "same_control b b2"
    using assms(1,3) same_control_trans by (auto simp: expires_def)
  moreover have "o1 @ o2 = map (\<lambda>v. Deliver v False) (in_order (o1 @ o2))"
    using assms(3,4) unfolding expires_def in_order_append map_append by metis
  ultimately show ?thesis
    using assms(2,3) by (simp add: expires_def)
qed

lemma expire_round:
  assumes "ring_ok b" "count_ok b" "k < 8192" "before b k"
    and w: "ring (nextExpected b + of_nat k) \<in> waiting b"
    and d: "drainLocked (b\<lparr>bstats := st, nextExpected := nextExpected b + of_nat k\<rparr>) = (b', os)"
  shows "drains (b\<lparr>bstats := st, nextExpected := nextExpected b + of_nat k\<rparr>) b' os"
    and "card (waiting b') < card (waiting b)"
    and "tagged f b \<Longrightarrow> in_seq (nextExpected b) (map f (in_order os)) (nextExpected b')"
proof -
  let ?b = "b\<lparr>bstats := st, nextExpected := nextExpected b + of_nat k\<rparr>"
  have r: "ring_ok ?b"
    using ring_ok_skip [OF assms(1,4,3)] by (simp add: ring_ok_def)
  show dr: "drains ?b b' os"
    using r assms(2) d by (intro drainLocked_drains) simp_all
  have ne: "os \<noteq> []"
    using drain_step(1) [OF r] w d by (auto split: prod.splits)
  show "in_seq (nextExpected b) (map f (in_order os)) (nextExpected b')" if "tagged f b"
    using drains_in_seq_skip [OF dr _ ne, of f "nextExpected b"] that assms(3)
    by (simp add: tagged_def waiting_def unat_of_nat take_bit_nat_eq_self)
  from ne have "0 < size (out_vals os)"
    by (simp add: out_vals_def)
  moreover have "size (held b) = size (out_vals os) + size (held b')"
    using dr by (simp add: drains_def)
  ultimately show "card (waiting b') < card (waiting b)"
    by (simp add: size_held)
qed

lemma expireLocked_total:
  assumes "ring_ok b" "count_ok b" "drained b"
  shows "\<exists>b' os. expireLocked now b = Some (b', os) \<and> expires now b b' os"
  using assms
proof (induction "card (waiting b)" arbitrary: b rule: less_induct)
  case less
  show ?case
  proof (cases "waiting b = {}")
    case True
    then have "\<not> occupied b > 0"
      using less.prems count_pos by blast
    then show ?thesis
      using less.prems True by (subst expireLocked.simps) (simp add: expires_def same_control_def)
  next
    case False
    then have pos: "occupied b > 0"
      using less.prems count_pos by blast
    have "\<not> before b 8192"
      using False less.prems before_all_empty by blast
    then obtain k where k: "k < 8192" "before b k" "ring (nextExpected b + of_nat k) \<in> waiting b"
        and fw: "first_waiting 0 b = Some (slots b (ring (nextExpected b + of_nat k)))"
      using first_waiting_cases [of b 0] by (auto simp: before_def)
    let ?s = "slots b (ring (nextExpected b + of_nat k))"
    note q = slot_at_offset [OF less.prems(1) k(1,3)]
    show ?thesis
    proof (cases "time_sub now (arrival ?s) < hold b")
      case True
      then show ?thesis
        using less.prems pos fw
        by (subst expireLocked.simps) (simp add: expires_def same_control_def)
    next
      case old: False
      let ?st = "(bstats b)\<lparr>TimedOut := TimedOut (bstats b) + 1\<rparr>"
      let ?b = "b\<lparr>bstats := ?st, nextExpected := nextExpected b + of_nat k\<rparr>"
      obtain b1 o1 where d: "drainLocked ?b = (b1, o1)" by fastforce
      note rd = expire_round [OF less.prems(1,2) k(1,2,3) d]
      then obtain b2 o2 where rec: "expireLocked now b1 = Some (b2, o2)" "expires now b1 b2 o2"
        using less.hyps [of b1] by (auto simp: drains_def)
      have "expireLocked now b = Some (b2, o1 @ o2)"
        using pos fw old d rec(1) q by (subst expireLocked.simps) (simp add: Let_def)
      moreover have "expires now b b2 (o1 @ o2)"
      proof (rule expires_trans [OF _ _ rec(2)])
        show "same_control b b1" "held b = out_vals o1 + held b1"
          using rd(1) by (simp_all add: drains_def same_control_def)
        show "o1 = map (\<lambda>v. Deliver v False) (in_order o1)"
          using rd(1) by (simp add: drains_def)
        show "tagged f b1 \<and> in_seq (nextExpected b) (map f (in_order o1)) (nextExpected b1)"
          if "tagged f b" for f
          using that rd(1) rd(3) [of f] by (simp add: drains_def)
      qed
      ultimately show ?thesis by blast
    qed
  qed
qed

section \<open>The buffer as a component\<close>

text \<open>Every entry point of the buffer, as the engine, the timer and the tests call it.\<close>

datatype 'a reorder_op =
    OpPush timestamp u32 'a
  | OpTimer timestamp
  | OpTick timestamp
  | OpSetHold duration
  | OpClose

fun reorder_step :: "'a::zero reorder_op \<Rightarrow> 'a buffer \<Rightarrow> ('a buffer \<times> 'a out list) option" where
  "reorder_step (OpPush now seq val) b = Some (Push now seq val b)"
| "reorder_step (OpTimer now) b = onTimer now b"
| "reorder_step (OpTick now) b = Tick now b"
| "reorder_step (OpSetHold d) b = Some (SetHold d b, [])"
| "reorder_step OpClose b = Some (Close b)"

fun op_takes :: "'a reorder_op \<Rightarrow> 'a multiset" where
  "op_takes (OpPush now seq val) = {#val#}"
| "op_takes _ = {#}"

lemma New_inv: "reorder_inv New"
  by (simp add: reorder_inv_def New_def slot_preds waiting_def DefaultHold_def time_units)

lemma expires_step_ok:
  assumes "reorder_inv b" "expires now (b\<lparr>timer := t\<rparr>) b' os"
    and "occupied b' > 0 \<Longrightarrow> timer b'' \<noteq> None" and "b'' = b'\<lparr>timer := t'\<rparr>"
  shows "step_ok {#} b b'' os"
proof -
  have "occupied b' = 0" if "\<not> started b"
  proof -
    have "held b = {#}"
      using assms(1) that count_pos [of b] by (auto simp: reorder_inv_def empty_slots)
    then have "card (waiting b') = 0"
      using assms(2) by (simp add: expires_def flip: size_held)
    then show ?thesis
      using assms(2) by (simp add: expires_def count_ok_def)
  qed
  with assms show ?thesis
    by (auto simp: step_ok_def expires_def reorder_inv_def same_control_def)
qed

lemma Tick_ok:
  assumes "reorder_inv b"
  shows "\<exists>b' os. Tick now b = Some (b', os) \<and> step_ok {#} b b' os \<and> expires now b b' os"
proof -
  obtain b' os where e: "expireLocked now b = Some (b', os)" "expires now b b' os"
    using expireLocked_total [of b now] assms by (auto simp: reorder_inv_def)
  have "timer b' = timer b"
    using e(2) by (simp add: expires_def same_control_def)
  moreover have "occupied b' > 0 \<Longrightarrow> occupied b > 0"
  proof -
    assume "occupied b' > 0"
    then have "held b' \<noteq> {#}"
      using e(2) count_pos [of b'] by (auto simp: expires_def held_empty)
    then have "held b \<noteq> {#}"
      using e(2) by (auto simp: expires_def)
    then show ?thesis
      using assms count_pos [of b] by (auto simp: reorder_inv_def held_empty)
  qed
  ultimately have "step_ok {#} b b' os"
    using assms e(2)
    by (intro expires_step_ok [where t = "timer b" and t' = "timer b" and b' = b'])
       (auto simp: reorder_inv_def)
  with e show ?thesis by (auto simp: Tick_def)
qed

lemma onTimer_ok:
  assumes "reorder_inv b"
  shows "\<exists>b1 b' os. onTimer now b = Some (b', os) \<and> step_ok {#} b b' os \<and>
    expires now (b\<lparr>timer := None\<rparr>) b1 os \<and>
    b' = b1\<lparr>timer := (if occupied b1 > 0 then Some (hold b1) else None)\<rparr>"
proof -
  obtain b1 os where e: "expireLocked now (b\<lparr>timer := None\<rparr>) = Some (b1, os)"
      "expires now (b\<lparr>timer := None\<rparr>) b1 os"
    using expireLocked_total [of "b\<lparr>timer := None\<rparr>" now] assms by (auto simp: reorder_inv_def)
  let ?b = "b1\<lparr>timer := (if occupied b1 > 0 then Some (hold b1) else None)\<rparr>"
  have "timer b1 = None"
    using e(2) by (simp add: expires_def same_control_def)
  then have "onTimer now b = Some (?b, os)"
    using e(1) by (simp add: onTimer_def)
  moreover have "step_ok {#} b ?b os"
    by (rule expires_step_ok [OF assms e(2) _ refl]) simp
  ultimately show ?thesis using e(2) by blast
qed

lemma Close_ok:
  assumes "reorder_inv b" "Close b = (b', os)"
  shows "step_ok {#} b b' os" "held b' = {#}" "timer b' = None"
proof -
  have f: "flushes 0 (b\<lparr>timer := None\<rparr>) b' os"
    using assms by (intro flushLocked_flushes) (simp_all add: reorder_inv_def Close_def)
  moreover have "occupied b' = 0"
    using f by (simp add: flushes_def count_ok_def)
  ultimately show "step_ok {#} b b' os" "held b' = {#}" "timer b' = None"
    using assms(1) empty_slots [of b']
    by (auto simp: step_ok_def reorder_inv_def flushes_def same_control_def)
qed

lemma SetHold_ok: "reorder_inv b \<Longrightarrow> step_ok {#} b (SetHold d b) []"
  by (auto simp: step_ok_def reorder_inv_def SetHold_def Let_def time_units)

lemma reorder_step_ok:
  assumes "reorder_inv b"
  shows "\<exists>b' os. reorder_step x b = Some (b', os) \<and> step_ok (op_takes x) b b' os"
proof (cases x)
  case (OpPush now seq val)
  obtain b' os where "Push now seq val b = (b', os)" by fastforce
  with Push_ok(1) [OF assms this] OpPush show ?thesis by simp
next
  case (OpTimer now)
  with onTimer_ok [OF assms, of now] show ?thesis by auto
next
  case (OpTick now)
  with Tick_ok [OF assms, of now] show ?thesis by auto
next
  case (OpSetHold d)
  with SetHold_ok [OF assms] show ?thesis by simp
next
  case OpClose
  obtain b' os where "Close b = (b', os)" by fastforce
  with Close_ok(1) [OF assms this] OpClose show ?thesis by simp
qed

interpretation reorder: conserving reorder_step "\<lambda>_. True" reorder_inv held op_takes out_vals
proof
  fix b :: "'a buffer" and x b' os
  assume inv: "reorder_inv b"
  show "\<exists>b' os. reorder_step x b = Some (b', os)"
    using reorder_step_ok [OF inv, of x] by blast
  assume "reorder_step x b = Some (b', os)"
  then have "step_ok (op_takes x) b b' os"
    using reorder_step_ok [OF inv, of x] by auto
  then show "reorder_inv b'" "op_takes x + held b = out_vals os + held b'"
    by (simp_all add: step_ok_def)
qed simp_all

section \<open>Properties\<close>

text \<open>
  One step of a stream: an operation other than \<^verbatim>\<open>Close\<close> that does not reset the buffer.
  \<open>op_tagged f\<close>: a pushed value carries the sequence number it is pushed with.
\<close>

definition quiet_step :: "'a::zero reorder_op \<Rightarrow> 'a buffer \<Rightarrow> ('a buffer \<times> 'a out list) option" where
  "quiet_step x b =
     (case x of OpClose \<Rightarrow> None
      | _ \<Rightarrow> Option.bind (reorder_step x b) (\<lambda>(b', os).
          if Resets (bstats b') = Resets (bstats b) then Some (b', os) else None))"

fun op_tagged :: "('a \<Rightarrow> u32) \<Rightarrow> 'a reorder_op \<Rightarrow> bool" where
  "op_tagged f (OpPush now seq val) = (f val = seq)"
| "op_tagged f _ = True"

lemma quiet_step_order:
  assumes "quiet_step x b = Some (b', os)" "reorder_inv b" "started b" "tagged f b" "op_tagged f x"
  shows "reorder_inv b' \<and> started b' \<and> tagged f b' \<and>
    in_seq (nextExpected b) (map f (in_order os)) (nextExpected b')"
proof -
  have st: "reorder_step x b = Some (b', os)" and q: "Resets (bstats b') = Resets (bstats b)"
    using assms(1) by (auto simp: quiet_step_def split: reorder_op.splits bind_splits if_splits prod.splits)
  have inv: "reorder_inv b'"
    using reorder.step_inv [OF assms(2) TrueI st] .
  have "order_ok f b b' os"
  proof (cases x)
    case (OpPush now seq val)
    with Push_ok(2) [OF assms(2), of now seq val] st assms show ?thesis by simp
  next
    case (OpTimer now)
    with onTimer_ok [OF assms(2), of now] st assms(3,4) show ?thesis
      by (auto simp: order_ok_def expires_def same_control_def)
  next
    case (OpTick now)
    with Tick_ok [OF assms(2), of now] st assms(3,4) show ?thesis
      by (auto simp: order_ok_def expires_def same_control_def)
  next
    case (OpSetHold d)
    with st assms(3,4) show ?thesis
      by (auto simp: order_ok_def SetHold_def Let_def)
  next
    case OpClose
    with assms(1) show ?thesis by (simp add: quiet_step_def)
  qed
  with inv q show ?thesis by (simp add: order_ok_def)
qed

lemma quiet_run_order:
  "run_ops quiet_step xs b = Some (b', os) \<Longrightarrow> reorder_inv b \<Longrightarrow> started b \<Longrightarrow> tagged f b \<Longrightarrow>
   list_all (op_tagged f) xs \<Longrightarrow> in_seq (nextExpected b) (map f (in_order os)) (nextExpected b')"
proof (induction xs arbitrary: b b' os)
  case Nil
  then show ?case by simp
next
  case (Cons x xs)
  obtain b1 o1 o2 where 1: "quiet_step x b = Some (b1, o1)" "run_ops quiet_step xs b1 = Some (b', o2)"
      "os = o1 @ o2"
    using Cons.prems(1) by (auto split: bind_splits)
  note s = quiet_step_order [OF 1(1) Cons.prems(2-4)]
  then have "in_seq (nextExpected b1) (map f (in_order o2)) (nextExpected b')"
    using Cons.prems(5) by (intro Cons.IH [OF 1(2)]) auto
  with s Cons.prems(5) show ?case
    by (auto simp: 1(3) intro: in_seq_trans)
qed

lemma sint_small_u32: "uint x < 8192 \<Longrightarrow> sint x = uint x" for x :: u32
  unfolding sint_uint by (rule signed_take_bit_int_eq_self) (simp_all add: order_trans [OF _ uint_ge_0])

lemma Push_inv: "reorder_inv b \<Longrightarrow> reorder_inv (fst (Push now seq val b))"
  using Push_ok(1) [of b now seq val, OF _ surjective_pairing] by (simp add: step_ok_def)

lemma started_New_inv:
  "farLate' \<in> {0..<16} \<Longrightarrow> reorder_inv (New\<lparr>started := True, farLate := farLate'\<rparr>)"
  by (simp add: reorder_inv_def New_def slot_preds waiting_def DefaultHold_def time_units)

lemma Push_in_window:
  "started b \<Longrightarrow> 0 \<le> sint (seq - nextExpected b) \<Longrightarrow> sint (seq - nextExpected b) < 8192 \<Longrightarrow>
     Push now seq val b = push_window now seq val b"
  by (simp add: Push_def Let_def)

lemma Push_window:
  assumes "started b" "unat (seq - nextExpected b) < 8192"
  shows "Push now seq val b = push_window now seq val b"
proof -
  have "int (unat (seq - nextExpected b)) < int 8192"
    using assms(2) by (simp only: of_nat_less_iff)
  then have u: "uint (seq - nextExpected b) < 8192"
    by (simp only: uint_nat of_nat_numeral)
  show ?thesis
    using assms(1) by (rule Push_in_window) (simp_all only: sint_small_u32 [OF u] u uint_ge_0)
qed

lemma first_waiting_timer: "first_waiting i (b\<lparr>timer := t\<rparr>) = first_waiting i b"
proof (induction "8192 - i" arbitrary: i rule: less_induct)
  case less
  then show ?case
    by (subst (1 2) first_waiting.simps) (simp add: Let_def)
qed

lemma started_of_waiting: "reorder_inv b \<Longrightarrow> i \<in> waiting b \<Longrightarrow> started b \<and> timer b \<noteq> None"
  using count_pos [of b] by (auto simp: reorder_inv_def)

lemma Push_next:
  assumes "reorder_inv b" "started b" "Push now (nextExpected b) val b = (b', os)"
  shows "\<exists>vs. os = Deliver val False # map (\<lambda>v. Deliver v False) vs \<and>
    nextExpected b' = nextExpected b + of_nat (length os)"
proof -
  let ?bz = "b\<lparr>farLate := 0\<rparr>" and ?n = "nextExpected b"
  let ?bp = "put_slot now ?n val ?bz"
  have free: "ring ?n \<notin> waiting ?bz"
    using assms(1) by (simp add: reorder_inv_def drained_def)
  have ok: "ring_ok ?bp" "count_ok ?bp"
    using put_slot_ok(1,2) [OF _ _ free, of now val] assms(1) by (simp_all add: reorder_inv_def)
  let ?br = "(release (ring ?n) ?bp)\<lparr>nextExpected := ?n + 1\<rparr>"
  obtain b2 oos where d: "drainLocked ?br = (b2, oos)" by fastforce
  have "drains ?br b2 oos"
    using ok ring_ok_advance [OF ok(1)] count_release [of "ring ?n" ?bp]
    by (intro drainLocked_drains [OF _ _ d]) simp_all
  then obtain vs where vs: "oos = map (\<lambda>v. Deliver v False) vs"
      and n: "nextExpected b2 = ?n + 1 + of_nat (length oos)"
    by (auto simp: drains_def)
  have sv: "sval (slots ?bp (ring ?n)) = val"
    by (simp add: put_slot_def)
  have "drainLocked ?bp = (b2, Deliver val False # oos)"
    using drain_step(1) [OF ok(1)] d sv by simp
  then have "b' = armTimerLocked b2" "os = Deliver val False # oos"
    using assms(2,3) insert_free [OF free, of now val]
    by (simp_all add: Push_window push_window_def Let_def)
  then show ?thesis
    using vs n by (auto simp: algebra_simps)
qed

text \<open>
  C7. The resequencing buffer neither loses nor invents a packet: from the new buffer, every
  sequence of pushes (any sequence numbers, any clock), timer callbacks, ticks, hold changes
  and closes returns (in particular the unbounded expiry loop ends), keeps the buffer's
  invariant, and the values pushed are exactly the values handed to \<^verbatim>\<open>deliver\<close> or \<^verbatim>\<open>drop\<close>
  plus the values still waiting in the ring.
\<close>

theorem reorder_conserves:
  "\<exists>b os. run_ops reorder_step ops New = Some (b, os) \<and> reorder_inv b \<and>
     sum_list (map op_takes ops) = out_vals os + held b"
proof -
  have "held (New :: 'a buffer) = {#}"
    by (simp add: held_def waiting_def New_def)
  then show ?thesis
    using reorder.run_conserves [OF New_inv, of ops] by (simp add: list.pred_True)
qed

text \<open>
  C9. In-order release: once the first packet \<open>s\<close> has set the release point, over any sequence
  of operations in which the buffer is neither reset nor closed, every packet delivered as
  in-order has a sequence number after that of the in-order packet before it, in the
  serial-number order that survives the 32-bit wrap: the step from one to the next is at
  least one and at most four windows and one. The release point is always right behind the
  last of them.
\<close>

theorem reorder_delivers_in_order:
  assumes "run_ops quiet_step ops (fst (Push t s v New)) = Some (b, os)"
    and "list_all (op_tagged f) ops"
  shows "successively (\<lambda>x y. 1 \<le> unat (y - x) \<and> unat (y - x) \<le> 4 * Size + 1)
       (s # map f (in_order os)) \<and>
     nextExpected b = last (s # map f (in_order os)) + 1"
proof -
  let ?b = "start s New :: 'a buffer"
  obtain b1 o1 where p: "Push t s v New = (b1, o1)" by fastforce
  have inv1: "reorder_inv b1"
    using Push_ok(1) [OF New_inv p] by (simp add: step_ok_def)
  have p2: "Push t (nextExpected ?b) v ?b = (b1, o1)"
    using p by (simp add: Push_def start_def New_def Let_def)
  have invs: "reorder_inv ?b"
    using start_ok [OF New_inv, where seq = s] by (auto simp: reorder_inv_def hold_ok_def start_def New_def)
  obtain vs where o1: "o1 = Deliver v False # map (\<lambda>v. Deliver v False) vs"
      "nextExpected b1 = nextExpected ?b + of_nat (length o1)"
    using Push_next [OF invs _ p2] by (auto simp: start_def New_def)
  have "add_mset v (held ?b) = out_vals o1 + held b1"
    using Push_ok(1) [OF invs p2] by (simp add: step_ok_def)
  moreover have "held ?b = {#}"
    by (simp add: held_def waiting_def New_def start_def)
  ultimately have "vs = []" "held b1 = {#}"
    by (auto simp: o1 out_vals_def)
  then have n: "nextExpected b1 = s + 1" and e: "waiting b1 = {}"
    using o1 by (simp_all add: start_def New_def held_empty)
  have "started b1"
    using Push_ok(2) [OF invs p2, of "\<lambda>_. s"] empty_slots(3) [of ?b]
    by (simp add: order_ok_def start_def New_def waiting_def)
  then have "in_seq (s + 1) (map f (in_order os)) (nextExpected b)"
    using quiet_run_order [OF _ inv1 _ empty_slots(3) [OF e], of ops b os f] assms p n by simp
  then show ?thesis
    by (rule in_seq_successively)
qed

theorem reorder_delivers_in_order_witness:
  "\<exists>b. run_ops quiet_step [OpPush 5 12 12, OpPush 6 9 9, OpPush 7 11 (11 :: u32)]
       (fst (Push 0 10 10 New)) =
       Some (b, [Deliver 9 True, Deliver 11 False, Deliver 12 False]) \<and>
     successively (\<lambda>x y. 1 \<le> unat (y - x) \<and> unat (y - x) \<le> 4 * Size + 1)
       (10 # [11, 12]) \<and>
     nextExpected b = 13"
proof -
  let ?ops = "[OpPush 5 12 12, OpPush 6 9 9, OpPush 7 11 (11 :: u32)]"
  have "map_option snd (run_ops quiet_step ?ops (fst (Push 0 10 10 New))) =
      Some [Deliver 9 True, Deliver 11 False, Deliver 12 False]"
    by code_simp
  then obtain b where r: "run_ops quiet_step ?ops (fst (Push 0 10 10 New)) =
      Some (b, [Deliver 9 True, Deliver 11 False, Deliver 12 False])"
    by auto
  show ?thesis
    using reorder_delivers_in_order [OF r, of id] r by simp
qed

text \<open>
  C33. The hold timer: from every state the buffer can reach, the timer callback returns, it
  makes in-order deliveries only (no straggler, no drop) and what it does not deliver stays
  in the ring. Afterwards, while a packet waits, the timer is armed again
  with the hold time and the first packet in sequence order has waited less than the hold
  time at the callback's clock; when nothing waits no timer is left behind.
\<close>

theorem onTimer_expires:
  "\<exists>b os b' os'. run_ops reorder_step ops New = Some (b, os) \<and> onTimer now b = Some (b', os') \<and>
     os' = map (\<lambda>v. Deliver v False) (in_order os') \<and> held b = out_vals os' + held b' \<and>
     (if occupied b' > 0
      then timer b' = Some (hold b') \<and>
        (\<exists>s. first_waiting 0 b' = Some s \<and> time_sub now (arrival s) < hold b')
      else timer b' = None)"
proof -
  obtain b os where b: "run_ops reorder_step ops New = Some (b, os)" "reorder_inv b"
    using reorder.run_conserves [OF New_inv, of ops] by (auto simp: list.pred_True)
  obtain b1 b' os' where t: "onTimer now b = Some (b', os')" "step_ok {#} b b' os'"
      "expires now (b\<lparr>timer := None\<rparr>) b1 os'"
      "b' = b1\<lparr>timer := (if occupied b1 > 0 then Some (hold b1) else None)\<rparr>"
    using onTimer_ok [OF b(2), of now] by blast
  have "first_waiting 0 b' = first_waiting 0 b1"
    by (simp add: t(4) first_waiting_timer)
  moreover have "occupied b1 > 0 \<Longrightarrow> \<exists>s. first_waiting 0 b1 = Some s \<and> time_sub now (arrival s) < hold b1"
    using t(3) count_pos [of b1] by (auto simp: expires_def)
  ultimately have "if occupied b' > 0
      then timer b' = Some (hold b') \<and>
        (\<exists>s. first_waiting 0 b' = Some s \<and> time_sub now (arrival s) < hold b')
      else timer b' = None"
    by (simp add: t(4) first_waiting_timer)
  moreover have "held b = out_vals os' + held b'"
    using t(2) by (simp add: step_ok_def)
  moreover have "os' = map (\<lambda>v. Deliver v False) (in_order os')"
    using t(3) by (simp add: expires_def)
  ultimately show ?thesis
    using b(1) t(1) by blast
qed

text \<open>
  A copy of a packet that is already waiting is dropped: from a state that satisfies the
  invariant, pushing a sequence number that sits in the ring only counts a duplicate, drops
  the new copy and clears the restart counter; nothing is delivered and no slot changes.
\<close>

theorem duplicate_copy_dropped:
  assumes "reorder_inv b" "i < Size" "occ (slots b i)"
  shows "Push now (sseq (slots b i)) val b =
    (b\<lparr>farLate := 0, bstats := (bstats b)\<lparr>Duplicates := Duplicates (bstats b) + 1\<rparr>\<rparr>, [Drop val])"
proof -
  let ?s = "sseq (slots b i)" and ?bz = "b\<lparr>farLate := 0\<rparr>"
  have w: "i \<in> waiting b"
    using assms by (simp add: waiting_def)
  then have r: "ring ?s = i" "unat (?s - nextExpected b) < 8192"
    using assms(1) by (auto simp: reorder_inv_def ring_ok_def)
  have st: "started b" "timer b \<noteq> None"
    using started_of_waiting [OF assms(1) w] by simp_all
  let ?bd = "?bz\<lparr>bstats := (bstats b)\<lparr>Duplicates := Duplicates (bstats b) + 1\<rparr>\<rparr>"
  have "insertLocked now ?s val ?bz = (?bd, [Drop val])"
    using insert_occupied [of ?s ?bz] w r(1) by simp
  moreover have "drainLocked ?bd = (?bd, [])"
    using assms(1) by (intro drain_stop) (simp_all add: reorder_inv_def drained_def)
  ultimately show ?thesis
    using st Push_window [OF st(1) r(2)] by (simp add: push_window_def armTimerLocked_def)
qed

theorem duplicate_copy_dropped_witness:
  "\<exists>b. b = fst (Push 5 12 (12 :: nat) (fst (Push 0 10 10 New))) \<and>
     Push 6 12 13 b = (b\<lparr>farLate := 0, bstats := (bstats b)\<lparr>Duplicates := Duplicates (bstats b) + 1\<rparr>\<rparr>,
       [Drop 13])"
proof -
  let ?b1 = "fst (Push 0 10 (10 :: nat) New)"
  let ?b = "fst (Push 5 12 12 ?b1)"
  have "reorder_inv ?b1"
    using Push_inv [OF New_inv] .
  then have inv: "reorder_inv ?b"
    by (rule Push_inv)
  have o: "occ (slots ?b 12)" and s: "sseq (slots ?b 12) = 12"
    by code_simp+
  show ?thesis
    using duplicate_copy_dropped [OF inv _ o, of 6 13] s by simp
qed

text \<open>
  The packet the buffer waits for is never held: pushing the expected sequence number
  delivers it at once, first, followed by the contiguous run behind it, all in order, and
  the release point moves past exactly the delivered packets.
\<close>

theorem expected_packet_delivered_at_once:
  assumes "reorder_inv b" "started b"
  shows "\<exists>b' vs. Push now (nextExpected b) val b =
      (b', Deliver val False # map (\<lambda>v. Deliver v False) vs) \<and>
    nextExpected b' = nextExpected b + 1 + of_nat (length vs) \<and>
    add_mset val (held b) = add_mset val (mset vs) + held b'"
proof -
  obtain b' os where p: "Push now (nextExpected b) val b = (b', os)" by fastforce
  obtain vs where vs: "os = Deliver val False # map (\<lambda>v. Deliver v False) vs"
      "nextExpected b' = nextExpected b + of_nat (length os)"
    using Push_next [OF assms p] by blast
  have "out_vals os = add_mset val (mset vs)"
    by (simp add: vs(1) out_vals_def multiset.map_comp comp_def flip: mset_map)
  moreover have "add_mset val (held b) = out_vals os + held b'"
    using Push_ok(1) [OF assms(1) p] by (simp add: step_ok_def)
  ultimately show ?thesis
    using p vs by (intro exI [of _ b'] exI [of _ vs]) (simp add: algebra_simps)
qed

theorem expected_packet_delivered_at_once_witness:
  "\<exists>b vs. Push 3 0 (7 :: nat) (New\<lparr>started := True, farLate := 0\<rparr>) =
       (b, Deliver 7 False # map (\<lambda>v. Deliver v False) vs) \<and> nextExpected b = 1 + of_nat (length vs)"
  using expected_packet_delivered_at_once [OF started_New_inv, of 0 3 7]
  by (fastforce simp: New_def)

text \<open>
  C39. The restart counter counts far packets that are not consecutive: when fifteen far
  packets have been counted, a straggler that the buffer accepts and delivers leaves the
  count as it is, and the next far packet resets the ring.
\<close>

theorem reset_despite_straggler:
  assumes "reorder_inv b" "started b" "farLate b = resetThreshold - 1"
    and "- 8192 \<le> sint (sg - nextExpected b)" "sint (sg - nextExpected b) < 0"
    and "sint (fr - nextExpected b) < - 8192 \<or> 32768 < sint (fr - nextExpected b)"
  shows "\<exists>b1 b2 os. Push t sg v b = (b1, [Deliver v True]) \<and> Push t' fr v' b1 = (b2, os) \<and>
    Resets (bstats b2) = Resets (bstats b) + 1 \<and> held b2 = {#}"
proof -
  let ?bs = "b\<lparr>bstats := (bstats b)\<lparr>Late := Late (bstats b) + 1\<rparr>\<rparr>"
  have s: "Push t sg v b = (?bs, [Deliver v True])"
    using assms(2,4,5) by (simp add: Push_def Let_def)
  have inv: "reorder_inv ?bs"
    using assms(1) by (simp add: reorder_inv_def)
  obtain b1 o1 where fl: "flushLocked (?bs\<lparr>farLate := 16\<rparr>) = (b1, o1)" by fastforce
  have f: "flushes 0 (?bs\<lparr>farLate := 16\<rparr>) b1 o1"
    using inv by (intro flushLocked_flushes [OF _ _ fl]) (simp_all add: reorder_inv_def)
  let ?br = "b1\<lparr>nextExpected := fr, farLate := 0, bstats := (bstats b1)\<lparr>Resets := Resets (bstats b1) + 1\<rparr>\<rparr>"
  obtain b2 o2 where i: "insertLocked t' fr v' ?br = (b2, o2)" by fastforce
  obtain b3 o3 where d: "drainLocked b2 = (b3, o3)" by fastforce
  have "Push t' fr v' ?bs = push_far t' fr v' ?bs"
    using assms(2,6) by (auto simp: Push_def Let_def)
  then have p: "Push t' fr v' ?bs = (b3, o1 @ o2 @ o3)"
    using fl i d assms(3) by (simp add: push_far_def resetLocked_def Let_def)
  have e: "waiting ?br = {}" "count_ok ?br"
    using f by (simp_all add: flushes_def)
  note rid = reset_insert_drain [OF e _ i d, simplified]
  have "Resets (bstats b3) = Resets (bstats b) + 1"
    using rid(3) f by (simp add: same_control_def flushes_def)
  with s p rid(1) show ?thesis
    by (auto simp: held_empty)
qed

theorem reset_despite_straggler_witness:
  "\<exists>b1 b2 os. Push 1 (- 5) (3 :: nat) (New\<lparr>started := True, farLate := 15\<rparr>) = (b1, [Deliver 3 True]) \<and>
     Push 2 90000 4 b1 = (b2, os) \<and> Resets (bstats b2) = 1 \<and> held b2 = {#}"
  using reset_despite_straggler [OF started_New_inv, of 15 "- 5" 90000 1 3 2 4]
  by (simp add: New_def)

lemma first_waiting_is:
  assumes "k < 8192" "before b k" "ring (nextExpected b + of_nat k) \<in> waiting b"
  shows "first_waiting 0 b = Some (slots b (ring (nextExpected b + of_nat k)))"
proof -
  obtain j where j: "j < 8192" "before b j" "ring (nextExpected b + of_nat j) \<in> waiting b"
      "first_waiting 0 b = Some (slots b (ring (nextExpected b + of_nat j)))"
    using first_waiting_cases [of b 0] assms by (auto simp: before_def)
  then have "\<not> j < k" "\<not> k < j"
    using assms(2,3) by (auto simp: before_def)
  then show ?thesis
    using j(4) by simp
qed

lemma expire_young_head:
  "first_waiting 0 b = Some s \<Longrightarrow> time_sub now (arrival s) < hold b \<Longrightarrow> expireLocked now b = Some (b, [])"
  by (subst expireLocked.simps) simp

text \<open>A packet pushed in front of everything that waits, but not at the release point.\<close>

lemma Push_front:
  fixes b :: "'a::zero buffer" and now v
  assumes inv: "reorder_inv b" "waiting b \<noteq> {}"
    and sq: "0 < unat (sq - nextExpected b)"
    and front: "\<And>j. j \<in> waiting b \<Longrightarrow> unat (sq - nextExpected b) < offset b j"
  defines "b' \<equiv> put_slot now sq v (b\<lparr>farLate := 0\<rparr>)"
  shows "Push now sq v b = (b', [])" "first_waiting 0 b' = Some (slots b' (ring sq))"
    "ring sq \<notin> waiting b"
proof -
  let ?bz = "b\<lparr>farLate := 0\<rparr>" and ?k = "unat (sq - nextExpected b)"
  obtain j where j: "j \<in> waiting b" using inv(2) by blast
  have ok: "ring_ok b" "count_ok b" "drained b"
    using inv(1) by (simp_all add: reorder_inv_def)
  have k: "?k < 8192"
    using front [OF j] waiting_offset [OF ok(1) j] by linarith
  have free: "ring (nextExpected b + of_nat i) \<notin> waiting b" if "i \<le> ?k" for i
  proof
    assume w: "ring (nextExpected b + of_nat i) \<in> waiting b"
    have "offset b (ring (nextExpected b + of_nat i)) = i"
      using slot_at_offset [OF ok(1) _ w] that k
      by (simp add: offset_def unat_of_nat take_bit_nat_eq_self)
    with front [OF w] that show False by simp
  qed
  then show nw: "ring sq \<notin> waiting b"
    using free [of ?k] by simp
  have st: "started b" "timer b \<noteq> None"
    using started_of_waiting [OF inv(1) j] by simp_all
  have r: "ring_ok b'"
    unfolding b'_def using ok nw k by (intro put_slot_ok(1)) simp_all
  have ne: "ring (nextExpected b + of_nat i) \<noteq> ring sq" if "i < ?k" for i
  proof
    assume "ring (nextExpected b + of_nat i) = ring sq"
    then have "nextExpected b + of_nat i = sq"
      using that k by (intro ring_inj [of _ _ "nextExpected b"])
        (simp_all add: unat_of_nat take_bit_nat_eq_self)
    then have "unat (of_nat i :: u32) = ?k" by auto
    with that k show False by (simp add: unat_of_nat take_bit_nat_eq_self)
  qed
  have "drainLocked b' = (b', [])"
    using r free [of 0] ne [of 0] sq by (intro drain_stop) (simp_all add: b'_def)
  then show "Push now sq v b = (b', [])"
    using Push_window [OF st(1) k] insert_free [of sq ?bz now v] nw st(2)
    by (simp add: push_window_def armTimerLocked_def b'_def put_slot_def)
  have "before b' ?k" "ring (nextExpected b' + of_nat ?k) \<in> waiting b'"
    using free ne by (auto simp: before_def b'_def)
  from first_waiting_is [OF k this]
  show "first_waiting 0 b' = Some (slots b' (ring sq))"
    by (simp add: b'_def)
qed

text \<open>
  C40. The hold time does not bound every wait, because the expiry pass only looks at the age
  of the first waiting packet in sequence order. In every state of the buffer and for every
  packet waiting in it, however long ago it arrived: a packet pushed with a number between
  the release point and everything that waits is queued in front, and as long as that packet
  is younger than the hold time, the expiry pass and the timer callback deliver nothing and
  the callback only arms the timer for another hold time, so the older packet stays.
\<close>

theorem overdue_packet_keeps_waiting:
  assumes "reorder_inv b" "i < Size" "occ (slots b i)"
    and "0 < unat (sq - nextExpected b)"
    and "\<And>j. j < Size \<Longrightarrow> occ (slots b j) \<Longrightarrow>
      unat (sq - nextExpected b) < unat (sseq (slots b j) - nextExpected b)"
    and "time_sub now' now < hold b"
  shows "\<exists>b'. Push now sq v b = (b', []) \<and> slots b' i = slots b i \<and> hold b' = hold b \<and>
    Tick now' b' = Some (b', []) \<and> onTimer now' b' = Some (b'\<lparr>timer := Some (hold b)\<rparr>, [])"
proof -
  let ?b = "put_slot now sq v (b\<lparr>farLate := 0\<rparr>)"
  have i: "i \<in> waiting b"
    using assms(2,3) by (simp add: waiting_def)
  then have ne: "waiting b \<noteq> {}" by blast
  have "unat (sq - nextExpected b) < offset b j" if "j \<in> waiting b" for j
    using assms(5) [of j] that by (simp add: waiting_def offset_def)
  note p = Push_front [OF assms(1) ne assms(4) this]
  have s: "slots ?b i = slots b i" "hold ?b = hold b" "arrival (slots ?b (ring sq)) = now"
    using p(3) i by (auto simp: put_slot_def)
  have "occupied ?b > 0"
    using count_pos [of b] assms(1) ne by (auto simp: reorder_inv_def put_slot_def)
  moreover have "expireLocked now' ?b = Some (?b, [])"
    and "expireLocked now' (?b\<lparr>timer := None\<rparr>) = Some (?b\<lparr>timer := None\<rparr>, [])"
    using assms(6) s(2,3) p(2)
    by (auto intro!: expire_young_head simp: first_waiting_timer)
  ultimately show ?thesis
    using p(1) s by (intro exI [of _ ?b]) (simp add: Tick_def onTimer_def)
qed

text \<open>
  A state in which packet 5 waits since 10 ms, behind the missing packets 2 to 4; below,
  packet 4 arrives at 80 ms and the clock reads 86 ms.
\<close>

definition overdue_state :: "nat buffer" where
  "overdue_state = fst (Push (10 * Millisecond) 5 5 (fst (Push 0 1 1 New)))"

definition fifth :: "nat buffer \<Rightarrow> bool \<times> u32 \<times> timestamp \<times> u32 \<times> duration \<times> int" where
  "fifth b = (occ (slots b 5), sseq (slots b 5), arrival (slots b 5), nextExpected b, hold b, occupied b)"

lemma overdue_fifth: "fifth overdue_state = (True, 5, 10 * Millisecond, 2, 75 * Millisecond, 1)"
  by code_simp

theorem overdue_packet_keeps_waiting_witness:
  "\<exists>b'. time_sub (86 * Millisecond) (arrival (slots overdue_state 5)) > hold overdue_state \<and>
     Push (80 * Millisecond) 4 4 overdue_state = (b', []) \<and> slots b' 5 = slots overdue_state 5 \<and>
     onTimer (86 * Millisecond) b' = Some (b'\<lparr>timer := Some (hold overdue_state)\<rparr>, [])"
proof -
  let ?b = overdue_state
  have inv: "reorder_inv ?b"
    unfolding overdue_state_def by (intro Push_inv New_inv)
  note e = overdue_fifth [unfolded fifth_def]
  have c: "card (waiting ?b) = 1" "5 \<in> waiting ?b"
    using inv e by (simp_all add: reorder_inv_def count_ok_def waiting_def)
  then have w: "waiting ?b = {5}"
    by (metis card_1_singletonE singletonD)
  have f: "unat (4 - nextExpected ?b) < unat (sseq (slots ?b j) - nextExpected ?b)"
    if "j < Size" "occ (slots ?b j)" for j
  proof -
    have "j = 5"
      using w that by (auto simp: waiting_def set_eq_iff)
    with e show ?thesis by simp
  qed
  have d: "time_sub (86 * Millisecond) (80 * Millisecond) < hold ?b"
    "time_sub (86 * Millisecond) (arrival (slots ?b 5)) > hold ?b"
    using e by (simp_all add: time_sub_def time_units)
  obtain b' where "Push (80 * Millisecond) 4 4 ?b = (b', []) \<and> slots b' 5 = slots ?b 5 \<and>
      onTimer (86 * Millisecond) b' = Some (b'\<lparr>timer := Some (hold ?b)\<rparr>, [])"
    using overdue_packet_keeps_waiting [OF inv _ _ _ f d(1), of 5 4] e by auto
  with d(2) show ?thesis by blast
qed

end
