(* ===== verification/Link.thy ===== *)
theory Link
  imports Float64
begin

text \<open>
  Package \<^verbatim>\<open>internal/pathmon\<close>, file \<^verbatim>\<open>link.go\<close>: the estimator of one path of one sending
  direction. It has the Go struct as a record, its entry points (probe sent, probe ack, mark
  down, receiver report) as functions on it, and the read-only views. 32-bit signed values are
  \<open>u32\<close> words read with \<open>sint\<close>, durations are \<open>int\<close> with the \<^verbatim>\<open>int64\<close> wrap-around written
  out, \<^verbatim>\<open>float64\<close> fields follow theory \<open>Float64\<close>.
\<close>

section \<open>Definitions\<close>

definition ProbeInterval :: duration where "ProbeInterval = 100 * Millisecond"
definition ProbeIntervalDown :: duration where "ProbeIntervalDown = 500 * Millisecond"
definition probeAckUp :: int where [simp]: "probeAckUp = 3"
definition capacityWindow :: duration where "capacityWindow = 10 * Second"

definition lossCut :: f64 where "lossCut = rnd (7 / 10)"
definition lossRecover :: f64 where "lossRecover = rnd (1 / 20)"
definition minLossFactor :: f64 where "minLossFactor = rnd (1 / 20)"

text \<open>The constant expression \<^verbatim>\<open>minLossFactor * 4\<close>, exact before it is converted.\<close>

definition downLossFactor :: f64 where "downLossFactor = rnd (1 / 20 * 4)"

definition targetQueueUS :: rat where [simp]: "targetQueueUS = 30000"
definition delayCut :: f64 where "delayCut = rnd (85 / 100)"
definition delayRecover :: f64 where "delayRecover = rnd (1 / 20)"
definition minDelayFactor :: f64 where "minDelayFactor = rnd (1 / 10)"
definition maxAQMProb :: f64 where "maxAQMProb = rnd (15 / 100)"
definition baselineWindow :: duration where "baselineWindow = 30 * Second"

record capSample =
  cs_t :: timestamp
  cs_bps :: f64

record probeSent =
  ps_seq :: u32
  ps_at :: timestamp

record LinkSnapshot =
  Up :: bool
  SRTT :: duration
  RTTVar :: duration
  LossEWMA :: f64
  CapacityBps :: f64
  LossFactor :: f64
  DelayFactor :: f64
  QueueMs :: f64
  WeightBps :: f64

record link =
  up :: bool
  srtt :: duration
  rttvar :: duration
  hasRTT :: bool
  lossEWMA :: f64
  lossFactor :: f64
  delayFactor :: f64
  queueUS :: f64
  aqmProb :: f64
  capSamples :: "capSample list"
  lastHighest :: u32
  haveCtrl :: bool
  lastRxPkts :: u32
  lastRxBytes :: u64
  lastCtrlTime :: timestamp
  owdBase0 :: u32
  owdBase1 :: u32
  owdBaseSet0 :: bool
  owdBaseSet1 :: bool
  owdBucketAt :: timestamp
  consecAcked :: int
  lastProbeSeq :: u32
  outstanding :: "probeSent list"

definition NewLink :: link where
  "NewLink = \<lparr>up = False, srtt = 0, rttvar = 0, hasRTT = False, lossEWMA = 0, lossFactor = 1,
     delayFactor = 1, queueUS = 0, aqmProb = 0, capSamples = [], lastHighest = 0, haveCtrl = False,
     lastRxPkts = 0, lastRxBytes = 0, lastCtrlTime = zeroTime, owdBase0 = 0, owdBase1 = 0,
     owdBaseSet0 = False, owdBaseSet1 = False, owdBucketAt = zeroTime, consecAcked = 0,
     lastProbeSeq = 0, outstanding = []\<rparr>"

definition probeRTOLocked :: "link \<Rightarrow> duration" where
  "probeRTOLocked l =
     (let rto = i64 (srtt l + i64 (4 * rttvar l));
          rto = (if rto < 3 * ProbeInterval then 3 * ProbeInterval else rto)
      in if rto > 2 * Second then 2 * Second else rto)"

definition goDownLocked :: "link \<Rightarrow> link" where
  "goDownLocked l = l\<lparr>up := False, consecAcked := 0, outstanding := [], lossFactor := downLossFactor\<rparr>"

definition MarkDown :: "link \<Rightarrow> link" where
  "MarkDown l = goDownLocked l"

text \<open>The result is the new state, the sequence number to embed and whether the path went down.\<close>

definition OnProbeSent :: "timestamp \<Rightarrow> link \<Rightarrow> link \<times> u32 \<times> bool" where
  "OnProbeSent now l =
     (let expired = (outstanding l \<noteq> [] \<and> up l \<and>
            time_sub now (ps_at (hd (outstanding l))) > probeRTOLocked l);
          l = (if expired then (goDownLocked l)\<lparr>outstanding := []\<rparr> else l);
          l = l\<lparr>lastProbeSeq := lastProbeSeq l + 1\<rparr>;
          l = l\<lparr>outstanding := outstanding l @ [\<lparr>ps_seq = lastProbeSeq l, ps_at = now\<rparr>]\<rparr>;
          l = (if length (outstanding l) > 32
               then l\<lparr>outstanding := drop (length (outstanding l) - 32) (outstanding l)\<rparr> else l)
      in (l, lastProbeSeq l, expired))"

text \<open>The smoothed round-trip time, RFC 6298 in integer arithmetic.\<close>

definition rttSample :: "duration \<Rightarrow> link \<Rightarrow> link" where
  "rttSample rtt l =
     (if rtt > 0 then
        (if \<not> hasRTT l then l\<lparr>srtt := rtt, rttvar := quot rtt 2, hasRTT := True\<rparr>
         else (let dev = i64 (srtt l - rtt);
                   dev = (if dev < 0 then i64 (- dev) else dev)
               in l\<lparr>rttvar := quot (i64 (i64 (3 * rttvar l) + dev)) 4,
                    srtt := quot (i64 (i64 (7 * srtt l) + rtt)) 8\<rparr>))
      else l)"

definition OnProbeAck :: "u32 \<Rightarrow> duration \<Rightarrow> link \<Rightarrow> link \<times> bool" where
  "OnProbeAck seq rtt l =
     (case dropWhile (\<lambda>p. ps_seq p \<noteq> seq) (outstanding l) of
        [] \<Rightarrow> (l, False)
      | _ # rest \<Rightarrow>
          (let l = l\<lparr>outstanding := rest, consecAcked := consecAcked l + 1\<rparr>;
               l = rttSample rtt l
           in if \<not> up l \<and> consecAcked l \<ge> probeAckUp then (l\<lparr>up := True\<rparr>, True) else (l, False)))"

text \<open>
  \<^verbatim>\<open>updateDelayLocked\<close> in the order of the source: the two-bucket baseline, the standing queue
  over it, the weight discount, the early-drop probability.
\<close>

definition owdBaseline :: "u32 \<Rightarrow> timestamp \<Rightarrow> link \<Rightarrow> link \<times> u32" where
  "owdBaseline owdMinUS now l =
     (let l = (if owdBucketAt l = zeroTime then l\<lparr>owdBucketAt := now\<rparr> else l);
          l = (if time_sub now (owdBucketAt l) > quot baselineWindow 2
               then l\<lparr>owdBase0 := owdBase1 l, owdBaseSet0 := owdBaseSet1 l, owdBaseSet1 := False,
                      owdBucketAt := now\<rparr> else l);
          l = (if \<not> owdBaseSet1 l \<or> sint (owdMinUS - owdBase1 l) < 0
               then l\<lparr>owdBase1 := owdMinUS, owdBaseSet1 := True\<rparr> else l);
          base = owdBase1 l
      in (l, if owdBaseSet0 l \<and> sint (owdBase0 l - base) < 0 then owdBase0 l else base))"

definition queueOver :: "u32 \<Rightarrow> u32 \<Rightarrow> f64" where
  "queueOver owdAvgUS base =
     (let q = float_of_int (sint (owdAvgUS - base)) in if q < 0 then 0 else q)"

definition delayDiscount :: "f64 \<Rightarrow> f64 \<Rightarrow> f64" where
  "delayDiscount q df =
     (if q > 2 * targetQueueUS then
        (let cut = fdiv (2 * targetQueueUS) q;
             cut = (if cut < 1 / 2 then 1 / 2 else cut);
             cut = (if cut > delayCut then delayCut else cut);
             df = fmul df cut
         in if df < minDelayFactor then minDelayFactor else df)
      else if q < targetQueueUS then fadd df (fmul delayRecover (fsub 1 df))
      else df)"

definition earlyDrop :: "f64 \<Rightarrow> f64" where
  "earlyDrop q =
     (let excess = fsub q (2 * targetQueueUS) in
      if excess > 0
      then (let p = fdiv excess (8 * targetQueueUS) in if p > maxAQMProb then maxAQMProb else p)
      else 0)"

definition updateDelayLocked :: "u32 \<Rightarrow> u32 \<Rightarrow> timestamp \<Rightarrow> link \<Rightarrow> link" where
  "updateDelayLocked owdMinUS owdAvgUS now l =
     (let (l, base) = owdBaseline owdMinUS now l;
          q = queueOver owdAvgUS base
      in l\<lparr>queueUS := q, delayFactor := delayDiscount q (delayFactor l), aqmProb := earlyDrop q\<rparr>)"

text \<open>\<^verbatim>\<open>Duration.Seconds\<close>: the whole seconds plus the rounded fraction.\<close>

definition Seconds :: "duration \<Rightarrow> f64" where
  "Seconds d = fadd (float_of_int (quot d Second)) (fdiv (float_of_int (remq d Second)) 1000000000)"

text \<open>The loss discount of one report; the clamps come from the code.\<close>

definition lossUpdate :: "int \<Rightarrow> int \<Rightarrow> link \<Rightarrow> link" where
  "lossUpdate expected received l =
     (if expected > 0 then
        (let loss = fsub 1 (fdiv (float_of_int received) (float_of_int expected));
             loss = (if loss < 0 then 0 else loss);
             loss = (if loss > 1 then 1 else loss);
             l = l\<lparr>lossEWMA := fadd (fmul (rnd (9 / 10)) (lossEWMA l)) (fmul (rnd (1 / 10)) loss)\<rparr>
         in if loss > rnd (1 / 100)
            then (let f = fmul (lossFactor l) lossCut
                  in l\<lparr>lossFactor := (if f < minLossFactor then minLossFactor else f)\<rparr>)
            else l\<lparr>lossFactor := fadd (lossFactor l) (fmul lossRecover (fsub 1 (lossFactor l)))\<rparr>)
      else if received = 0 then
        l\<lparr>lossEWMA := fmul (lossEWMA l) (rnd (95 / 100)),
          lossFactor := fadd (lossFactor l) (fmul lossRecover (fsub 1 (lossFactor l)))\<rparr>
      else l)"

definition capacityUpdate :: "u64 \<Rightarrow> duration \<Rightarrow> timestamp \<Rightarrow> link \<Rightarrow> link" where
  "capacityUpdate deltaBytes dt now l =
     (if deltaBytes > 0 \<and> dt \<ge> 10 * Millisecond then
        (let bps = fdiv (fmul (float_of_int (uint deltaBytes)) 8) (Seconds dt);
             samples = capSamples l @ [\<lparr>cs_t = now, cs_bps = bps\<rparr>];
             cutoff = now - capacityWindow
         in l\<lparr>capSamples := dropWhile (\<lambda>s. cs_t s < cutoff) samples\<rparr>)
      else l)"

definition OnCtrl :: "u32 \<Rightarrow> u32 \<Rightarrow> u64 \<Rightarrow> u32 \<Rightarrow> u32 \<Rightarrow> timestamp \<Rightarrow> link \<Rightarrow> link" where
  "OnCtrl highest rxPkts rxBytes owdMinUS owdAvgUS now l =
     (let l = updateDelayLocked owdMinUS owdAvgUS now l in
      if \<not> haveCtrl l
      then l\<lparr>haveCtrl := True, lastHighest := highest, lastRxPkts := rxPkts, lastRxBytes := rxBytes,
             lastCtrlTime := now\<rparr>
      else (let expected = sint (highest - lastHighest l);
                received = sint (rxPkts - lastRxPkts l);
                deltaBytes = rxBytes - lastRxBytes l;
                dt = time_sub now (lastCtrlTime l);
                l = l\<lparr>lastHighest := highest, lastRxPkts := rxPkts, lastRxBytes := rxBytes,
                      lastCtrlTime := now\<rparr>
            in if dt \<le> 0 then l
               else capacityUpdate deltaBytes dt now (lossUpdate expected received l)))"

definition capacityBpsLocked :: "link \<Rightarrow> f64" where
  "capacityBpsLocked l = foldl (\<lambda>m s. if cs_bps s > m then cs_bps s else m) 0 (capSamples l)"

definition Weight :: "link \<Rightarrow> f64" where
  "Weight l = fmul (fmul (capacityBpsLocked l) (lossFactor l)) (delayFactor l)"

definition DropProb :: "link \<Rightarrow> f64" where
  "DropProb l = aqmProb l"

definition Snapshot :: "link \<Rightarrow> LinkSnapshot" where
  "Snapshot l =
     (let capBps = capacityBpsLocked l in
      \<lparr>Up = up l, SRTT = srtt l, RTTVar = rttvar l, LossEWMA = lossEWMA l, CapacityBps = capBps,
       LossFactor = lossFactor l, DelayFactor = delayFactor l, QueueMs = fdiv (queueUS l) 1000,
       WeightBps = fmul (fmul capBps (lossFactor l)) (delayFactor l)\<rparr>)"

section \<open>Constants\<close>

text \<open>Facts about the rounded constants; all other proofs use only these.\<close>

lemma loss_consts:
  "0 \<le> lossCut" "lossCut \<le> 1" "0 \<le> lossRecover" "lossRecover \<le> 1 / 4"
  "1 / 32 \<le> minLossFactor" "minLossFactor \<le> 1"
  by code_simp+

lemma down_consts: "minLossFactor \<le> downLossFactor" "downLossFactor \<le> 1"
  by code_simp+

lemma delay_consts:
  "0 \<le> delayCut" "delayCut \<le> 1" "1 / 2 \<le> delayCut" "0 \<le> delayRecover" "delayRecover \<le> 1 / 4"
  "1 / 16 \<le> minDelayFactor" "minDelayFactor \<le> 1" "0 \<le> maxAQMProb" "maxAQMProb \<le> 1"
  by code_simp+

lemma rounded_consts:
  "rnd minLossFactor = minLossFactor" "rnd downLossFactor = downLossFactor"
  "rnd minDelayFactor = minDelayFactor" "rnd maxAQMProb = maxAQMProb"
  by (simp_all add: minLossFactor_def downLossFactor_def minDelayFactor_def maxAQMProb_def rnd_idem)

lemma ewma_consts: "0 \<le> rnd (9 / 10)" "0 \<le> rnd (1 / 10)" "0 \<le> rnd (95 / 100)" "rnd (95 / 100) \<le> 1"
  "rnd (rnd (9 / 10) + rnd (1 / 10)) = 1"
  by code_simp+

lemma rnd_pow2: "rnd (2 ^ k) = 2 ^ k"
  using rnd_exact [of 1 "int k"] by (simp add: power_int_def)

section \<open>Probing: the state machine of a path\<close>

text \<open>
  The path is up exactly when three probe acks have been accepted since it last went down,
  and the outstanding probes are the most recent ones, numbered consecutively.
\<close>

definition probe_ok :: "link \<Rightarrow> bool" where
  "probe_ok l \<longleftrightarrow> 0 \<le> consecAcked l \<and> (up l \<longleftrightarrow> consecAcked l \<ge> probeAckUp) \<and>
     length (outstanding l) \<le> 32 \<and>
     map ps_seq (outstanding l) =
       map (\<lambda>k. lastProbeSeq l - of_nat k) (rev [0..<length (outstanding l)])"

lemma probeRTO_bounds: "3 * ProbeInterval \<le> probeRTOLocked l" "probeRTOLocked l \<le> 2 * Second"
  by (simp_all add: probeRTOLocked_def Let_def ProbeInterval_def time_units)

lemma rev_upt_Suc: "rev [0..<Suc n] = map Suc (rev [0..<n]) @ [0]"
proof -
  have "[0..<Suc n] = 0 # map Suc [0..<n]"
    by (simp only: upt_conv_Cons zero_less_Suc map_Suc_upt)
  then show ?thesis
    by (simp only: rev.simps rev_map)
qed

lemma numbered_append:
  assumes "map ps_seq ps = map (\<lambda>k. n - of_nat k) (rev [0..<length ps])"
  shows "map ps_seq (ps @ [\<lparr>ps_seq = n + 1, ps_at = t\<rparr>]) =
    map (\<lambda>k. n + 1 - of_nat k) (rev [0..<Suc (length ps)])"
proof -
  have "map (\<lambda>k. n + 1 - of_nat k) (rev [0..<Suc (length ps)]) =
      map (\<lambda>k. n - of_nat k) (rev [0..<length ps]) @ [n + 1]"
    unfolding rev_upt_Suc map_append map_map comp_def by simp
  then show ?thesis
    by (simp only: map_append assms) simp
qed

lemma numbered_drop:
  assumes "map ps_seq ps = map (\<lambda>k. n - of_nat k) (rev [0..<length ps])"
  shows "map ps_seq (drop j ps) = map (\<lambda>k. n - of_nat k) (rev [0..<length (drop j ps)])"
proof -
  have "drop j (rev [0..<length ps]) = rev [0..<length ps - j]"
    by (simp add: drop_rev)
  then show ?thesis
    using arg_cong [OF assms, of "drop j"] by (simp add: drop_map)
qed

lemma goDown_probe_ok: "probe_ok (goDownLocked l)"
  by (simp add: probe_ok_def goDownLocked_def)

lemma OnProbeSent_cases:
  obtains (down) "outstanding l \<noteq> []" "up l" "time_sub now (ps_at (hd (outstanding l))) > probeRTOLocked l"
      "OnProbeSent now l = ((goDownLocked l)\<lparr>lastProbeSeq := lastProbeSeq l + 1,
         outstanding := [\<lparr>ps_seq = lastProbeSeq l + 1, ps_at = now\<rparr>]\<rparr>, lastProbeSeq l + 1, True)"
    | (kept) "outstanding l = [] \<or> \<not> up l \<or> time_sub now (ps_at (hd (outstanding l))) \<le> probeRTOLocked l"
      "OnProbeSent now l = (l\<lparr>lastProbeSeq := lastProbeSeq l + 1,
         outstanding := drop (length (outstanding l) - 31)
           (outstanding l @ [\<lparr>ps_seq = lastProbeSeq l + 1, ps_at = now\<rparr>])\<rparr>, lastProbeSeq l + 1, False)"
proof (cases "outstanding l \<noteq> [] \<and> up l \<and> time_sub now (ps_at (hd (outstanding l))) > probeRTOLocked l")
  case True
  then show ?thesis
    by (intro that(1)) (simp_all add: OnProbeSent_def Let_def goDownLocked_def)
next
  case False
  then have e: "(outstanding l \<noteq> [] \<and> up l \<and> time_sub now (ps_at (hd (outstanding l))) > probeRTOLocked l) = False"
    by blast
  have "OnProbeSent now l = (l\<lparr>lastProbeSeq := lastProbeSeq l + 1,
      outstanding := drop (length (outstanding l) - 31)
        (outstanding l @ [\<lparr>ps_seq = lastProbeSeq l + 1, ps_at = now\<rparr>])\<rparr>, lastProbeSeq l + 1, False)"
    unfolding OnProbeSent_def Let_def e if_False by (simp add: numeral_eq_Suc)
  with False show ?thesis by (intro that(2)) auto
qed

lemma OnProbeSent_ok:
  assumes "probe_ok l" "OnProbeSent now l = (l', s, d)"
  shows "probe_ok l'"
proof (cases rule: OnProbeSent_cases [where l = l and now = now])
  case down
  with assms(2) show ?thesis
    by (auto simp: probe_ok_def goDownLocked_def)
next
  case kept
  let ?ps = "outstanding l @ [\<lparr>ps_seq = lastProbeSeq l + 1, ps_at = now\<rparr>]"
  have "map ps_seq ?ps = map (\<lambda>k. lastProbeSeq l + 1 - of_nat k) (rev [0..<length ?ps])"
    using numbered_append [of "outstanding l"] assms(1) by (simp add: probe_ok_def)
  from numbered_drop [OF this, of "length (outstanding l) - 31"] kept assms show ?thesis
    by (auto simp: probe_ok_def simp del: upt_Suc)
qed

lemma rttSample_frame [simp]:
  "up (rttSample rtt l) = up l" "consecAcked (rttSample rtt l) = consecAcked l"
  "outstanding (rttSample rtt l) = outstanding l" "lastProbeSeq (rttSample rtt l) = lastProbeSeq l"
  by (simp_all add: rttSample_def Let_def)

lemma OnProbeAck_cases:
  obtains (unknown) "seq \<notin> ps_seq ` set (outstanding l)" "OnProbeAck seq rtt l = (l, False)"
    | (known) old p rest where "outstanding l = old @ p # rest" "ps_seq p = seq"
      "OnProbeAck seq rtt l =
         (let l' = rttSample rtt (l\<lparr>outstanding := rest, consecAcked := consecAcked l + 1\<rparr>)
          in if \<not> up l \<and> consecAcked l + 1 \<ge> probeAckUp then (l'\<lparr>up := True\<rparr>, True) else (l', False))"
proof (cases "dropWhile (\<lambda>p. ps_seq p \<noteq> seq) (outstanding l)")
  case Nil
  have "OnProbeAck seq rtt l = (l, False)"
    unfolding OnProbeAck_def Nil by simp
  moreover have "seq \<notin> ps_seq ` set (outstanding l)"
    using Nil by auto
  ultimately show ?thesis using that(1) by blast
next
  case (Cons p rest)
  have "outstanding l = takeWhile (\<lambda>p. ps_seq p \<noteq> seq) (outstanding l) @ p # rest"
    unfolding Cons [symmetric] by simp
  moreover have "ps_seq p = seq"
    using hd_dropWhile [of "\<lambda>p. ps_seq p \<noteq> seq" "outstanding l"] unfolding Cons by simp
  moreover have "OnProbeAck seq rtt l =
      (let l' = rttSample rtt (l\<lparr>outstanding := rest, consecAcked := consecAcked l + 1\<rparr>)
       in if \<not> up l \<and> consecAcked l + 1 \<ge> probeAckUp then (l'\<lparr>up := True\<rparr>, True) else (l', False))"
    unfolding OnProbeAck_def Cons by (simp add: Let_def)
  ultimately show ?thesis by (rule that(2))
qed

lemma OnProbeAck_ok:
  assumes "probe_ok l" "OnProbeAck seq rtt l = (l', c)"
  shows "probe_ok l'"
proof (cases rule: OnProbeAck_cases [where l = l and seq = seq and rtt = rtt])
  case unknown
  with assms show ?thesis by simp
next
  case (known old p rest)
  have "rest = drop (Suc (length old)) (outstanding l)"
    using known(1) by simp
  then have "map ps_seq rest = map (\<lambda>k. lastProbeSeq l - of_nat k) (rev [0..<length rest])"
    using numbered_drop [of "outstanding l"] assms(1) by (simp add: probe_ok_def)
  moreover have "length rest \<le> 32"
    using known(1) assms(1) by (simp add: probe_ok_def)
  ultimately show ?thesis
    using known(3) assms by (auto simp: probe_ok_def Let_def split: if_splits)
qed

section \<open>Estimates stay in range\<close>

definition factor_ok :: "f64 \<Rightarrow> f64 \<Rightarrow> bool" where
  "factor_ok lo f \<longleftrightarrow> lo \<le> f \<and> f \<le> 1 \<and> rnd f = f"

definition sample_ok :: "f64 \<Rightarrow> bool" where
  "sample_ok b \<longleftrightarrow> 1 / 2 ^ 31 \<le> b \<and> b \<le> 2 ^ 74 \<and> rnd b = b"

definition estimates_ok :: "link \<Rightarrow> bool" where
  "estimates_ok l \<longleftrightarrow> factor_ok minLossFactor (lossFactor l) \<and>
     factor_ok minDelayFactor (delayFactor l) \<and> factor_ok 0 (lossEWMA l) \<and>
     0 \<le> aqmProb l \<and> aqmProb l \<le> maxAQMProb \<and> 0 \<le> queueUS l \<and> queueUS l \<le> 2 ^ 31 \<and>
     (\<forall>s \<in> set (capSamples l). sample_ok (cs_bps s))"

lemma factor_recover:
  assumes "factor_ok lo f" "0 \<le> lo" "0 \<le> c" "c \<le> 1 / 4"
  shows "factor_ok lo (fadd f (fmul c (fsub 1 f)))" "f \<le> fadd f (fmul c (fsub 1 f))"
  using fl.recover [of f c] assms
  by (auto simp: factor_ok_def float_ops fl.idem)

lemma factor_cut:
  assumes "factor_ok lo f" "0 \<le> lo" "rnd lo = lo" "0 \<le> c" "c \<le> 1"
  shows "factor_ok lo (if fmul f c < lo then lo else fmul f c)"
    "(if fmul f c < lo then lo else fmul f c) \<le> f"
  using fl.scale_le [of f c] assms by (auto simp: factor_ok_def float_ops fl.idem)

lemma loss_state:
  "estimates_ok l \<Longrightarrow> factor_ok 0 e \<Longrightarrow> factor_ok minLossFactor f \<Longrightarrow>
     estimates_ok (l\<lparr>lossEWMA := e, lossFactor := f\<rparr>)"
  by (simp add: estimates_ok_def)

lemma loss_average:
  assumes "factor_ok 0 e" "0 \<le> y" "y \<le> 1"
  shows "factor_ok 0 (fadd (fmul (rnd (9 / 10)) e) (fmul (rnd (1 / 10)) y))"
proof -
  have e: "0 \<le> e" "e \<le> 1"
    using assms(1) by (simp_all add: factor_ok_def)
  have "rnd (rnd (rnd (9 / 10) * e) + rnd (rnd (1 / 10) * y)) \<le> 1"
    by (rule fl.ewma_le [OF ewma_consts(1,2) e(2) assms(3)])
       (simp only: mult_1_right fl.idem ewma_consts order_refl)
  moreover have "0 \<le> rnd (rnd (rnd (9 / 10) * e) + rnd (rnd (1 / 10) * y))"
    using e(1) assms(2) by (intro fl.nonneg) (simp add: fl.nonneg ewma_consts)
  ultimately show ?thesis
    by (simp add: factor_ok_def float_ops fl.idem)
qed

lemma lossUpdate_report:
  assumes "expected > 0"
  obtains loss where "0 \<le> loss" "loss \<le> 1"
    "lossUpdate expected received l =
       l\<lparr>lossEWMA := fadd (fmul (rnd (9 / 10)) (lossEWMA l)) (fmul (rnd (1 / 10)) loss),
         lossFactor := (if loss > rnd (1 / 100)
           then (if fmul (lossFactor l) lossCut < minLossFactor then minLossFactor
                 else fmul (lossFactor l) lossCut)
           else fadd (lossFactor l) (fmul lossRecover (fsub 1 (lossFactor l))))\<rparr>"
proof -
  define x where "x = fsub 1 (fdiv (float_of_int received) (float_of_int expected))"
  define y where "y = (if x < 0 then 0 else x)"
  define loss where "loss = (if y > 1 then 1 else y)"
  have "0 \<le> loss" "loss \<le> 1"
    by (simp_all add: loss_def y_def)
  moreover have "lossUpdate expected received l =
      l\<lparr>lossEWMA := fadd (fmul (rnd (9 / 10)) (lossEWMA l)) (fmul (rnd (1 / 10)) loss),
        lossFactor := (if loss > rnd (1 / 100)
          then (if fmul (lossFactor l) lossCut < minLossFactor then minLossFactor
                else fmul (lossFactor l) lossCut)
          else fadd (lossFactor l) (fmul lossRecover (fsub 1 (lossFactor l))))\<rparr>"
    unfolding lossUpdate_def using assms
    by (simp only: if_True Let_def flip: x_def y_def loss_def) simp
  ultimately show ?thesis by (rule that)
qed

lemma lossUpdate_ok:
  assumes "estimates_ok l"
  shows "estimates_ok (lossUpdate expected received l)"
proof -
  have e: "factor_ok 0 (lossEWMA l)" and f: "factor_ok minLossFactor (lossFactor l)"
    and m: "0 \<le> minLossFactor"
    using assms loss_consts(5) by (simp_all add: estimates_ok_def)
  note cut = factor_cut(1) [OF f m rounded_consts(1) loss_consts(1,2)]
    and rec = factor_recover(1) [OF f m loss_consts(3,4)]
  consider (report) "expected > 0" | (idle) "expected \<le> 0" "received = 0" | (other) "expected \<le> 0" "received \<noteq> 0"
    by linarith
  then show ?thesis
  proof cases
    case report
    then obtain loss where l: "0 \<le> loss" "loss \<le> 1" and eq: "lossUpdate expected received l =
       l\<lparr>lossEWMA := fadd (fmul (rnd (9 / 10)) (lossEWMA l)) (fmul (rnd (1 / 10)) loss),
         lossFactor := (if loss > rnd (1 / 100)
           then (if fmul (lossFactor l) lossCut < minLossFactor then minLossFactor
                 else fmul (lossFactor l) lossCut)
           else fadd (lossFactor l) (fmul lossRecover (fsub 1 (lossFactor l))))\<rparr>"
      by (rule lossUpdate_report)
    show ?thesis
    proof (cases "loss > rnd (1 / 100)")
      case True
      show ?thesis
        unfolding eq if_P [OF True] by (rule loss_state [OF assms loss_average [OF e l] cut])
    next
      case False
      show ?thesis
        unfolding eq if_not_P [OF False] by (rule loss_state [OF assms loss_average [OF e l] rec])
    qed
  next
    case idle
    have "factor_ok 0 (fmul (lossEWMA l) (rnd (95 / 100)))"
      using fl.scale_le [of "lossEWMA l" "rnd (95 / 100)"] e ewma_consts(3,4)
      by (auto simp: factor_ok_def fmul_def fl.idem)
    then show ?thesis
      using loss_state [OF assms _ rec] idle by (simp add: lossUpdate_def)
  next
    case other
    then show ?thesis using assms by (simp add: lossUpdate_def)
  qed
qed

text \<open>The length of a report interval, at least 10 ms, in seconds.\<close>

lemma Seconds_bounds:
  assumes "10 * Millisecond \<le> d" "d < 2 ^ 63"
  shows "1 / 128 \<le> Seconds d" "Seconds d \<le> 2 ^ 34"
proof -
  define s where "s = d div Second"
  define m where "m = d mod Second"
  have d: "s * 1000000000 + m = d" "0 \<le> m" "m < 1000000000" "0 \<le> s"
    using assms by (simp_all add: s_def m_def time_units pos_imp_zdiv_nonneg_iff)
  then have s: "s \<le> 9223372036"
    using assms(2) by simp
  have eq: "Seconds d = rnd (of_int s + rnd (of_int m / 1000000000))"
    using assms d(2-4) s fl.exact_int [of s] fl.exact_int [of m] unfolding s_def m_def
    by (simp add: Seconds_def float_ops float_of_int_def go_int time_units)
  have f: "0 \<le> rnd (of_int m / 1000000000)" "rnd (of_int m / 1000000000) \<le> 1"
    using d by (simp_all add: fl.nonneg fl.le_one)
  have "rnd (of_int s + rnd (of_int m / 1000000000)) \<le> rnd (of_int (2 ^ 34))"
    using f(2) s by (intro fl.mono) simp
  then show "Seconds d \<le> 2 ^ 34"
    using fl.exact_int [of "2 ^ 34"] eq by simp
  have x: "rnd (1 / 128) = 1 / 128"
    using fl.exact [of 1 7] by simp
  have "1 / 128 \<le> of_int s + rnd (of_int m / 1000000000)"
  proof (cases "s = 0")
    case True
    then have "10000000 \<le> m"
      using assms(1) d(1) by (simp add: time_units)
    then have "rnd (1 / 128) \<le> rnd (of_int m / 1000000000)"
      by (intro fl.mono) simp
    with x True show ?thesis by simp
  next
    case False
    then have "1 \<le> s" using d(4) by simp
    then have "(1 :: rat) \<le> of_int s" by simp
    with f(1) show ?thesis by linarith
  qed
  then have "rnd (1 / 128) \<le> rnd (of_int s + rnd (of_int m / 1000000000))"
    by (rule fl.mono)
  with x eq show "1 / 128 \<le> Seconds d" by simp
qed

lemma rate_sample_ok:
  assumes "0 < (b :: u64)" "1 / 128 \<le> s" "s \<le> 2 ^ 34"
  shows "sample_ok (fdiv (fmul (float_of_int (uint b)) 8) s)"
proof -
  have b: "1 \<le> uint b" "uint b < 2 ^ 64"
    using assms(1) uint_lt2p [of b] by (simp_all add: word_less_def)
  then have "(1 :: rat) \<le> of_int (uint b)" "(of_int (uint b) :: rat) \<le> of_int (2 ^ 64)"
    by (simp_all only: of_int_le_iff of_int_1_le_iff order.strict_implies_order)
  then have "rnd 1 \<le> rnd (of_int (uint b))" "rnd (of_int (uint b)) \<le> rnd (2 ^ 64)"
    by (intro fl.mono; simp)+
  then have f: "1 \<le> float_of_int (uint b)" "float_of_int (uint b) \<le> 2 ^ 64"
    using fl.one rnd_pow2 [of 64] by (simp_all only: float_of_int_def)
  then have "rnd (2 ^ 3) \<le> rnd (float_of_int (uint b) * 8)" "rnd (float_of_int (uint b) * 8) \<le> rnd (2 ^ 67)"
    by (intro fl.mono; simp)+
  then have e: "8 \<le> fmul (float_of_int (uint b)) 8" "fmul (float_of_int (uint b)) 8 \<le> 2 ^ 67"
    unfolding rnd_pow2 fmul_def by simp_all
  have s: "0 < s" using assms(2) by simp
  have "8 / 2 ^ 34 \<le> fmul (float_of_int (uint b)) 8 / s"
    using e(1) assms(3) s by (intro frac_le) simp_all
  moreover have "fmul (float_of_int (uint b)) 8 / s \<le> 2 ^ 67 / (1 / 128)"
    using e assms(2) by (intro frac_le) simp_all
  ultimately have "1 / 2 ^ 31 \<le> fmul (float_of_int (uint b)) 8 / s"
      "fmul (float_of_int (uint b)) 8 / s \<le> 2 ^ 74"
    by simp_all
  moreover have "rnd (1 / 2 ^ 31) = 1 / 2 ^ 31"
    using fl.exact [of 1 31] by simp
  ultimately show ?thesis
    using fl.between [OF _ _ _ rnd_pow2] by (simp add: sample_ok_def fdiv_def fl.idem del: power_numeral)
qed

lemma time_sub_less: "time_sub a b < 2 ^ 63"
  by (simp add: time_sub_def)

lemma capacityUpdate_ok:
  assumes "estimates_ok l" "dt < 2 ^ 63"
  shows "estimates_ok (capacityUpdate db dt now l)"
proof (cases "db > 0 \<and> dt \<ge> 10 * Millisecond")
  case True
  then have "sample_ok (fdiv (fmul (float_of_int (uint db)) 8) (Seconds dt))"
    using Seconds_bounds [of dt] assms(2) by (intro rate_sample_ok) simp_all
  with True assms(1) show ?thesis
    by (auto simp: capacityUpdate_def Let_def estimates_ok_def dest!: set_dropWhileD)
next
  case False
  with assms(1) show ?thesis by (auto simp: capacityUpdate_def)
qed

section \<open>The delay discount and the early-drop probability\<close>

lemma queue_bounds: "0 \<le> queueOver avg base" "queueOver avg base \<le> 2 ^ 31" "rnd (queueOver avg base) = queueOver avg base"
proof -
  have s: "- (2 ^ 31) \<le> sint (avg - base)" "sint (avg - base) < 2 ^ 31"
    using sint_range_size [of "avg - base"] by (simp_all add: word_size)
  then have e: "float_of_int (sint (avg - base)) = of_int (sint (avg - base))"
    unfolding float_of_int_def by (intro fl.exact_int) simp
  have "(of_int (sint (avg - base)) :: rat) \<le> of_int (2 ^ 31)"
    using s by (simp only: of_int_le_iff order.strict_implies_order)
  then show "0 \<le> queueOver avg base" "queueOver avg base \<le> 2 ^ 31" "rnd (queueOver avg base) = queueOver avg base"
    unfolding queueOver_def Let_def e using e by (simp_all add: float_of_int_def)
qed

lemma delayDiscount_ok:
  assumes "factor_ok minDelayFactor df"
  shows "factor_ok minDelayFactor (delayDiscount q df)"
proof -
  have m: "0 \<le> minDelayFactor" using delay_consts(6) by simp
  define cut where "cut = (let cut = fdiv (2 * targetQueueUS) q; cut = (if cut < 1 / 2 then 1 / 2 else cut)
    in if cut > delayCut then delayCut else cut)"
  have "0 \<le> cut" "cut \<le> 1"
    using delay_consts(1,2) by (auto simp: cut_def Let_def)
  note c = factor_cut(1) [OF assms m rounded_consts(3) this]
  have "delayDiscount q df = (if q > 2 * targetQueueUS
      then (if fmul df cut < minDelayFactor then minDelayFactor else fmul df cut)
      else if q < targetQueueUS then fadd df (fmul delayRecover (fsub 1 df)) else df)"
    by (simp add: delayDiscount_def cut_def Let_def)
  then show ?thesis
    using c factor_recover(1) [OF assms m delay_consts(4,5)] assms by presburger
qed

lemma earlyDrop_ok: "0 \<le> earlyDrop q" "earlyDrop q \<le> maxAQMProb"
  using delay_consts(8) fl.nonneg by (auto simp: earlyDrop_def Let_def fdiv_def)

lemma owd_frame [simp]:
  "estimates_ok (l\<lparr>owdBase0 := w\<rparr>) = estimates_ok l" "estimates_ok (l\<lparr>owdBase1 := w\<rparr>) = estimates_ok l"
  "estimates_ok (l\<lparr>owdBaseSet0 := c\<rparr>) = estimates_ok l" "estimates_ok (l\<lparr>owdBaseSet1 := c\<rparr>) = estimates_ok l"
  "estimates_ok (l\<lparr>owdBucketAt := t\<rparr>) = estimates_ok l"
  "probe_ok (l\<lparr>owdBase0 := w\<rparr>) = probe_ok l" "probe_ok (l\<lparr>owdBase1 := w\<rparr>) = probe_ok l"
  "probe_ok (l\<lparr>owdBaseSet0 := c\<rparr>) = probe_ok l" "probe_ok (l\<lparr>owdBaseSet1 := c\<rparr>) = probe_ok l"
  "probe_ok (l\<lparr>owdBucketAt := t\<rparr>) = probe_ok l"
  by (simp_all add: estimates_ok_def probe_ok_def)

lemma owdBaseline_frame:
  assumes "owdBaseline mn now l = (l', base)"
  shows "estimates_ok l' = estimates_ok l" "probe_ok l' = probe_ok l" "delayFactor l' = delayFactor l"
    "capSamples l' = capSamples l" "haveCtrl l' = haveCtrl l" "lastRxBytes l' = lastRxBytes l"
    "lastCtrlTime l' = lastCtrlTime l"
  using assms unfolding owdBaseline_def Let_def by (elim Pair_inject, hypsubst, simp)+

lemma updateDelay_ok:
  assumes "estimates_ok l"
  shows "estimates_ok (updateDelayLocked mn avg now l)"
proof -
  obtain l0 base where o: "owdBaseline mn now l = (l0, base)" by fastforce
  have "estimates_ok l0" using owdBaseline_frame(1) [OF o] assms by simp
  then show ?thesis
    using queue_bounds [of avg base] delayDiscount_ok [of "delayFactor l0" "queueOver avg base"]
      earlyDrop_ok [of "queueOver avg base"]
    by (simp add: updateDelayLocked_def o Let_def estimates_ok_def)
qed

section \<open>The link as a component\<close>

datatype link_op =
    SendProbe timestamp
  | Ack u32 duration
  | Down
  | Ctrl u32 u32 u64 u32 u32 timestamp

fun link_step :: "link_op \<Rightarrow> link \<Rightarrow> link" where
  "link_step (SendProbe now) l = fst (OnProbeSent now l)"
| "link_step (Ack seq rtt) l = fst (OnProbeAck seq rtt l)"
| "link_step Down l = MarkDown l"
| "link_step (Ctrl h p b mn avg now) l = OnCtrl h p b mn avg now l"

definition link_inv :: "link \<Rightarrow> bool" where
  "link_inv l \<longleftrightarrow> probe_ok l \<and> estimates_ok l"

lemma NewLink_inv: "link_inv NewLink"
  using loss_consts(6) delay_consts(7,8) fl.one
  by (simp add: link_inv_def probe_ok_def estimates_ok_def factor_ok_def NewLink_def)

lemma goDown_estimates: "estimates_ok l \<Longrightarrow> estimates_ok (goDownLocked l)"
  using down_consts rounded_consts(2) by (simp add: goDownLocked_def estimates_ok_def factor_ok_def)

lemma OnProbeSent_estimates: "estimates_ok l \<Longrightarrow> estimates_ok (fst (OnProbeSent now l))"
proof (cases rule: OnProbeSent_cases [where l = l and now = now])
  case down
  assume "estimates_ok l"
  then have "estimates_ok (goDownLocked l)" by (rule goDown_estimates)
  with down show ?thesis by (simp add: estimates_ok_def)
next
  case kept
  assume "estimates_ok l"
  with kept show ?thesis by (simp add: estimates_ok_def)
qed

lemma rttSample_estimates: "estimates_ok (rttSample rtt l) = estimates_ok l"
  by (simp add: rttSample_def Let_def estimates_ok_def)

lemma OnProbeAck_estimates: "estimates_ok l \<Longrightarrow> estimates_ok (fst (OnProbeAck seq rtt l))"
proof (cases rule: OnProbeAck_cases [where l = l and seq = seq and rtt = rtt])
  case (known old p rest)
  assume "estimates_ok l"
  then have "estimates_ok (rttSample rtt (l\<lparr>outstanding := rest, consecAcked := consecAcked l + 1\<rparr>))"
    unfolding rttSample_estimates by (simp add: estimates_ok_def)
  with known(3) show ?thesis by (simp add: Let_def estimates_ok_def)
qed simp

text \<open>A report leaves the probe state alone.\<close>

lemma lossUpdate_frame:
  "probe_ok (lossUpdate e r l) = probe_ok l" "capSamples (lossUpdate e r l) = capSamples l"
  by (simp_all add: lossUpdate_def Let_def probe_ok_def)

lemma OnCtrl_inv:
  assumes "link_inv l"
  shows "link_inv (OnCtrl h p b mn avg now l)"
proof -
  let ?l = "updateDelayLocked mn avg now l"
  have u: "estimates_ok ?l"
    using assms updateDelay_ok by (simp add: link_inv_def)
  obtain l0 base where o: "owdBaseline mn now l = (l0, base)" by fastforce
  have pu: "probe_ok ?l"
    using owdBaseline_frame(2) [OF o] assms
    by (simp add: updateDelayLocked_def o Let_def link_inv_def probe_ok_def)
  let ?m = "?l\<lparr>lastHighest := h, lastRxPkts := p, lastRxBytes := b, lastCtrlTime := now\<rparr>"
  have m: "estimates_ok ?m" "probe_ok ?m"
    using u pu by (simp_all add: estimates_ok_def probe_ok_def)
  have c: "link_inv (capacityUpdate db (time_sub now t) now (lossUpdate e r ?m))" for db t e r
    using capacityUpdate_ok [OF lossUpdate_ok [OF m(1)] time_sub_less] m(2) lossUpdate_frame(1) [of e r ?m]
    by (simp add: link_inv_def) (simp add: capacityUpdate_def Let_def probe_ok_def)
  show ?thesis
    using c m u pu unfolding OnCtrl_def Let_def
    by (simp add: link_inv_def) (simp add: estimates_ok_def probe_ok_def)
qed

lemma link_step_inv: "link_inv l \<Longrightarrow> link_inv (link_step x l)"
proof (cases x)
  case (SendProbe now)
  assume "link_inv l"
  then show ?thesis
    using OnProbeSent_ok [of l now] OnProbeSent_estimates [of l now] SendProbe
    by (cases "OnProbeSent now l") (simp add: link_inv_def)
next
  case (Ack seq rtt)
  assume "link_inv l"
  then show ?thesis
    using OnProbeAck_ok [of l seq rtt] OnProbeAck_estimates [of l seq rtt] Ack
    by (cases "OnProbeAck seq rtt l") (simp add: link_inv_def)
next
  case Down
  assume "link_inv l"
  then show ?thesis
    using Down goDown_probe_ok goDown_estimates by (simp add: link_inv_def MarkDown_def)
next
  case (Ctrl h p b mn avg now)
  assume "link_inv l"
  then show ?thesis
    using Ctrl OnCtrl_inv by simp
qed

lemma link_run_inv: "link_inv l \<Longrightarrow> link_inv (fold link_step ops l)"
  by (induction ops arbitrary: l) (simp_all add: link_step_inv)

section \<open>Round-trip time\<close>

text \<open>With samples below about eighteen years the integer filter does not wrap.\<close>

definition rtt_ok :: "duration \<Rightarrow> duration \<Rightarrow> link \<Rightarrow> bool" where
  "rtt_ok lo hi l \<longleftrightarrow> (if hasRTT l then lo \<le> srtt l \<and> srtt l \<le> hi \<and> 0 \<le> rttvar l \<and> rttvar l \<le> hi
     else srtt l = 0 \<and> rttvar l = 0)"

lemma div_bounds:
  "0 < k \<Longrightarrow> k * lo \<le> x \<Longrightarrow> x \<le> k * hi \<Longrightarrow> lo \<le> x div k \<and> x div k \<le> hi" for k :: int
  using zdiv_mono1 [of "k * lo" x k] zdiv_mono1 [of x "k * hi" k] by simp

lemma rttSample_ok:
  assumes "rtt_ok lo hi l" "0 < lo" "hi \<le> 2 ^ 59" "rtt \<le> 0 \<or> lo \<le> rtt \<and> rtt \<le> hi"
  shows "rtt_ok lo hi (rttSample rtt l)"
proof (cases "0 < rtt \<and> hasRTT l")
  case False
  with assms show ?thesis
    by (auto simp: rttSample_def rtt_ok_def go_int)
next
  case True
  with assms have b: "lo \<le> srtt l" "srtt l \<le> hi" "0 \<le> rttvar l" "rttvar l \<le> hi" "lo \<le> rtt" "rtt \<le> hi"
    by (auto simp: rtt_ok_def)
  have i: "i64 (srtt l - rtt) = srtt l - rtt" "i64 (3 * rttvar l) = 3 * rttvar l"
      "i64 (7 * srtt l) = 7 * srtt l" "i64 (7 * srtt l + rtt) = 7 * srtt l + rtt"
      "i64 (- (srtt l - rtt)) = rtt - srtt l" "i64 (3 * rttvar l + \<bar>srtt l - rtt\<bar>) = 3 * rttvar l + \<bar>srtt l - rtt\<bar>"
    using b assms(2,3) by (auto intro!: i64_id [THEN trans])
  have dev: "(if srtt l - rtt < 0 then rtt - srtt l else srtt l - rtt) = \<bar>srtt l - rtt\<bar>"
    by simp
  have "rttSample rtt l = l\<lparr>rttvar := (3 * rttvar l + \<bar>srtt l - rtt\<bar>) div 4, srtt := (7 * srtt l + rtt) div 8\<rparr>"
    using True b assms(2) unfolding rttSample_def Let_def i dev by (simp add: quot_nonneg i)
  moreover have "\<bar>srtt l - rtt\<bar> \<le> hi"
    using b assms(2) by linarith
  ultimately show ?thesis
    using True b div_bounds [of 8 lo "7 * srtt l + rtt" hi]
      div_bounds [of 4 0 "3 * rttvar l + \<bar>srtt l - rtt\<bar>" hi]
    by (simp add: rtt_ok_def)
qed

fun rtt_in :: "duration \<Rightarrow> duration \<Rightarrow> link_op \<Rightarrow> bool" where
  "rtt_in lo hi (Ack seq rtt) \<longleftrightarrow> rtt \<le> 0 \<or> lo \<le> rtt \<and> rtt \<le> hi"
| "rtt_in lo hi _ \<longleftrightarrow> True"

lemma OnCtrl_rtt: "rtt_ok lo hi (OnCtrl h p b mn avg now l) = rtt_ok lo hi l"
proof -
  obtain l0 base where o: "owdBaseline mn now l = (l0, base)" by fastforce
  have "hasRTT l0 = hasRTT l" "srtt l0 = srtt l" "rttvar l0 = rttvar l"
    using o unfolding owdBaseline_def Let_def by (elim Pair_inject, hypsubst, simp)+
  then have "rtt_ok lo hi (updateDelayLocked mn avg now l) = rtt_ok lo hi l"
    by (simp add: updateDelayLocked_def o Let_def rtt_ok_def)
  moreover have "rtt_ok lo hi (capacityUpdate db dt now (lossUpdate e r m)) = rtt_ok lo hi m" for db dt e r m
    by (simp add: capacityUpdate_def lossUpdate_def Let_def rtt_ok_def)
  moreover have "rtt_ok lo hi (m\<lparr>lastHighest := h, lastRxPkts := p, lastRxBytes := b, lastCtrlTime := now\<rparr>) = rtt_ok lo hi m"
      "rtt_ok lo hi (m\<lparr>haveCtrl := True, lastHighest := h, lastRxPkts := p, lastRxBytes := b, lastCtrlTime := now\<rparr>) = rtt_ok lo hi m" for m
    by (simp_all add: rtt_ok_def)
  ultimately show ?thesis
    unfolding OnCtrl_def Let_def by simp
qed

lemma link_step_rtt:
  assumes "rtt_ok lo hi l" "0 < lo" "hi \<le> 2 ^ 59" "rtt_in lo hi x"
  shows "rtt_ok lo hi (link_step x l)"
proof (cases x)
  case (SendProbe now)
  with assms(1) show ?thesis
    by (cases rule: OnProbeSent_cases [where l = l and now = now]) (auto simp: rtt_ok_def goDownLocked_def)
next
  case (Ack seq rtt)
  show ?thesis
  proof (cases rule: OnProbeAck_cases [where l = l and seq = seq and rtt = rtt])
    case unknown
    with Ack assms(1) show ?thesis by simp
  next
    case (known old p rest)
    let ?l = "l\<lparr>outstanding := rest, consecAcked := consecAcked l + 1\<rparr>"
    have "rtt_ok lo hi (rttSample rtt ?l)"
      using assms Ack by (intro rttSample_ok) (simp_all add: rtt_ok_def)
    with known(3) Ack show ?thesis by (simp add: Let_def rtt_ok_def)
  qed
next
  case Down
  with assms(1) show ?thesis by (simp add: rtt_ok_def MarkDown_def goDownLocked_def)
next
  case (Ctrl h p b mn avg now)
  with assms(1) show ?thesis by (simp add: OnCtrl_rtt)
qed

section \<open>Counting acks\<close>

text \<open>The probe acks a link accepted since it last went down, read off the operations.\<close>

fun acks_since_down :: "link_op list \<Rightarrow> link \<Rightarrow> int \<Rightarrow> int" where
  "acks_since_down [] l n = n"
| "acks_since_down (x # xs) l n = acks_since_down xs (link_step x l)
     (case x of
        Ack seq rtt \<Rightarrow> if seq \<in> ps_seq ` set (outstanding l) then n + 1 else n
      | Down \<Rightarrow> 0
      | SendProbe now \<Rightarrow> if snd (snd (OnProbeSent now l)) then 0 else n
      | Ctrl _ _ _ _ _ _ \<Rightarrow> n)"

lemma OnCtrl_acked: "consecAcked (OnCtrl h p b mn avg now l) = consecAcked l"
proof -
  obtain l0 base where o: "owdBaseline mn now l = (l0, base)" by fastforce
  have "consecAcked l0 = consecAcked l"
    using o unfolding owdBaseline_def Let_def by (elim Pair_inject, hypsubst) simp
  then have "consecAcked (updateDelayLocked mn avg now l) = consecAcked l"
    by (simp add: updateDelayLocked_def o Let_def)
  moreover have "consecAcked (capacityUpdate db dt now (lossUpdate e r m)) = consecAcked m" for db dt e r m
    by (simp add: capacityUpdate_def lossUpdate_def Let_def)
  ultimately show ?thesis
    unfolding OnCtrl_def Let_def by simp
qed

lemma acks_count: "acks_since_down xs l (consecAcked l) = consecAcked (fold link_step xs l)"
proof (induction xs arbitrary: l)
  case (Cons x xs)
  have "(case x of Ack seq rtt \<Rightarrow> if seq \<in> ps_seq ` set (outstanding l) then consecAcked l + 1 else consecAcked l
      | Down \<Rightarrow> 0 | SendProbe now \<Rightarrow> if snd (snd (OnProbeSent now l)) then 0 else consecAcked l
      | Ctrl _ _ _ _ _ _ \<Rightarrow> consecAcked l) = consecAcked (link_step x l)"
  proof (cases x)
    case (SendProbe now)
    then show ?thesis
      by (cases rule: OnProbeSent_cases [where l = l and now = now]) (auto simp: goDownLocked_def)
  next
    case (Ack seq rtt)
    then show ?thesis
      by (cases rule: OnProbeAck_cases [where l = l and seq = seq and rtt = rtt]) (auto simp: Let_def)
  qed (simp_all add: MarkDown_def goDownLocked_def OnCtrl_acked)
  with Cons.IH [of "link_step x l"] show ?case by simp
qed simp

section \<open>Capacity and weight\<close>

lemma foldl_max:
  "(m :: f64) \<le> foldl (\<lambda>m s. if cs_bps s > m then cs_bps s else m) m ss \<and>
   (\<forall>s \<in> set ss. cs_bps s \<le> foldl (\<lambda>m s. if cs_bps s > m then cs_bps s else m) m ss) \<and>
   foldl (\<lambda>m s. if cs_bps s > m then cs_bps s else m) m ss \<in> insert m (cs_bps ` set ss)"
proof (induction ss arbitrary: m)
  case (Cons x ss)
  have "m \<le> (if cs_bps x > m then cs_bps x else m)" "cs_bps x \<le> (if cs_bps x > m then cs_bps x else m)"
    by auto
  with Cons.IH [of "if cs_bps x > m then cs_bps x else m"] show ?case
    unfolding foldl.simps by (fastforce split: if_splits)
qed simp

lemmas capacity_fold = foldl_max [THEN conjunct1] foldl_max [THEN conjunct2, THEN conjunct1, rule_format]
  foldl_max [THEN conjunct2, THEN conjunct2]

lemma weight_bounds:
  assumes "estimates_ok l"
  shows "capSamples l = [] \<Longrightarrow> Weight l = 0"
    and "capSamples l \<noteq> [] \<Longrightarrow> 0 < Weight l"
    and "Weight l \<le> capacityBpsLocked l"
proof -
  let ?c = "capacityBpsLocked l"
  show "capSamples l = [] \<Longrightarrow> Weight l = 0"
    by (simp add: Weight_def capacityBpsLocked_def fmul_def)
  have lf: "1 / 32 \<le> lossFactor l" "lossFactor l \<le> 1" and df: "1 / 16 \<le> delayFactor l" "delayFactor l \<le> 1"
    using assms loss_consts(5) delay_consts(6) by (simp_all add: estimates_ok_def factor_ok_def)
  have c: "?c = 0 \<or> (\<exists>s \<in> set (capSamples l). ?c = cs_bps s)"
    using capacity_fold(3) [of 0 "capSamples l"] by (auto simp: capacityBpsLocked_def)
  then have c0: "0 \<le> ?c" "rnd ?c = ?c"
    using assms by (auto simp: estimates_ok_def sample_ok_def)
  have w1: "0 \<le> fmul ?c (lossFactor l)" "fmul ?c (lossFactor l) \<le> ?c"
    using fl.scale_le [of ?c "lossFactor l"] c0 lf by (simp_all add: fmul_def)
  then show "Weight l \<le> ?c"
    using fl.scale_le [of "fmul ?c (lossFactor l)" "delayFactor l"] df
    by (simp add: Weight_def) (simp add: fmul_def fl.idem)
  assume "capSamples l \<noteq> []"
  then obtain s where "s \<in> set (capSamples l)" by (meson list.set_sel(1))
  then have "1 / 2 ^ 31 \<le> ?c"
    using assms capacity_fold(2) [of s "capSamples l" 0] by (auto simp: estimates_ok_def sample_ok_def capacityBpsLocked_def)
  then have "1 / 2 ^ 31 * (1 / 32) \<le> ?c * lossFactor l"
    using lf by (intro mult_mono) simp_all
  then have "rnd (1 / 2 ^ 36) \<le> fmul ?c (lossFactor l)"
    unfolding fmul_def by (intro fl.mono) simp
  then have "1 / 2 ^ 36 \<le> fmul ?c (lossFactor l)"
    using fl.exact [of 1 36] by simp
  then have "1 / 2 ^ 36 * (1 / 16) \<le> fmul ?c (lossFactor l) * delayFactor l"
    using df by (intro mult_mono) simp_all
  then have "rnd (1 / 2 ^ 40) \<le> Weight l"
    unfolding Weight_def fmul_def [of "fmul _ _"] by (intro fl.mono) simp
  then show "0 < Weight l"
    using fl.exact [of 1 40] by simp
qed

section \<open>Silence\<close>

text \<open>One more unanswered probe: the path is down, or the oldest probe is still the first.\<close>

lemma silent_step:
  assumes "up l \<longrightarrow> hd (outstanding l) = p \<and> length (outstanding l) = n" "0 < n" "n < 32"
  shows "let l' = fst (OnProbeSent now l) in
    up l' \<longrightarrow> up l \<and> hd (outstanding l') = p \<and> length (outstanding l') = Suc n \<and>
      time_sub now (ps_at p) \<le> 2 * Second"
proof (cases rule: OnProbeSent_cases [where l = l and now = now])
  case down
  then show ?thesis by (simp add: goDownLocked_def)
next
  case kept
  show ?thesis
  proof (cases "up l")
    case True
    then have o: "outstanding l \<noteq> []" "hd (outstanding l) = p" "length (outstanding l) = n"
      using assms by auto
    with kept True have "time_sub now (ps_at p) \<le> 2 * Second"
      using probeRTO_bounds(2) [of l] by auto
    with kept(2) o assms(3) show ?thesis by (simp add: hd_append)
  qed (simp add: kept)
qed

lemma silent_run:
  assumes "up l \<longrightarrow> hd (outstanding l) = p \<and> length (outstanding l) = n" "0 < n" "n + length ts \<le> 32"
    "\<exists>t \<in> set ts. time_sub t (ps_at p) > 2 * Second"
  shows "\<not> up (fold link_step (map SendProbe ts) l)"
proof -
  have stay: "\<not> up m \<Longrightarrow> \<not> up (fold link_step (map SendProbe us) m)" for us m
  proof (induction us arbitrary: m)
    case (Cons u us)
    have "\<not> up (fst (OnProbeSent u m))"
      using Cons.prems by (cases rule: OnProbeSent_cases [where l = m and now = u]) simp_all
    with Cons.IH show ?case by simp
  qed simp
  show ?thesis
    using assms
  proof (induction ts arbitrary: l n)
    case (Cons t ts)
    let ?l = "fst (OnProbeSent t l)"
    have s: "up ?l \<longrightarrow> up l \<and> hd (outstanding ?l) = p \<and> length (outstanding ?l) = Suc n \<and>
        time_sub t (ps_at p) \<le> 2 * Second"
      using silent_step [OF Cons.prems(1,2), of t] Cons.prems(3) by (simp add: Let_def)
    show ?case
    proof (cases "up ?l")
      case True
      with s Cons.prems(4) have "\<exists>t \<in> set ts. time_sub t (ps_at p) > 2 * Second"
        by auto
      then show ?thesis
        using Cons.IH [of ?l "Suc n"] s Cons.prems(3) by simp
    next
      case False
      then show ?thesis using stay [of ?l ts] by simp
    qed
  qed simp
qed

section \<open>Properties\<close>

text \<open>
  C11. Every estimate of a link stays in the range its consumers rely on, for every sequence
  of probes, acks (any sequence number and round-trip time), forced downs and receiver reports
  (any counters, any delays, any clock), with binary64 rounding throughout: the loss and delay
  discounts stay between their floors and one, the loss average is a probability, the early-drop
  probability is at most 15%, the queue estimate is a non-negative 32-bit number of microseconds
  and at most 32 probes are outstanding.
\<close>

theorem link_estimates_bounded:
  "let l = fold link_step ops NewLink in
     minLossFactor \<le> lossFactor l \<and> lossFactor l \<le> 1 \<and>
     minDelayFactor \<le> delayFactor l \<and> delayFactor l \<le> 1 \<and>
     0 \<le> lossEWMA l \<and> lossEWMA l \<le> 1 \<and>
     0 \<le> DropProb l \<and> DropProb l \<le> rnd (15 / 100) \<and>
     0 \<le> queueUS l \<and> queueUS l \<le> 2 ^ 31 \<and> length (outstanding l) \<le> 32 \<and>
     (\<forall>b \<in> cs_bps ` set (capSamples l). 1 / 2 ^ 31 \<le> b \<and> b \<le> 2 ^ 74)"
  using link_run_inv [OF NewLink_inv, of ops]
  by (auto simp: Let_def link_inv_def estimates_ok_def factor_ok_def sample_ok_def probe_ok_def
      DropProb_def maxAQMProb_def)

theorem link_estimates_bounded_witness:
  "\<exists>l. l = fold link_step [SendProbe 0, Ack 1 (20 * Millisecond), Ctrl 10 5 6000 7 9 3] NewLink \<and>
     minLossFactor \<le> lossFactor l \<and> lossFactor l \<le> 1"
  using link_estimates_bounded [of "[SendProbe 0, Ack 1 (20 * Millisecond), Ctrl 10 5 6000 7 9 3]"]
  by (simp only: Let_def) blast

text \<open>
  C10. The up/down state machine: after any sequence of operations a path is up exactly when
  at least three acks of outstanding probes have been accepted since it last went down (or
  since it was created). Duplicate and ancient acks do not count; reports do not matter.
\<close>

theorem link_up_iff_three_acks:
  "up (fold link_step ops NewLink) \<longleftrightarrow> 3 \<le> acks_since_down ops NewLink 0"
proof -
  have "acks_since_down ops NewLink 0 = consecAcked (fold link_step ops NewLink)"
    using acks_count [of ops NewLink] by (simp add: NewLink_def)
  then show ?thesis
    using link_run_inv [OF NewLink_inv, of ops] by (simp add: link_inv_def probe_ok_def)
qed

text \<open>
  C34. A silent path is detected: from an up path whose only outstanding probe was sent at
  time \<open>t\<close>, twenty-one further probes at the 100 ms cadence with no ack in between leave the
  path down, whatever its round-trip estimate.
\<close>

theorem silent_path_goes_down:
  assumes "outstanding l = [\<lparr>ps_seq = s, ps_at = t\<rparr>]"
  shows "\<not> up (fold link_step (map (\<lambda>k. SendProbe (t + int k * ProbeInterval)) [1..<22]) l)"
proof -
  let ?ts = "map (\<lambda>k. t + int k * ProbeInterval) [1..<22]"
  have "time_sub (t + int 21 * ProbeInterval) t > 2 * Second"
    by (simp add: time_sub_def ProbeInterval_def time_units)
  then have "\<exists>u \<in> set ?ts. time_sub u (ps_at \<lparr>ps_seq = s, ps_at = t\<rparr>) > 2 * Second"
    by (intro bexI [of _ "t + int 21 * ProbeInterval"]) auto
  then have "\<not> up (fold link_step (map SendProbe ?ts) l)"
    using assms by (intro silent_run [where n = 1 and p = "\<lparr>ps_seq = s, ps_at = t\<rparr>"]) simp_all
  then show ?thesis unfolding map_map comp_def .
qed

theorem silent_path_goes_down_witness:
  "\<exists>l. l = NewLink\<lparr>up := True, outstanding := [\<lparr>ps_seq = 4, ps_at = 70\<rparr>]\<rparr> \<and> up l \<and>
     \<not> up (fold link_step (map (\<lambda>k. SendProbe (70 + int k * ProbeInterval)) [1..<22]) l)"
  using silent_path_goes_down [of "NewLink\<lparr>up := True, outstanding := [\<lparr>ps_seq = 4, ps_at = 70\<rparr>]\<rparr>" 4 70]
  by simp

text \<open>
  A slow path is not mistaken for a dead one: sending a probe takes a path down only if
  the oldest unanswered probe is more than 300 ms old, and always if it is more than 2 s old;
  a path taken down restarts with the reduced loss discount and one outstanding probe.
\<close>

theorem probe_timeout_window:
  assumes "OnProbeSent now l = (l', seq, wentDown)"
  shows "(wentDown \<longrightarrow> up l \<and> outstanding l \<noteq> [] \<and> \<not> up l' \<and> lossFactor l' = downLossFactor \<and>
        outstanding l' = [\<lparr>ps_seq = seq, ps_at = now\<rparr>] \<and>
        300 * Millisecond < time_sub now (ps_at (hd (outstanding l)))) \<and>
    (up l \<and> outstanding l \<noteq> [] \<and> 2 * Second < time_sub now (ps_at (hd (outstanding l))) \<longrightarrow> wentDown) \<and>
    (\<not> wentDown \<longrightarrow> up l' = up l)"
proof (cases rule: OnProbeSent_cases [where l = l and now = now])
  case down
  with assms probeRTO_bounds(1) [of l] show ?thesis
    by (auto simp: goDownLocked_def ProbeInterval_def)
next
  case kept
  with assms probeRTO_bounds(2) [of l] show ?thesis by auto
qed

theorem probe_timeout_window_witness:
  "snd (snd (OnProbeSent (3 * Second) (NewLink\<lparr>up := True, outstanding := [\<lparr>ps_seq = 4, ps_at = 0\<rparr>]\<rparr>)))"
proof -
  let ?l = "NewLink\<lparr>up := True, outstanding := [\<lparr>ps_seq = 4, ps_at = 0\<rparr>]\<rparr>"
  obtain l' s d where r: "OnProbeSent (3 * Second) ?l = (l', s, d)"
    by (metis prod_cases3)
  have "2 * Second < time_sub (3 * Second) 0"
    by (simp add: time_sub_def time_units)
  with probe_timeout_window [OF r] have "d" by simp
  with r show ?thesis by simp
qed

text \<open>
  The round-trip filter is an average: if every positive round-trip sample lies between
  \<open>lo\<close> and \<open>hi\<close> (at most 2^59 ns, about eighteen years, so that the 64-bit arithmetic does not
  wrap), then after any operations the smoothed value lies between them too and the deviation
  between 0 and \<open>hi\<close>.
\<close>

theorem srtt_within_samples:
  assumes "0 < lo" "hi \<le> 2 ^ 59" "list_all (rtt_in lo hi) ops" "hasRTT (fold link_step ops NewLink)"
  shows "lo \<le> srtt (fold link_step ops NewLink) \<and> srtt (fold link_step ops NewLink) \<le> hi \<and>
    0 \<le> rttvar (fold link_step ops NewLink) \<and> rttvar (fold link_step ops NewLink) \<le> hi"
proof -
  have "rtt_ok lo hi l \<Longrightarrow> list_all (rtt_in lo hi) ops \<Longrightarrow> rtt_ok lo hi (fold link_step ops l)" for l
    using assms(1,2) by (induction ops arbitrary: l) (simp_all add: link_step_rtt)
  moreover have "rtt_ok lo hi NewLink"
    by (simp add: rtt_ok_def NewLink_def)
  ultimately show ?thesis
    using assms(3,4) by (simp add: rtt_ok_def)
qed

theorem srtt_within_samples_witness:
  "100 * Millisecond \<le> srtt (fold link_step [SendProbe 0, Ack 1 (100 * Millisecond), SendProbe 5, Ack 2 (200 * Millisecond)] NewLink) \<and>
   srtt (fold link_step [SendProbe 0, Ack 1 (100 * Millisecond), SendProbe 5, Ack 2 (200 * Millisecond)] NewLink) \<le> 200 * Millisecond"
proof -
  have "hasRTT (fold link_step [SendProbe 0, Ack 1 (100 * Millisecond), SendProbe 5, Ack 2 (200 * Millisecond)] NewLink)"
    by code_simp
  from srtt_within_samples [OF _ _ _ this, of "100 * Millisecond" "200 * Millisecond"] show ?thesis
    by (simp add: time_units)
qed

text \<open>
  The scheduling weight distinguishes unknown from slow: after any operations the weight
  of a link is zero exactly when it holds no delivery-rate sample, and it never exceeds the
  largest sample. No combination of discounts and roundings turns a measured path into an
  unknown one.
\<close>

theorem weight_zero_iff_unknown:
  "(Weight (fold link_step ops NewLink) = 0 \<longleftrightarrow> capSamples (fold link_step ops NewLink) = []) \<and>
   0 \<le> Weight (fold link_step ops NewLink) \<and>
   Weight (fold link_step ops NewLink) \<le> capacityBpsLocked (fold link_step ops NewLink)"
proof -
  have "estimates_ok (fold link_step ops NewLink)"
    using link_run_inv [OF NewLink_inv, of ops] by (simp add: link_inv_def)
  from weight_bounds [OF this] show ?thesis by fastforce
qed

section \<open>A report that arrives out of order\<close>

lemma Seconds_le_16:
  assumes "10 * Millisecond \<le> d" "d \<le> capacityWindow"
  shows "Seconds d \<le> 16"
proof -
  have s: "quot d Second \<le> 10" "0 \<le> remq d Second" "remq d Second < Second"
    using assms by (simp_all add: go_int capacityWindow_def time_units)
  then have m: "rnd (of_int (remq d Second) / 1000000000) \<le> 1"
    by (intro fl.le_one) (simp add: time_units)
  have "float_of_int (quot d Second) = of_int (quot d Second)"
    unfolding float_of_int_def using s(1) assms by (intro fl.exact_int) (simp add: go_int time_units)
  moreover have "float_of_int (remq d Second) = of_int (remq d Second)"
    unfolding float_of_int_def using s(2,3) by (intro fl.exact_int) (simp add: time_units)
  ultimately have "Seconds d = rnd (of_int (quot d Second) + rnd (of_int (remq d Second) / 1000000000))"
    by (simp add: Seconds_def float_ops)
  also have "\<dots> \<le> rnd (2 ^ 4)"
    using m s(1) by (intro fl.mono) (simp add: add_mono [where b = "10 :: rat" and d = 1, THEN order_trans])
  finally show ?thesis
    by (simp add: rnd_pow2 [of 4, simplified])
qed

lemma rate_huge:
  assumes "2 ^ 63 \<le> uint (b :: u64)" "0 < s" "s \<le> 16"
  shows "2 ^ 62 \<le> fdiv (fmul (float_of_int (uint b)) 8) s"
proof -
  have "(of_int (2 ^ 63) :: rat) \<le> of_int (uint b)"
    using assms(1) by (simp only: of_int_le_iff)
  then have "rnd (2 ^ 63) \<le> rnd (of_int (uint b))"
    by (intro fl.mono) simp
  then have "2 ^ 63 \<le> float_of_int (uint b)"
    by (simp only: rnd_pow2 float_of_int_def)
  then have "rnd (2 ^ 66) \<le> fmul (float_of_int (uint b)) 8"
    unfolding fmul_def by (intro fl.mono) simp
  then have "2 ^ 66 / 16 \<le> fmul (float_of_int (uint b)) 8 / s"
    unfolding rnd_pow2 using assms(2,3) by (intro frac_le) simp_all
  then have "rnd (2 ^ 62) \<le> fdiv (fmul (float_of_int (uint b)) 8) s"
    unfolding fdiv_def by (intro fl.mono) simp
  then show ?thesis
    by (simp only: rnd_pow2)
qed

lemma uint_behind:
  assumes "(x :: u64) < y" "uint y - uint x \<le> 2 ^ 63"
  shows "2 ^ 63 \<le> uint (x - y)"
proof -
  have lt: "uint x < uint y"
    using assms(1) by (simp add: word_less_def)
  have "uint (x - y) = (uint x - uint y) mod 2 ^ 64"
    by (simp add: uint_word_ariths)
  also have "\<dots> = (uint x - uint y + 2 ^ 64) mod 2 ^ 64"
    by simp
  also have "\<dots> = uint x - uint y + 2 ^ 64"
    using assms(2) lt by (intro mod_pos_pos_trivial) simp_all
  finally show ?thesis
    using assms(2) by simp
qed

lemma dropWhile_keeps: "x \<in> set xs \<Longrightarrow> \<not> P x \<Longrightarrow> x \<in> set (dropWhile P xs)"
  by (induction xs) auto

lemma updateDelay_frame:
  "capSamples (updateDelayLocked mn avg now l) = capSamples l"
  "haveCtrl (updateDelayLocked mn avg now l) = haveCtrl l"
  "lastRxBytes (updateDelayLocked mn avg now l) = lastRxBytes l"
  "lastCtrlTime (updateDelayLocked mn avg now l) = lastCtrlTime l"
  by (cases "owdBaseline mn now l"; simp add: updateDelayLocked_def Let_def owdBaseline_frame)+

text \<open>The operations of a link whose reports, if any, arrive by time \<open>t\<close>.\<close>

fun reports_by :: "timestamp \<Rightarrow> link_op \<Rightarrow> bool" where
  "reports_by t (Ctrl h p bt mn avg now) = (now \<le> t)"
| "reports_by t _ = True"

lemma sample_stays:
  assumes "x \<in> set (capSamples l)" "reports_by (cs_t x + capacityWindow) op"
  shows "x \<in> set (capSamples (link_step op l))"
proof (cases op)
  case (SendProbe now)
  then show ?thesis
    using assms(1) by (cases rule: OnProbeSent_cases [where l = l and now = now]) (auto simp: goDownLocked_def)
next
  case (Ack seq rtt)
  have "capSamples (rttSample rtt m) = capSamples m" for m
    by (simp add: rttSample_def Let_def)
  with Ack assms(1) show ?thesis
    by (cases rule: OnProbeAck_cases [where l = l and seq = seq and rtt = rtt]) (auto simp: Let_def)
next
  case Down
  then show ?thesis
    using assms(1) by (simp add: MarkDown_def goDownLocked_def)
next
  case (Ctrl h p bt mn avg now)
  have "x \<in> set (capSamples (capacityUpdate db dt now m))" if "x \<in> set (capSamples m)" for db dt m
    using that assms(2) Ctrl by (auto simp: capacityUpdate_def Let_def intro: dropWhile_keeps)
  then show ?thesis
    using assms(1) Ctrl by (simp add: OnCtrl_def Let_def updateDelay_frame lossUpdate_frame)
qed

lemma sample_stays_run:
  "x \<in> set (capSamples l) \<Longrightarrow> list_all (reports_by (cs_t x + capacityWindow)) ops \<Longrightarrow>
     x \<in> set (capSamples (fold link_step ops l))"
  by (induction ops arbitrary: l) (auto intro: sample_stays)

lemma weight_ge:
  assumes "estimates_ok l" "x \<in> set (capSamples l)" "2 ^ 62 \<le> cs_bps x"
  shows "2 ^ 62 \<le> capacityBpsLocked l" "2 ^ 53 \<le> Weight l"
proof -
  let ?c = "capacityBpsLocked l"
  show c: "2 ^ 62 \<le> ?c"
    using assms(2,3) capacity_fold(2) [of x "capSamples l" 0] by (simp add: capacityBpsLocked_def)
  have f: "1 / 32 \<le> lossFactor l" "1 / 16 \<le> delayFactor l"
    using assms(1) loss_consts(5) delay_consts(6) by (simp_all add: estimates_ok_def factor_ok_def)
  have "2 ^ 62 * (1 / 32) \<le> ?c * lossFactor l"
    using c f by (intro mult_mono) simp_all
  then have "rnd (2 ^ 57) \<le> fmul ?c (lossFactor l)"
    unfolding fmul_def by (intro fl.mono) simp
  then have "2 ^ 57 * (1 / 16) \<le> fmul ?c (lossFactor l) * delayFactor l"
    unfolding rnd_pow2 using f by (intro mult_mono) simp_all
  then have "rnd (2 ^ 53) \<le> Weight l"
    unfolding Weight_def fmul_def [of "fmul _ _"] by (intro fl.mono) simp
  then show "2 ^ 53 \<le> Weight l"
    by (simp only: rnd_pow2)
qed

text \<open>
  C38. A receiver report that arrives out of order poisons the capacity estimate, because
  the byte counters are subtracted in 64-bit unsigned arithmetic. In every state of a link
  that has had a report, a report whose byte counter is behind the last one (by any amount up
  to \<open>2 ^ 63\<close>) and that arrives between 10 ms and 10 s after it adds a delivery-rate sample of
  at least \<open>2 ^ 62\<close> bit/s. Until ten seconds later, whatever probes, acks and reports follow,
  the link's capacity is at least that much and the weight the scheduler reads is at least
  \<open>2 ^ 53\<close>, however lossy or congested the path is.
\<close>

theorem stale_report_poisons_capacity:
  assumes "l = fold link_step ops NewLink" "haveCtrl l"
    and "bt < lastRxBytes l" "uint (lastRxBytes l) - uint bt \<le> 2 ^ 63"
    and "10 * Millisecond \<le> time_sub now (lastCtrlTime l)"
    and "time_sub now (lastCtrlTime l) \<le> capacityWindow"
    and "list_all (reports_by (now + capacityWindow)) later"
  shows "2 ^ 62 \<le> capacityBpsLocked (fold link_step later (OnCtrl h p bt mn avg now l)) \<and>
    2 ^ 53 \<le> Weight (fold link_step later (OnCtrl h p bt mn avg now l))"
proof -
  let ?dt = "time_sub now (lastCtrlTime l)" and ?db = "bt - lastRxBytes l"
  let ?x = "\<lparr>cs_t = now, cs_bps = fdiv (fmul (float_of_int (uint ?db)) 8) (Seconds ?dt)\<rparr>"
  have db: "2 ^ 63 \<le> uint ?db"
    by (rule uint_behind [OF assms(3,4)])
  then have pos: "0 < ?db"
    by (simp add: word_less_def)
  have x: "2 ^ 62 \<le> cs_bps ?x"
    using rate_huge [OF db _ Seconds_le_16 [OF assms(5,6)]] Seconds_bounds(1) [OF assms(5) time_sub_less]
    by simp
  have "0 < ?dt"
    using assms(5) by (simp add: time_units)
  then have "?x \<in> set (capSamples (OnCtrl h p bt mn avg now l))"
    using assms(2,5) pos
    by (auto simp: OnCtrl_def Let_def updateDelay_frame capacityUpdate_def lossUpdate_frame
        capacityWindow_def time_units intro!: dropWhile_keeps)
  then have in_run: "?x \<in> set (capSamples (fold link_step later (OnCtrl h p bt mn avg now l)))"
    using assms(7) by (intro sample_stays_run) simp_all
  have "link_inv (OnCtrl h p bt mn avg now l)"
    unfolding assms(1) by (intro OnCtrl_inv link_run_inv NewLink_inv)
  then have "estimates_ok (fold link_step later (OnCtrl h p bt mn avg now l))"
    using link_run_inv [of "OnCtrl h p bt mn avg now l" later] by (simp add: link_inv_def)
  from weight_ge [OF this in_run x] show ?thesis by simp
qed

text \<open>
  Two reports of 14000 and 12600 bytes, 50 ms apart, the older one last; two more reports follow.
\<close>

theorem stale_report_poisons_capacity_witness:
  "2 ^ 53 \<le> Weight (fold link_step [Down, Ctrl 11 11 15400 0 0 Second, Ctrl 12 12 16800 0 0 (9 * Second)]
     (OnCtrl 9 9 12600 0 0 (100 * Millisecond)
       (fold link_step [Ctrl 10 10 14000 0 0 (50 * Millisecond)] NewLink)))"
proof -
  let ?l = "fold link_step [Ctrl 10 10 14000 0 0 (50 * Millisecond)] NewLink"
  have l: "haveCtrl ?l" "lastRxBytes ?l = 14000" "lastCtrlTime ?l = 50 * Millisecond"
    by (simp_all add: OnCtrl_def Let_def updateDelay_frame NewLink_def)
  show ?thesis
    using stale_report_poisons_capacity [OF refl l(1), of 12600 "100 * Millisecond"
        "[Down, Ctrl 11 11 15400 0 0 Second, Ctrl 12 12 16800 0 0 (9 * Second)]" 9 9 0 0]
    unfolding l by (simp add: time_sub_def capacityWindow_def time_units)
qed

end
