(* ===== verification/Paths.thy ===== *)
theory Paths
  imports Link
begin

text \<open>
  Package \<^verbatim>\<open>internal/pathmon\<close>, files \<^verbatim>\<open>rxstats.go\<close> (receive counters and one-way-delay
  estimate of a path, and the hold time computed from the estimates of all paths) and
  \<^verbatim>\<open>select.go\<close> (ranking of paths for latency-sensitive traffic, and the aggregate loss).
\<close>

section \<open>Receive statistics\<close>

record rxstats =
  rx_started :: bool
  rx_highest :: u32
  rx_pkts :: u32
  rx_bytes :: u64
  haveOwd :: bool
  owdEwma :: f64
  owdVar :: f64
  owdMin :: u32
  haveWin :: bool
  lastData :: timestamp

text \<open>The zero value of the struct, as the engine declares it.\<close>

definition NewRxStats :: rxstats where
  "NewRxStats = \<lparr>rx_started = False, rx_highest = 0, rx_pkts = 0, rx_bytes = 0, haveOwd = False,
     owdEwma = 0, owdVar = 0, owdMin = 0, haveWin = False, lastData = zeroTime\<rparr>"

definition OnData :: "u32 \<Rightarrow> int \<Rightarrow> u32 \<Rightarrow> timestamp \<Rightarrow> rxstats \<Rightarrow> rxstats" where
  "OnData pathSeq sz owdUS now r =
     (let r = (if \<not> rx_started r \<or> sint (pathSeq - rx_highest r) > 0
               then r\<lparr>rx_highest := pathSeq, rx_started := True\<rparr> else r);
          r = r\<lparr>rx_pkts := rx_pkts r + 1, rx_bytes := rx_bytes r + of_int sz, lastData := now\<rparr>;
          o' = float_of_int (sint owdUS);
          r = (if \<not> haveOwd r then r\<lparr>owdEwma := o', owdVar := 0, haveOwd := True\<rparr>
               else (let dev = \<bar>fsub o' (owdEwma r)\<bar>
                     in r\<lparr>owdVar := fadd (fmul (3 / 4) (owdVar r)) (fmul (1 / 4) dev),
                          owdEwma := fadd (fmul (7 / 8) (owdEwma r)) (fmul (1 / 8) o')\<rparr>))
      in if \<not> haveWin r \<or> sint owdUS < sint (owdMin r)
         then r\<lparr>owdMin := owdUS, haveWin := True\<rparr> else r)"

record rx_report =
  rep_highest :: u32
  rep_pkts :: u32
  rep_bytes :: u64
  rep_owdMin :: u32
  rep_owdAvg :: u32

text \<open>\<open>None\<close> is the result with \<^verbatim>\<open>ok = false\<close>, which leaves the state as it is.\<close>

definition Report :: "rxstats \<Rightarrow> rxstats \<times> rx_report option" where
  "Report r =
     (if \<not> rx_started r then (r, None)
      else (r\<lparr>haveWin := False\<rparr>,
            Some \<lparr>rep_highest = rx_highest r, rep_pkts = rx_pkts r, rep_bytes = rx_bytes r,
                  rep_owdMin = owdMin r, rep_owdAvg = word_of_int (ftrunc (owdEwma r))\<rparr>))"

definition Peek :: "rxstats \<Rightarrow> u32 \<times> u64" where
  "Peek r = (rx_pkts r, rx_bytes r)"

definition OwdView :: "timestamp \<Rightarrow> duration \<Rightarrow> rxstats \<Rightarrow> (f64 \<times> f64) option" where
  "OwdView now staleness r =
     (if \<not> haveOwd r \<or> time_sub now (lastData r) > staleness then None
      else Some (owdEwma r, owdVar r))"

definition maxFloat64 :: f64 where "maxFloat64 = (2 ^ 53 - 1) * 2 ^ 971"

definition hold_scan :: "f64 \<times> f64 \<times> f64 \<Rightarrow> f64 \<times> f64 \<Rightarrow> f64 \<times> f64 \<times> f64" where
  "hold_scan = (\<lambda>(minE, maxE, maxJ) (e, j).
     (if e < minE then e else minE, if e > maxE then e else maxE, if j > maxJ then j else maxJ))"

definition ComputeHold :: "(f64 \<times> f64) list \<Rightarrow> duration" where
  "ComputeHold views =
     (if length views < 2 then 0
      else (let (minE, maxE, maxJ) = foldl hold_scan (maxFloat64, - maxFloat64, 0) views;
                spreadUS = fadd (fsub maxE minE) (fmul 2 maxJ)
            in i64 (ftrunc spreadUS * Microsecond)))"

section \<open>Ranking paths\<close>

definition realtimeScore :: "LinkSnapshot \<Rightarrow> duration" where
  "realtimeScore s = i64 (i64 (SRTT s + i64 (2 * RTTVar s)) +
     ftrunc (fmul (LossEWMA s) (float_of_int (50 * Millisecond))))"

text \<open>One iteration of each loop; the index is the position in the slice, -1 is none yet.\<close>

definition latency_scan :: "int \<times> duration \<Rightarrow> nat \<times> LinkSnapshot \<Rightarrow> int \<times> duration" where
  "latency_scan = (\<lambda>(best, bestScore) (i, s).
     if \<not> Up s then (best, bestScore)
     else (let sc = realtimeScore s in
           if best = -1 \<or> sc < bestScore then (int i, sc) else (best, bestScore)))"

definition BestLatency :: "LinkSnapshot list \<Rightarrow> int" where
  "BestLatency snaps = fst (foldl latency_scan (-1, 0) (enumerate 0 snaps))"

definition pair_scan :: "(int \<times> duration) \<times> int \<times> duration \<Rightarrow> nat \<times> LinkSnapshot \<Rightarrow> (int \<times> duration) \<times> int \<times> duration" where
  "pair_scan = (\<lambda>((first, s1), (second, s2)) (i, s).
     if \<not> Up s then ((first, s1), (second, s2))
     else (let sc = realtimeScore s in
           if first = -1 \<or> sc < s1 then ((int i, sc), (first, s1))
           else if second = -1 \<or> sc < s2 then ((first, s1), (int i, sc))
           else ((first, s1), (second, s2))))"

definition BestPair :: "LinkSnapshot list \<Rightarrow> int \<times> int" where
  "BestPair snaps = (let ((first, _), (second, _)) = foldl pair_scan ((-1, 0), (-1, 0)) (enumerate 0 snaps)
     in (first, second))"

definition loss_scan :: "f64 \<times> f64 \<Rightarrow> LinkSnapshot \<Rightarrow> f64 \<times> f64" where
  "loss_scan = (\<lambda>(num, den) s.
     if \<not> Up s then (num, den)
     else (let w = (if WeightBps s \<le> 0 then 1 else WeightBps s)
           in (fadd num (fmul (LossEWMA s) w), fadd den w)))"

definition WeightedLoss :: "LinkSnapshot list \<Rightarrow> f64" where
  "WeightedLoss snaps =
     (let (num, den) = foldl loss_scan (0, 0) snaps in if den = 0 then 0 else fdiv num den)"

section \<open>The best path\<close>

text \<open>
  \<open>best_up P snaps i\<close>: \<open>i\<close> is an index of least score among the up paths that satisfy \<open>P\<close>,
  or -1 when there is none.
\<close>

definition candidate :: "(nat \<Rightarrow> bool) \<Rightarrow> LinkSnapshot list \<Rightarrow> nat \<Rightarrow> bool" where
  "candidate P snaps k \<longleftrightarrow> k < length snaps \<and> Up (snaps ! k) \<and> P k"

definition best_up :: "(nat \<Rightarrow> bool) \<Rightarrow> LinkSnapshot list \<Rightarrow> int \<Rightarrow> bool" where
  "best_up P snaps i \<longleftrightarrow>
     (if i = -1 then \<forall>k. \<not> candidate P snaps k
      else \<exists>n. i = int n \<and> candidate P snaps n \<and>
        (\<forall>k. candidate P snaps k \<longrightarrow> realtimeScore (snaps ! n) \<le> realtimeScore (snaps ! k)))"

lemma enumerate_snoc: "enumerate 0 (xs @ [x]) = enumerate 0 xs @ [(length xs, x)]"
  by (simp add: enumerate_append_eq)

lemma candidate_snoc:
  "candidate P (xs @ [x]) k \<longleftrightarrow> candidate P xs k \<or> (k = length xs \<and> Up x \<and> P k)"
  by (auto simp: candidate_def nth_append less_Suc_eq)

lemma candidate_nth: "candidate P xs k \<Longrightarrow> (xs @ [x]) ! k = xs ! k"
  by (simp add: candidate_def nth_append)

definition latency_inv :: "LinkSnapshot list \<Rightarrow> int \<times> duration \<Rightarrow> bool" where
  "latency_inv xs = (\<lambda>(b, sc). best_up (\<lambda>_. True) xs b \<and> (b \<noteq> -1 \<longrightarrow> sc = realtimeScore (xs ! nat b)))"

lemma latency_scan_inv: "latency_inv xs (foldl latency_scan (-1, 0) (enumerate 0 xs))"
proof (induction xs rule: rev_induct)
  case Nil
  then show ?case by (simp add: latency_inv_def best_up_def candidate_def)
next
  case (snoc x xs)
  obtain b sc where r: "foldl latency_scan (-1, 0) (enumerate 0 xs) = (b, sc)" by fastforce
  with snoc.IH have ih: "best_up (\<lambda>_. True) xs b" "b \<noteq> -1 \<longrightarrow> sc = realtimeScore (xs ! nat b)"
    by (simp_all add: latency_inv_def)
  show ?case
    using ih unfolding enumerate_snoc foldl_append r
    by (auto simp: latency_inv_def latency_scan_def Let_def best_up_def candidate_snoc candidate_nth nth_append
        split: if_splits) (fastforce simp: candidate_def)+
qed


definition pair_inv :: "LinkSnapshot list \<Rightarrow> (int \<times> duration) \<times> int \<times> duration \<Rightarrow> bool" where
  "pair_inv xs = (\<lambda>((f, s1), (g, s2)). best_up (\<lambda>_. True) xs f \<and> best_up (\<lambda>k. int k \<noteq> f) xs g \<and>
     (f \<noteq> -1 \<longrightarrow> s1 = realtimeScore (xs ! nat f)) \<and> (g \<noteq> -1 \<longrightarrow> s2 = realtimeScore (xs ! nat g)))"

lemma best_up_none: "best_up P xs (-1) \<Longrightarrow> \<not> candidate P xs k"
  by (simp add: best_up_def)

lemma best_up_cases:
  assumes "best_up P xs i"
  obtains (none) "i = -1" "\<And>k. \<not> candidate P xs k"
    | (some) n where "i = int n" "candidate P xs n"
      "\<And>k. candidate P xs k \<Longrightarrow> realtimeScore (xs ! n) \<le> realtimeScore (xs ! k)"
  using assms by (auto simp: best_up_def split: if_splits)

lemma best_up_someI:
  "candidate P xs n \<Longrightarrow> (\<And>k. candidate P xs k \<Longrightarrow> realtimeScore (xs ! n) \<le> realtimeScore (xs ! k)) \<Longrightarrow>
     best_up P xs (int n)"
  by (auto simp: best_up_def)

text \<open>How the best index moves when one path is appended.\<close>

lemma best_up_skip:
  assumes "best_up P xs i" "\<not> (Up x \<and> P (length xs))"
  shows "best_up P (xs @ [x]) i"
  using assms(1)
proof (cases rule: best_up_cases)
  case none
  with assms(2) show ?thesis by (auto simp: best_up_def candidate_snoc)
next
  case (some n)
  with assms(2) show ?thesis
    by (auto simp: candidate_snoc candidate_nth intro!: best_up_someI)
qed

lemma best_up_keep:
  assumes "best_up P xs i" "i \<noteq> -1" "realtimeScore (xs ! nat i) \<le> realtimeScore x"
  shows "best_up P (xs @ [x]) i"
  using assms(1)
proof (cases rule: best_up_cases)
  case (some n)
  with assms(3) show ?thesis
    by (auto simp: candidate_snoc candidate_nth intro!: best_up_someI)
qed (use assms(2) in simp)

lemma best_up_new:
  assumes "best_up P xs i" "Up x" "P (length xs)" "i = -1 \<or> realtimeScore x \<le> realtimeScore (xs ! nat i)"
  shows "best_up P (xs @ [x]) (int (length xs))"
proof (rule best_up_someI)
  show "candidate P (xs @ [x]) (length xs)"
    using assms by (simp add: candidate_snoc)
  fix k
  assume "candidate P (xs @ [x]) k"
  then consider "k = length xs" | "candidate P xs k" by (auto simp: candidate_snoc)
  then show "realtimeScore ((xs @ [x]) ! length xs) \<le> realtimeScore ((xs @ [x]) ! k)"
  proof cases
    case 2
    with assms(1) show ?thesis
      by (cases rule: best_up_cases) (use 2 assms(4) in \<open>fastforce simp: candidate_nth\<close>)+
  qed simp
qed

text \<open>When the best path is displaced it is the best of the others.\<close>

lemma best_up_displaced:
  assumes "best_up (\<lambda>_. True) xs f"
  shows "best_up (\<lambda>k. int k \<noteq> int (length xs)) (xs @ [x]) f"
  using assms
proof (cases rule: best_up_cases)
  case none
  then show ?thesis by (auto simp: best_up_def candidate_snoc) (auto simp: candidate_def)
next
  case (some n)
  then have n: "n < length xs" by (simp add: candidate_def)
  from some show ?thesis
    by (auto simp: candidate_snoc candidate_nth candidate_def nth_append intro!: best_up_someI)
qed

lemma best_up_index: "best_up P xs i \<Longrightarrow> i \<noteq> -1 \<Longrightarrow> nat i < length xs \<and> i = int (nat i)"
  by (auto simp: best_up_def candidate_def)

lemma pair_scan_inv: "pair_inv xs (foldl pair_scan ((-1, 0), (-1, 0)) (enumerate 0 xs))"
proof (induction xs rule: rev_induct)
  case Nil
  then show ?case by (simp add: pair_inv_def best_up_def candidate_def)
next
  case (snoc x xs)
  obtain f s1 g s2 where r: "foldl pair_scan ((-1, 0), (-1, 0)) (enumerate 0 xs) = ((f, s1), (g, s2))"
    by (metis prod.exhaust)
  with snoc.IH have ih: "best_up (\<lambda>_. True) xs f" "best_up (\<lambda>k. int k \<noteq> f) xs g"
      "f \<noteq> -1 \<Longrightarrow> s1 = realtimeScore (xs ! nat f)" "g \<noteq> -1 \<Longrightarrow> s2 = realtimeScore (xs ! nat g)"
    by (simp_all add: pair_inv_def)
  note i_f = best_up_index [OF ih(1)] and ig = best_up_index [OF ih(2)]
  have nf: "f \<noteq> -1 \<Longrightarrow> (xs @ [x]) ! nat f = xs ! nat f" "g \<noteq> -1 \<Longrightarrow> (xs @ [x]) ! nat g = xs ! nat g"
    using i_f ig by (simp_all add: nth_append)
  have ff: "f \<noteq> int (length xs)"
    using i_f by (cases "f = -1") auto
  let ?sc = "realtimeScore x"
  consider (down) "\<not> Up x" | (first) "Up x" "f = -1 \<or> ?sc < s1"
    | (second) "Up x" "f \<noteq> -1" "s1 \<le> ?sc" "g = -1 \<or> ?sc < s2"
    | (none) "Up x" "f \<noteq> -1" "s1 \<le> ?sc" "g \<noteq> -1" "s2 \<le> ?sc"
    by linarith
  then have "pair_inv (xs @ [x]) (pair_scan ((f, s1), (g, s2)) (length xs, x))"
  proof cases
    case down
    then show ?thesis
      using ih nf best_up_skip [OF ih(1), of x] best_up_skip [OF ih(2), of x]
      by (simp add: pair_inv_def pair_scan_def)
  next
    case first
    then have "f = -1 \<or> ?sc \<le> realtimeScore (xs ! nat f)"
      using ih(3) by (cases "f = -1") auto
    with first(1) have "best_up (\<lambda>_. True) (xs @ [x]) (int (length xs))"
      by (intro best_up_new [OF ih(1)]) auto
    with first show ?thesis
      using ih(3) nf best_up_displaced [OF ih(1), of x] by (simp add: pair_inv_def pair_scan_def)
  next
    case second
    then have "g = -1 \<or> ?sc \<le> realtimeScore (xs ! nat g)"
      using ih(4) by (cases "g = -1") auto
    with second have "best_up (\<lambda>_. True) (xs @ [x]) f" "best_up (\<lambda>k. int k \<noteq> f) (xs @ [x]) (int (length xs))"
      using ih(3) ff by (auto intro: best_up_keep [OF ih(1)] best_up_new [OF ih(2)])
    with second show ?thesis
      using ih(3) nf by (simp add: pair_inv_def pair_scan_def)
  next
    case none
    then have "best_up (\<lambda>_. True) (xs @ [x]) f" "best_up (\<lambda>k. int k \<noteq> f) (xs @ [x]) g"
      using ih(3,4) by (auto intro: best_up_keep [OF ih(1)] best_up_keep [OF ih(2)])
    with none show ?thesis
      using ih(3,4) nf by (simp add: pair_inv_def pair_scan_def)
  qed
  then show ?case unfolding enumerate_snoc foldl_append r by simp
qed

section \<open>Aggregate loss\<close>

definition snap_ok :: "LinkSnapshot \<Rightarrow> bool" where
  "snap_ok s \<longleftrightarrow> 0 \<le> LossEWMA s \<and> LossEWMA s \<le> 1 \<and> rnd (WeightBps s) = WeightBps s"

lemma Snapshot_ok: "snap_ok (Snapshot (fold link_step ops NewLink))"
  using link_run_inv [OF NewLink_inv, of ops]
  by (simp add: snap_ok_def Snapshot_def Let_def link_inv_def estimates_ok_def factor_ok_def
      fmul_def fl.idem)

lemma loss_scan_bounds:
  assumes "list_all snap_ok ss" "0 \<le> num" "num \<le> den"
  shows "case foldl loss_scan (num, den) ss of (n, d) \<Rightarrow> 0 \<le> n \<and> n \<le> d"
  using assms
proof (induction ss arbitrary: num den)
  case (Cons s ss)
  let ?w = "if WeightBps s \<le> 0 then 1 else WeightBps s"
  have w: "0 \<le> ?w" "rnd ?w = ?w"
    using Cons.prems(1) fl.one by (auto simp: snap_ok_def)
  have "0 \<le> fmul (LossEWMA s) ?w \<and> fmul (LossEWMA s) ?w \<le> ?w"
    using fl.scale_le [of ?w "LossEWMA s"] w Cons.prems(1) by (simp add: snap_ok_def fmul_def mult.commute)
  then have "0 \<le> fadd num (fmul (LossEWMA s) ?w)" "fadd num (fmul (LossEWMA s) ?w) \<le> fadd den ?w"
    using Cons.prems(2,3) by (auto simp: fadd_def intro!: fl.nonneg fl.mono add_mono)
  with Cons show ?case
    by (simp add: loss_scan_def Let_def)
qed simp

section \<open>The delay estimate\<close>

datatype rx_op = RxData u32 int u32 timestamp | RxReport

fun rx_step :: "rx_op \<Rightarrow> rxstats \<Rightarrow> rxstats" where
  "rx_step (RxData pathSeq sz owd now) r = OnData pathSeq sz owd now r"
| "rx_step RxReport r = fst (Report r)"

fun owd_in :: "int \<Rightarrow> int \<Rightarrow> rx_op \<Rightarrow> bool" where
  "owd_in lo hi (RxData pathSeq sz owd now) \<longleftrightarrow> lo \<le> sint owd \<and> sint owd \<le> hi"
| "owd_in lo hi RxReport \<longleftrightarrow> True"

definition owd_ok :: "int \<Rightarrow> int \<Rightarrow> rxstats \<Rightarrow> bool" where
  "owd_ok lo hi r \<longleftrightarrow> (haveOwd r \<longleftrightarrow> rx_started r) \<and> (haveOwd r \<longrightarrow>
     of_int lo \<le> owdEwma r \<and> owdEwma r \<le> of_int hi \<and> 0 \<le> owdVar r \<and> owdVar r \<le> of_int (hi - lo) \<and>
     lo \<le> sint (owdMin r) \<and> sint (owdMin r) \<le> hi)"

lemma eighths:
  assumes "\<bar>n\<bar> \<le> 2 ^ 33"
  shows "rnd (rnd (7 / 8 * of_int n) + rnd (1 / 8 * of_int n)) = of_int n"
proof -
  have "\<bar>7 * n\<bar> \<le> 2 ^ 53" "\<bar>n\<bar> \<le> 2 ^ 53"
    using assms by (simp_all add: abs_mult)
  then have "rnd (7 / 8 * of_int n) = 7 / 8 * of_int n" "rnd (1 / 8 * of_int n) = 1 / 8 * of_int n"
      "rnd (of_int n) = of_int n"
    using fl.exact [of "7 * n" 3] fl.exact [of n 3] fl.exact_int [of n] by simp_all
  moreover have "7 / 8 * of_int n + 1 / 8 * of_int n = (of_int n :: rat)" by simp
  ultimately show ?thesis by (simp only:)
qed

lemma quarters:
  assumes "\<bar>n\<bar> \<le> 2 ^ 33"
  shows "rnd (rnd (3 / 4 * of_int n) + rnd (1 / 4 * of_int n)) = of_int n"
proof -
  have "\<bar>3 * n\<bar> \<le> 2 ^ 53" "\<bar>n\<bar> \<le> 2 ^ 53"
    using assms by (simp_all add: abs_mult)
  then have "rnd (3 / 4 * of_int n) = 3 / 4 * of_int n" "rnd (1 / 4 * of_int n) = 1 / 4 * of_int n"
      "rnd (of_int n) = of_int n"
    using fl.exact [of "3 * n" 2] fl.exact [of n 2] fl.exact_int [of n] by simp_all
  moreover have "3 / 4 * of_int n + 1 / 4 * of_int n = (of_int n :: rat)" by simp
  ultimately show ?thesis by (simp only:)
qed

lemma OnData_fields:
  "haveOwd (OnData q z d t r)" "rx_started (OnData q z d t r)"
  "owdEwma (OnData q z d t r) = (if haveOwd r
     then fadd (fmul (7 / 8) (owdEwma r)) (fmul (1 / 8) (float_of_int (sint d))) else float_of_int (sint d))"
  "owdVar (OnData q z d t r) = (if haveOwd r
     then fadd (fmul (3 / 4) (owdVar r)) (fmul (1 / 4) \<bar>fsub (float_of_int (sint d)) (owdEwma r)\<bar>) else 0)"
  "owdMin (OnData q z d t r) = (if \<not> haveWin r \<or> sint d < sint (owdMin r) then d else owdMin r)"
  "haveWin (OnData q z d t r)"
  by (simp_all add: OnData_def Let_def) auto

text \<open>Keep \<open>of_int (sint d)\<close> as it is.\<close>

declare of_int_sint [simp del]

lemma OnData_owd_ok:
  assumes "owd_ok lo hi r" "lo \<le> sint d" "sint d \<le> hi" "- (2 ^ 31) \<le> lo" "hi < 2 ^ 31"
    "haveWin r \<longrightarrow> haveOwd r"
  shows "owd_ok lo hi (OnData q z d t r)"
proof -
  let ?o = "float_of_int (sint d)"
  have o: "?o = of_int (sint d)"
    unfolding float_of_int_def using assms(2-5) by (intro fl.exact_int) simp
  have b: "of_int lo \<le> (of_int (sint d) :: rat)" "of_int (sint d) \<le> (of_int hi :: rat)"
    using assms(2,3) by simp_all
  have d8: "rnd (rnd (7 / 8 * of_int hi) + rnd (1 / 8 * of_int hi)) = of_int hi"
      "rnd (rnd (7 / 8 * of_int lo) + rnd (1 / 8 * of_int lo)) = of_int lo"
      "rnd (rnd (3 / 4 * of_int (hi - lo)) + rnd (1 / 4 * of_int (hi - lo))) = of_int (hi - lo)"
    using assms(2-5) by (intro eighths quarters, simp)+
  have "of_int lo \<le> owdEwma (OnData q z d t r) \<and> owdEwma (OnData q z d t r) \<le> of_int hi \<and>
      0 \<le> owdVar (OnData q z d t r) \<and> owdVar (OnData q z d t r) \<le> of_int (hi - lo)"
  proof (cases "haveOwd r")
    case False
    with b o show ?thesis using assms(2,3) by (simp add: OnData_fields)
  next
    case True
    with assms(1) have h: "of_int lo \<le> owdEwma r" "owdEwma r \<le> of_int hi" "0 \<le> owdVar r"
        "owdVar r \<le> of_int (hi - lo)"
      by (simp_all add: owd_ok_def)
    have "fsub ?o (owdEwma r) \<le> rnd (of_int (hi - lo))" "rnd (of_int (lo - hi)) \<le> fsub ?o (owdEwma r)"
      unfolding fsub_def o using h b by (auto intro!: fl.mono)
    moreover have "rnd (of_int (hi - lo)) = of_int (hi - lo)" "rnd (of_int (lo - hi)) = of_int (lo - hi)"
      using assms(2-5) by (intro fl.exact_int, simp)+
    ultimately have dev: "\<bar>fsub ?o (owdEwma r)\<bar> \<le> of_int (hi - lo)"
      by (simp add: abs_le_iff)
    have "owdEwma (OnData q z d t r) \<le> of_int hi"
      unfolding OnData_fields if_P [OF True] float_ops o
      by (rule fl.ewma_le) (use h b d8 in simp_all)
    moreover have "of_int lo \<le> owdEwma (OnData q z d t r)"
      unfolding OnData_fields if_P [OF True] float_ops o
      by (rule fl.ewma_ge) (use h b d8 in simp_all)
    moreover have "owdVar (OnData q z d t r) \<le> of_int (hi - lo)"
      unfolding OnData_fields if_P [OF True] fadd_def fmul_def
      by (rule fl.ewma_le) (use h dev d8 in simp_all)
    moreover have "0 \<le> owdVar (OnData q z d t r)"
      unfolding OnData_fields if_P [OF True] fadd_def fmul_def
      using h by (intro fl.nonneg add_nonneg_nonneg mult_nonneg_nonneg) simp_all
    ultimately show ?thesis by simp
  qed
  then show ?thesis
    using assms(1-3,6) by (auto simp: owd_ok_def OnData_fields)
qed

lemma Report_step: "fst (Report r) = (if rx_started r then r\<lparr>haveWin := False\<rparr> else r)"
  by (simp add: Report_def)

definition rx_inv :: "int \<Rightarrow> int \<Rightarrow> rxstats \<Rightarrow> bool" where
  "rx_inv lo hi r \<longleftrightarrow> owd_ok lo hi r \<and> (haveWin r \<longrightarrow> haveOwd r)"

lemma rx_step_inv:
  assumes "rx_inv lo hi r" "owd_in lo hi x" "- (2 ^ 31) \<le> lo" "hi < 2 ^ 31"
  shows "rx_inv lo hi (rx_step x r)"
proof (cases x)
  case (RxData q z d t)
  then show ?thesis
    using assms OnData_owd_ok [of lo hi r d q z t] by (simp add: rx_inv_def OnData_fields)
next
  case RxReport
  then show ?thesis
    using assms(1) by (auto simp: rx_inv_def Report_step owd_ok_def)
qed

lemma rx_run_inv:
  "rx_inv lo hi r \<Longrightarrow> list_all (owd_in lo hi) xs \<Longrightarrow> - (2 ^ 31) \<le> lo \<Longrightarrow> hi < 2 ^ 31 \<Longrightarrow>
     rx_inv lo hi (fold rx_step xs r)"
  by (induction xs arbitrary: r) (simp_all add: rx_step_inv del: power_numeral)

lemma NewRx_inv: "rx_inv lo hi NewRxStats"
  by (simp add: rx_inv_def owd_ok_def NewRxStats_def)

lemma ftrunc_between:
  assumes "of_int lo \<le> x" "x \<le> of_int hi"
  shows "lo \<le> ftrunc x \<and> ftrunc x \<le> hi"
proof (cases "x < 0")
  case True
  have "\<lfloor>- x\<rfloor> \<le> - lo" "- hi \<le> \<lfloor>- x\<rfloor>"
    using assms by (simp_all add: le_floor_iff floor_le_iff)
  with True show ?thesis by (simp add: ftrunc_def)
next
  case False
  then show ?thesis
    using assms by (simp add: ftrunc_def le_floor_iff floor_le_iff)
qed

section \<open>Counters\<close>

text \<open>Bytes and packets of the data operations, and the highest serial number.\<close>

fun rx_seqs :: "rx_op list \<Rightarrow> u32 list" where
  "rx_seqs [] = []"
| "rx_seqs (RxData q z d t # xs) = q # rx_seqs xs"
| "rx_seqs (RxReport # xs) = rx_seqs xs"

fun rx_sizes :: "rx_op list \<Rightarrow> int list" where
  "rx_sizes [] = []"
| "rx_sizes (RxData q z d t # xs) = z # rx_sizes xs"
| "rx_sizes (RxReport # xs) = rx_sizes xs"

lemma OnData_counters:
  "rx_pkts (OnData q z d t r) = rx_pkts r + 1" "rx_bytes (OnData q z d t r) = rx_bytes r + of_int z"
  "rx_highest (OnData q z d t r) = (if \<not> rx_started r \<or> sint (q - rx_highest r) > 0 then q else rx_highest r)"
  by (simp_all add: OnData_def Let_def)

lemma rx_counts:
  "rx_pkts (fold rx_step xs r) = rx_pkts r + of_nat (length (rx_seqs xs)) \<and>
   rx_bytes (fold rx_step xs r) = rx_bytes r + of_int (sum_list (rx_sizes xs))"
  by (induction xs arbitrary: r rule: rx_seqs.induct)
     (simp_all add: OnData_counters Report_step algebra_simps)

text \<open>Serial numbers \<open>base + k\<close> with all distances below half the range compare like the distances.\<close>

lemma sint_serial:
  assumes "j < 2 ^ 31" "k < 2 ^ 31"
  shows "sint ((base + of_nat j) - (base + of_nat k) :: u32) > 0 \<longleftrightarrow> k < j"
proof -
  have "(base + of_nat j) - (base + of_nat k) = (word_of_int (int j - int k) :: u32)"
    by simp
  moreover have "sint (word_of_int (int j - int k) :: u32) = int j - int k"
    unfolding sint_sbintrunc' using assms by (simp add: signed_take_bit_int_eq_self)
  ultimately show ?thesis by simp
qed

lemma OnData_highest:
  assumes "rx_started r" "rx_highest r = base + of_nat m" "m < 2 ^ 31" "k < 2 ^ 31"
  shows "rx_highest (OnData (base + of_nat k) z d t r) = base + of_nat (max m k)"
  using assms sint_serial [OF assms(4,3), of base] by (simp add: OnData_counters max_def)

lemma rx_highest_max:
  assumes "rx_started r" "rx_highest r = base + of_nat m" "m < 2 ^ 31"
    "rx_seqs xs = map (\<lambda>k. base + of_nat k) ks" "list_all (\<lambda>k. k < 2 ^ 31) ks"
  shows "rx_highest (fold rx_step xs r) = base + of_nat (Max (insert m (set ks)))"
  using assms
proof (induction xs arbitrary: r m ks rule: rx_seqs.induct)
  case (2 q z d t xs)
  then obtain k ks' where k: "ks = k # ks'" "q = base + of_nat k" "rx_seqs xs = map (\<lambda>k. base + of_nat k) ks'"
      "k < 2 ^ 31" "list_all (\<lambda>k. k < 2 ^ 31) ks'"
    by (cases ks) auto
  have "rx_highest (fold rx_step xs (OnData q z d t r)) = base + of_nat (Max (insert (max m k) (set ks')))"
    unfolding k(2) using OnData_highest [OF 2(2-4) k(4)] 2(4) k
    by (intro 2(1)) (simp_all add: OnData_fields)
  moreover have "Max (insert (max m k) (set ks')) = Max (insert m (set ks))"
    using k(1) by (cases "ks' = []") (simp_all add: max.assoc)
  ultimately show ?case by simp
qed (auto simp: Report_step)

section \<open>The hold time\<close>

lemma Min_Max_insert:
  assumes "finite S"
  shows "Min (insert (min e a) S) = Min (insert a (insert (e :: rat) S))"
    "Max (insert (max e a) S) = Max (insert a (insert e S))"
  using assms by (cases "S = {}"; simp add: ac_simps)+

lemma hold_scan_fold:
  "foldl hold_scan (a, b, c) vs =
     (Min (insert a (fst ` set vs)), Max (insert b (fst ` set vs)), Max (insert c (snd ` set vs)))"
proof (induction vs arbitrary: a b c)
  case (Cons v vs)
  obtain e j where v: "v = (e, j)" by fastforce
  have "hold_scan (a, b, c) v = (min e a, max e b, max j c)"
    by (auto simp: v hold_scan_def min_def max_def)
  then show ?case
    using Cons.IH [of "min e a" "max e b" "max j c"] by (simp only: foldl.simps v Min_Max_insert finite_set finite_imageI list.set image_insert fst_conv snd_conv)
qed simp

lemma maxFloat64_bounds: "2 ^ 31 \<le> maxFloat64"
proof -
  have "(2 :: rat) ^ 31 * 1 \<le> (2 ^ 53 - 1) * 2 ^ 971"
    by (intro mult_mono one_le_power) simp_all
  then show ?thesis by (simp only: maxFloat64_def mult_1_right)
qed

text \<open>The views of paths with data, as \<^verbatim>\<open>OwdView\<close> returns them.\<close>

definition view_ok :: "f64 \<times> f64 \<Rightarrow> bool" where
  "view_ok = (\<lambda>(e, j). - (2 ^ 31) \<le> e \<and> e \<le> 2 ^ 31 \<and> 0 \<le> j \<and> j \<le> 2 ^ 32)"

lemma hold_spread:
  assumes "vs \<noteq> []" "list_all view_ok vs"
  defines "mx \<equiv> Max (fst ` set vs)" and "mn \<equiv> Min (fst ` set vs)" and "mj \<equiv> Max (snd ` set vs)"
  shows "foldl hold_scan (maxFloat64, - maxFloat64, 0) vs = (mn, mx, mj)"
    and "0 \<le> fadd (fsub mx mn) (fmul 2 mj)" "fadd (fsub mx mn) (fmul 2 mj) \<le> 2 ^ 34"
proof -
  have ne: "fst ` set vs \<noteq> {}" "snd ` set vs \<noteq> {}" using assms(1) by simp_all
  have v: "\<And>e. e \<in> fst ` set vs \<Longrightarrow> - (2 ^ 31) \<le> e \<and> e \<le> 2 ^ 31"
      "\<And>j. j \<in> snd ` set vs \<Longrightarrow> 0 \<le> j \<and> j \<le> 2 ^ 32"
    using assms(2) by (auto simp: list_all_iff view_ok_def)
  have m: "mx \<in> fst ` set vs" "mn \<in> fst ` set vs" "mj \<in> snd ` set vs"
    using ne by (simp_all add: mx_def mn_def mj_def)
  then have b: "- (2 ^ 31) \<le> mn" "mn \<le> 2 ^ 31" "- (2 ^ 31) \<le> mx" "mx \<le> 2 ^ 31" "0 \<le> mj" "mj \<le> 2 ^ 32" "mn \<le> mx"
    using v by (simp_all add: mn_def del: power_numeral)
  then have "min maxFloat64 mn = mn" "max (- maxFloat64) mx = mx" "max 0 mj = mj"
    using maxFloat64_bounds by linarith+
  then show "foldl hold_scan (maxFloat64, - maxFloat64, 0) vs = (mn, mx, mj)"
    using ne unfolding hold_scan_fold mx_def mn_def mj_def by simp
  have "fsub mx mn \<le> rnd (2 ^ 32)" "fmul 2 mj \<le> rnd (2 ^ 33)" "0 \<le> fsub mx mn" "0 \<le> fmul 2 mj"
    using b unfolding fsub_def fmul_def by (auto intro!: fl.mono fl.nonneg)
  then have c: "fsub mx mn \<le> 2 ^ 32" "fmul 2 mj \<le> 2 ^ 33" "0 \<le> fsub mx mn" "0 \<le> fmul 2 mj"
    by (simp_all only: rnd_pow2)
  then show "0 \<le> fadd (fsub mx mn) (fmul 2 mj)"
    unfolding fadd_def by (intro fl.nonneg) simp
  have "fadd (fsub mx mn) (fmul 2 mj) \<le> rnd (2 ^ 34)"
    using c unfolding fadd_def by (intro fl.mono) simp
  then show "fadd (fsub mx mn) (fmul 2 mj) \<le> 2 ^ 34"
    by (simp only: rnd_pow2)
qed

section \<open>Properties\<close>

text \<open>
  The one-way-delay estimate of a path is an average of what it saw: if every sample lies
  between \<open>lo\<close> and \<open>hi\<close>, then after any data packets and reports the estimate, the reported
  window minimum and the reported integer average lie between them too, so the conversion
  back to a 32-bit integer never overflows, and the deviation is at most \<open>hi - lo\<close>; all with
  binary64 rounding.
\<close>

theorem owd_estimate_within_samples:
  assumes "- (2 ^ 31) \<le> lo" "hi < 2 ^ 31" "list_all (owd_in lo hi) ops"
    and "rx_started (fold rx_step ops NewRxStats)"
  shows "let r = fold rx_step ops NewRxStats in
    of_int lo \<le> owdEwma r \<and> owdEwma r \<le> of_int hi \<and> 0 \<le> owdVar r \<and> owdVar r \<le> of_int (hi - lo) \<and>
    (\<exists>rep. snd (Report r) = Some rep \<and> sint (rep_owdAvg rep) = ftrunc (owdEwma r) \<and>
      lo \<le> sint (rep_owdAvg rep) \<and> sint (rep_owdAvg rep) \<le> hi \<and>
      lo \<le> sint (rep_owdMin rep) \<and> sint (rep_owdMin rep) \<le> hi)"
proof -
  let ?r = "fold rx_step ops NewRxStats"
  have i: "owd_ok lo hi ?r"
    using rx_run_inv [OF NewRx_inv assms(3,1,2)] by (simp only: rx_inv_def)
  have t: "lo \<le> ftrunc (owdEwma ?r) \<and> ftrunc (owdEwma ?r) \<le> hi"
    using i assms(4) by (intro ftrunc_between) (simp_all add: owd_ok_def)
  then have "sint (word_of_int (ftrunc (owdEwma ?r)) :: u32) = ftrunc (owdEwma ?r)"
    unfolding sint_sbintrunc' using assms(1,2) by (simp add: signed_take_bit_int_eq_self)
  with i t assms(4) show ?thesis
    by (simp add: Let_def Report_def owd_ok_def)
qed

theorem owd_estimate_within_samples_witness:
  "(\<lambda>r. - 5 \<le> owdEwma r \<and> owdEwma r \<le> 900)
     (fold rx_step [RxData 1 1400 (- 5) 0, RxReport, RxData 2 1400 900 3] NewRxStats)"
proof -
  have "rx_started (fold rx_step [RxData 1 1400 (- 5) 0, RxReport, RxData 2 1400 900 3] NewRxStats)"
    by (simp add: OnData_fields)
  from owd_estimate_within_samples [OF _ _ _ this, of "- 5" 900] show ?thesis
    by (simp add: Let_def)
qed

text \<open>
  The counters a report carries: after any sequence of data packets and reports the
  packet and byte counters are the number of packets and the sum of their sizes (modulo their
  widths), and when the path sequence numbers span less than half of the 32-bit range, with any
  reordering and across the wrap, the highest sequence number is the serial maximum.
\<close>

theorem rx_counters:
  assumes "rx_seqs ops = map (\<lambda>k. base + of_nat k) (k # ks)" "list_all (\<lambda>k. k < 2 ^ 31) (k # ks)"
  shows "rx_pkts (fold rx_step ops NewRxStats) = of_nat (Suc (length ks)) \<and>
    rx_bytes (fold rx_step ops NewRxStats) = of_int (sum_list (rx_sizes ops)) \<and>
    rx_highest (fold rx_step ops NewRxStats) = base + of_nat (Max (set (k # ks)))"
proof -
  have "rx_highest (fold rx_step xs NewRxStats) = base + of_nat (Max (set (k # ks)))"
    if "rx_seqs xs = map (\<lambda>k. base + of_nat k) (k # ks)" for xs
    using that assms(2)
  proof (induction xs rule: rx_seqs.induct)
    case (2 q z d t xs)
    then show ?case
      using rx_highest_max [of "OnData q z d t NewRxStats" base k xs ks]
      by (simp add: OnData_fields OnData_counters NewRxStats_def)
  qed (simp_all add: Report_step NewRxStats_def)
  with assms(1) show ?thesis
    using rx_counts [of ops NewRxStats] by (simp add: NewRxStats_def)
qed

theorem rx_counters_witness:
  "rx_highest (fold rx_step [RxData (- 1) 1400 0 0, RxData 1 1400 0 1, RxData 0 700 0 2] NewRxStats) = 1"
  using rx_counters [of "[RxData (- 1) 1400 0 0, RxData 1 1400 0 1, RxData 0 700 0 2]" "- 1" 0 "[2, 1]"]
  by simp

text \<open>
  The hold time follows the delay spread: for at least two paths with estimates in the
  range of \<open>owd_estimate_within_samples\<close>, the computed hold is exactly the truncated number of
  microseconds of (largest minus smallest estimate) plus twice the largest deviation, it is not
  negative and the 64-bit product does not wrap; with fewer paths it is 0.
\<close>

theorem hold_from_spread:
  assumes "list_all view_ok vs"
  shows "ComputeHold vs = (if length vs < 2 then 0
      else ftrunc (fadd (fsub (Max (fst ` set vs)) (Min (fst ` set vs))) (fmul 2 (Max (snd ` set vs)))) * 1000) \<and>
    0 \<le> ComputeHold vs \<and> ComputeHold vs \<le> 2 ^ 34 * 1000"
proof (cases "length vs < 2")
  case True
  then show ?thesis by (simp add: ComputeHold_def)
next
  case False
  then have ne: "vs \<noteq> []" by auto
  define s where "s = fadd (fsub (Max (fst ` set vs)) (Min (fst ` set vs))) (fmul 2 (Max (snd ` set vs)))"
  have b: "0 \<le> s" "s \<le> 2 ^ 34"
    using hold_spread(2,3) [OF ne assms] by (simp_all only: s_def)
  have "0 \<le> ftrunc s \<and> ftrunc s \<le> 2 ^ 34"
    using b by (intro ftrunc_between) simp_all
  moreover from this have "i64 (ftrunc s * 1000) = ftrunc s * 1000"
    by (intro i64_id) simp_all
  moreover have "ComputeHold vs = i64 (ftrunc s * 1000)"
    using False hold_spread(1) [OF ne assms] by (simp add: ComputeHold_def s_def Microsecond_def)
  ultimately show ?thesis
    using False by (simp add: s_def)
qed

theorem hold_from_spread_witness:
  "0 \<le> ComputeHold [(20000, 100), (65000, 2500)] \<and> ComputeHold [(20000, 100), (65000, 2500)] \<le> 2 ^ 34 * 1000"
  using hold_from_spread [of "[(20000, 100), (65000, 2500)]"] by (simp add: view_ok_def)

text \<open>
  C36. Path selection for latency-sensitive traffic: \<^verbatim>\<open>BestLatency\<close> returns an up path of least
  score, or -1 exactly when no path is up; \<^verbatim>\<open>BestPair\<close> returns a path of least score and, as
  its second component, a different path of least score among the others, or -1 exactly when
  there is none.
\<close>

theorem path_selection:
  "best_up (\<lambda>_. True) snaps (BestLatency snaps) \<and>
   best_up (\<lambda>_. True) snaps (fst (BestPair snaps)) \<and>
   best_up (\<lambda>k. int k \<noteq> fst (BestPair snaps)) snaps (snd (BestPair snaps))"
  using latency_scan_inv [of snaps] pair_scan_inv [of snaps]
  by (auto simp: latency_inv_def pair_inv_def BestLatency_def BestPair_def split: prod.splits)

text \<open>
  The aggregate loss the FEC controller receives is a probability: for the snapshots of
  any links after any operations, the weighted loss is between 0 and 1, although every partial
  sum and the quotient are rounded.
\<close>

theorem weighted_loss_is_probability:
  "0 \<le> WeightedLoss (map (\<lambda>ops. Snapshot (fold link_step ops NewLink)) opss) \<and>
   WeightedLoss (map (\<lambda>ops. Snapshot (fold link_step ops NewLink)) opss) \<le> 1"
proof -
  let ?ss = "map (\<lambda>ops. Snapshot (fold link_step ops NewLink)) opss"
  obtain n d where r: "foldl loss_scan (0, 0) ?ss = (n, d)" by fastforce
  have "list_all snap_ok ?ss"
    by (simp add: list_all_iff Snapshot_ok)
  then have "0 \<le> n" "n \<le> d"
    using loss_scan_bounds [of ?ss 0 0] r by simp_all
  then have "0 \<le> fdiv n d" "fdiv n d \<le> 1"
    by (auto simp: fdiv_def divide_le_eq_1 intro!: fl.nonneg fl.le_one)
  with r show ?thesis by (simp add: WeightedLoss_def)
qed

end
