(* ===== verification/Sched.thy ===== *)
theory Sched
  imports Float64 "HOL-Library.Mapping" "HOL-Library.AList_Mapping"
begin

text \<open>
  Package \<^verbatim>\<open>internal/sched\<close>: the smooth weighted round robin that picks the transmit path. The
  credits are the Go map from path id to \<^verbatim>\<open>float64\<close>; a missing key reads as 0. \<open>None\<close> is a run
  that leaves the model: an index out of range (a panic) when there are more weights than
  ids, or a division by a zero sum (NaN shares) when there are no weights.
\<close>

section \<open>Definitions\<close>

definition weightFloor :: f64 where "weightFloor = rnd (5 / 100)"

type_synonym credits = "(byte, f64) mapping"

definition NewWeighted :: credits where "NewWeighted = Mapping.empty"

text \<open>The first loop: the sum and the number of the known weights.\<close>

fun known_total :: "f64 list \<Rightarrow> f64 \<times> int \<Rightarrow> f64 \<times> int" where
  "known_total [] acc = acc"
| "known_total (wt # wts) (tot, known) =
     known_total wts (if wt > 0 then (fadd tot wt, known + 1) else (tot, known))"

definition mean_weight :: "f64 list \<Rightarrow> f64" where
  "mean_weight weights = (let (tot, known) = known_total weights (0, 0)
     in if known > 0 then fdiv tot (float_of_int known) else 1)"

fun fsum :: "f64 \<Rightarrow> f64 list \<Rightarrow> f64" where
  "fsum acc [] = acc"
| "fsum acc (x # xs) = fsum (fadd acc x) xs"

text \<open>
  The shares of \<open>n\<close> paths: unknown weights replaced by the mean, paths without a weight left
  at zero, normalised, floored and normalised again.
\<close>

definition raw_shares :: "nat \<Rightarrow> f64 list \<Rightarrow> f64 list" where
  "raw_shares n weights =
     map (\<lambda>wt. if wt \<le> 0 then mean_weight weights else wt) weights @ replicate (n - length weights) 0"

definition floored_shares :: "nat \<Rightarrow> f64 list \<Rightarrow> f64 list" where
  "floored_shares n weights =
     (let sum = fsum 0 (map (\<lambda>wt. if wt \<le> 0 then mean_weight weights else wt) weights)
      in map (\<lambda>w. let s = fdiv w sum in if s < weightFloor then weightFloor else s) (raw_shares n weights))"

definition shares :: "nat \<Rightarrow> f64 list \<Rightarrow> f64 list" where
  "shares n weights = (let fs = floored_shares n weights in map (\<lambda>s. fdiv s (fsum 0 fs)) fs)"

text \<open>The selection loop: credit every path, remember the first largest credit.\<close>

definition credit_of :: "credits \<Rightarrow> byte \<Rightarrow> f64" where
  "credit_of m i = Mapping.lookup_default 0 m i"

fun pick_scan :: "nat \<Rightarrow> (byte \<times> f64) list \<Rightarrow> credits \<Rightarrow> int \<times> f64 \<Rightarrow> credits \<times> int \<times> f64" where
  "pick_scan i [] m (best, bestCredit) = (m, best, bestCredit)"
| "pick_scan i ((pid, sh) # ps) m (best, bestCredit) =
     (let c = fadd (credit_of m pid) sh;
          m = Mapping.update pid c m
      in pick_scan (Suc i) ps m (if best = -1 \<or> c > bestCredit then (int i, c) else (best, bestCredit)))"

definition Pick :: "byte list \<Rightarrow> f64 list \<Rightarrow> credits \<Rightarrow> (credits \<times> int) option" where
  "Pick ids weights m =
     (if ids = [] then Some (m, -1)
      else if length ids = 1 then Some (m, 0)
      else if length weights > length ids \<or> weights = [] then None
      else (let m = (if Mapping.size m > length ids * 2 then Mapping.empty else m);
                (m, best, _) = pick_scan 0 (zip ids (shares (length ids) weights)) m (-1, 0);
                w = ids ! nat best
            in Some (Mapping.update w (fsub (credit_of m w) 1) m, best)))"



section \<open>Rounding errors\<close>

text \<open>The unit roundoff, with room for the subnormal term.\<close>

definition u :: rat where "u = 1 / 2 ^ 52"

lemma u_pos: "0 < u"
  by (simp add: u_def)

lemma tiny_small: "tiny \<le> 1 / 2 ^ 53"
proof -
  have "(2 :: rat) powi (- 53) = 1 / 2 ^ 53"
    by (simp only: power_int_minus power_int_numeral inverse_eq_divide)
  moreover have "tiny \<le> 2 powi (- 53)"
    unfolding tiny_def by (rule powi_mono) simp
  ultimately show ?thesis by (simp only:)
qed

lemma rnd_error:
  assumes "\<bar>x\<bar> \<le> B" "1 \<le> B"
  shows "\<bar>rnd x - x\<bar> \<le> B * u"
proof -
  have "\<bar>x\<bar> / 2 ^ 53 + tiny \<le> B / 2 ^ 53 + B / 2 ^ 53"
    using assms tiny_small by (intro add_mono divide_right_mono order_trans [OF tiny_small]) simp_all
  then show ?thesis
    using fl.err [of x] by (simp add: u_def)
qed

section \<open>Sums\<close>

lemma fsum_ge: "rnd acc = acc \<Longrightarrow> list_all (\<lambda>x. 0 \<le> x) xs \<Longrightarrow> acc \<le> fsum acc xs"
proof (induction xs arbitrary: acc)
  case (Cons x xs)
  have "acc \<le> fadd acc x"
    using Cons.prems fl.mono [of acc "acc + x"] by (simp add: fadd_def)
  also have "\<dots> \<le> fsum (fadd acc x) xs"
    using Cons.prems by (intro Cons.IH) (simp_all add: fadd_def fl.idem)
  finally show ?case by simp
qed simp

lemma fsum_member:
  "rnd acc = acc \<Longrightarrow> 0 \<le> acc \<Longrightarrow> list_all (\<lambda>x. 0 \<le> x \<and> rnd x = x) xs \<Longrightarrow> x \<in> set xs \<Longrightarrow> x \<le> fsum acc xs"
proof (induction xs arbitrary: acc)
  case (Cons y xs)
  have y: "rnd (fadd acc y) = fadd acc y" "0 \<le> fadd acc y" "y \<le> fadd acc y"
    using Cons.prems fl.mono [of y "acc + y"] by (simp_all add: fadd_def fl.idem fl.nonneg)
  show ?case
  proof (cases "x = y")
    case True
    have "list_all (\<lambda>x. 0 \<le> x) xs"
      using Cons.prems(3) by (simp add: list_all_iff)
    with True y show ?thesis
      using fsum_ge [OF y(1)] by fastforce
  next
    case False
    with Cons y show ?thesis by simp
  qed
qed simp

text \<open>A sum of \<open>n\<close> shares of at most one: it is at most \<open>n\<close> and each addition errs by at most \<open>n u\<close>.\<close>

lemma fsum_error:
  assumes "0 \<le> acc" "acc \<le> of_nat a" "list_all (\<lambda>x. 0 \<le> x \<and> x \<le> 1) xs" "a + length xs \<le> n" "n \<le> 2 ^ 53" "1 \<le> n"
  shows "fsum acc xs \<le> of_nat (a + length xs) \<and>
    \<bar>fsum acc xs - (acc + sum_list xs)\<bar> \<le> of_nat (length xs) * (of_nat n * u)"
  using assms
proof (induction xs arbitrary: acc a)
  case (Cons x xs)
  have x: "0 \<le> x" "x \<le> 1"
    using Cons.prems(3) by simp_all
  have s: "acc + x \<le> of_nat (Suc a)" "0 \<le> acc + x"
    using Cons.prems(1,2) x by simp_all
  have "rnd (of_int (int (Suc a))) = of_int (int (Suc a))"
    using Cons.prems(4,5) by (intro fl.exact_int) simp
  then have a: "fadd acc x \<le> of_nat (Suc a)"
    using fl.mono [OF s(1)] by (simp add: fadd_def)
  have n0: "0 \<le> fadd acc x"
    using s(2) by (simp add: fadd_def fl.nonneg)
  have ih: "fsum (fadd acc x) xs \<le> of_nat (Suc a + length xs)"
      "\<bar>fsum (fadd acc x) xs - (fadd acc x + sum_list xs)\<bar> \<le> of_nat (length xs) * (of_nat n * u)"
    using Cons.IH [OF n0 a] Cons.prems by simp_all
  have "(of_nat (Suc a) :: rat) \<le> of_nat n"
    using Cons.prems(4) by (intro of_nat_mono) simp
  then have "\<bar>fadd acc x - (acc + x)\<bar> \<le> of_nat n * u"
    unfolding fadd_def using s Cons.prems(6) by (intro rnd_error) simp_all
  with ih show ?case
    by (simp add: algebra_simps)
qed simp

section \<open>Shares\<close>

lemma floor_bounds: "1 / 32 \<le> weightFloor" "weightFloor \<le> 1" "rnd weightFloor = weightFloor"
proof -
  show "1 / 32 \<le> weightFloor" "weightFloor \<le> 1" by code_simp+
  show "rnd weightFloor = weightFloor" by (simp add: weightFloor_def fl.idem)
qed

definition weights_ok :: "nat \<Rightarrow> f64 list \<Rightarrow> bool" where
  "weights_ok n ws \<longleftrightarrow> length ws = n \<and> list_all (\<lambda>w. rnd w = w) ws"

lemma known_total_ok:
  "rnd t = t \<Longrightarrow> 0 \<le> t \<Longrightarrow> 0 \<le> k \<Longrightarrow> known_total ws (t, k) = (t', k') \<Longrightarrow> 0 \<le> t' \<and> 0 \<le> k'"
proof (induction ws arbitrary: t k)
  case (Cons w ws)
  show ?case
  proof (cases "w > 0")
    case True
    with Cons.prems show ?thesis
      by (intro Cons.IH [of "fadd t w" "k + 1"]) (simp_all add: fadd_def fl.idem fl.nonneg)
  qed (use Cons in simp)
qed simp

lemma mean_ok: "0 \<le> mean_weight ws" "rnd (mean_weight ws) = mean_weight ws"
proof -
  obtain t k where r: "known_total ws (0, 0) = (t, k)" by fastforce
  then have "0 \<le> t" "0 \<le> k"
    using known_total_ok [OF _ _ _ r] by simp_all
  moreover have "0 \<le> float_of_int k"
    using \<open>0 \<le> k\<close> by (simp add: float_of_int_def fl.nonneg)
  ultimately show "0 \<le> mean_weight ws" "rnd (mean_weight ws) = mean_weight ws"
    by (simp_all add: mean_weight_def r fdiv_def fl.idem fl.nonneg fl.one)
qed

lemma raw_ok:
  assumes "weights_ok n ws"
  shows "raw_shares n ws = map (\<lambda>wt. if wt \<le> 0 then mean_weight ws else wt) ws"
    and "list_all (\<lambda>x. 0 \<le> x \<and> rnd x = x) (raw_shares n ws)"
  using assms mean_ok [of ws] by (auto simp: raw_shares_def weights_ok_def list_all_iff)

lemma floored_ok:
  assumes "weights_ok n ws"
  shows "length (floored_shares n ws) = n"
    and "list_all (\<lambda>s. 1 / 32 \<le> s \<and> s \<le> 1 \<and> rnd s = s) (floored_shares n ws)"
proof -
  let ?raw = "raw_shares n ws"
  show "length (floored_shares n ws) = n"
    using assms by (simp add: floored_shares_def Let_def raw_shares_def weights_ok_def)
  have "fdiv w (fsum 0 ?raw) \<le> 1" if "w \<in> set ?raw" for w
  proof -
    have "0 \<le> w" "w \<le> fsum 0 ?raw"
      using that raw_ok(2) [OF assms] fsum_member [of 0 ?raw w] by (auto simp: list_all_iff)
    then show ?thesis
      by (auto simp: fdiv_def divide_le_eq_1 intro!: fl.le_one)
  qed
  then show "list_all (\<lambda>s. 1 / 32 \<le> s \<and> s \<le> 1 \<and> rnd s = s) (floored_shares n ws)"
    using floor_bounds unfolding floored_shares_def raw_ok(1) [OF assms, symmetric] Let_def
    by (auto simp: list_all_iff fdiv_def fl.idem)
qed

lemma sum_list_close:
  assumes "list_all (\<lambda>x. \<bar>f x - g x\<bar> \<le> e) xs"
  shows "\<bar>sum_list (map f xs) - sum_list (map g xs)\<bar> \<le> of_nat (length xs) * (e :: rat)"
  using assms by (induction xs) (auto simp: algebra_simps abs_le_iff)

lemma sum_list_lower: "list_all (\<lambda>x. c \<le> x) xs \<Longrightarrow> of_nat (length xs) * c \<le> sum_list (xs :: rat list)"
  by (induction xs) (auto simp: algebra_simps)

lemma sum_list_divide: "sum_list (map (\<lambda>x. x / c) xs) = sum_list xs / (c :: rat)"
  by (induction xs) (simp_all add: add_divide_distrib)

lemma shares_ok:
  assumes "weights_ok n ws" "1 \<le> n" "n \<le> 256"
  shows "length (shares n ws) = n"
    and "list_all (\<lambda>s. 1 / (64 * of_nat n) \<le> s \<and> s \<le> 1) (shares n ws)"
    and "\<bar>sum_list (shares n ws) - 1\<bar> \<le> 65 * of_nat n * u"
proof -
  let ?fs = "floored_shares n ws"
  define F where "F = fsum 0 ?fs"
  have len: "length ?fs = n" and fs: "list_all (\<lambda>s. 1 / 32 \<le> s \<and> s \<le> 1 \<and> rnd s = s) ?fs"
    using floored_ok [OF assms(1)] by simp_all
  have sh: "shares n ws = map (\<lambda>s. rnd (s / F)) ?fs"
    by (simp add: shares_def Let_def F_def fdiv_def)
  show "length (shares n ws) = n" by (simp add: sh len)
  have unit: "list_all (\<lambda>x. 0 \<le> x \<and> x \<le> 1) ?fs"
    using fs by (auto simp: list_all_iff intro: order_trans [of _ "1 / 32"])
  then have e: "F \<le> of_nat n" "\<bar>F - sum_list ?fs\<bar> \<le> of_nat n * (of_nat n * u)"
    using fsum_error [of 0 0 ?fs n] len assms(2,3) by (auto simp: F_def)
  have mem: "s \<le> F" if "s \<in> set ?fs" for s
    using that fs fsum_member [of 0 ?fs s] unit by (auto simp: F_def list_all_iff)
  have nu: "of_nat n * u \<le> 1 / 64"
    using assms(3) by (simp add: u_def)
  have "of_nat n * (1 / 32) \<le> sum_list ?fs"
    using sum_list_lower [of "1 / 32" ?fs] fs len by (simp add: list_all_iff)
  moreover have "of_nat n * (of_nat n * u) \<le> of_nat n * (1 / 64)"
    using nu by (intro mult_left_mono) simp_all
  ultimately have F: "of_nat n / 64 \<le> F"
    using e(2) by (simp add: abs_le_iff)
  have "0 < (of_nat n :: rat) / 64"
    using assms(2) by simp
  with F have F0: "0 < F" by linarith
  have one: "0 \<le> s / F \<and> s / F \<le> 1 \<and> 1 / (32 * of_nat n) \<le> s / F" if "s \<in> set ?fs" for s
  proof -
    have s: "1 / 32 \<le> s" using that fs by (auto simp: list_all_iff)
    have "1 / 32 / of_nat n \<le> s / F"
      using s e(1) F0 by (intro frac_le) simp_all
    with s mem [OF that] F0 show ?thesis by (simp add: divide_le_eq_1)
  qed
  have err: "\<bar>rnd (s / F) - s / F\<bar> \<le> u" if "s \<in> set ?fs" for s
  proof -
    have "\<bar>s / F\<bar> \<le> 1"
      using one [OF that] by linarith
    then show ?thesis using rnd_error [of "s / F" 1] by simp
  qed
  have low: "1 / (64 * of_nat n) \<le> rnd (s / F)" if "s \<in> set ?fs" for s
  proof -
    have "u \<le> 1 / (64 * of_nat n)"
      using assms(2,3) by (simp add: u_def field_simps)
    moreover have "1 / (32 * of_nat n) = 1 / (64 * of_nat n) + 1 / (64 * of_nat n :: rat)"
      by simp
    ultimately show ?thesis
      using one [OF that] err [OF that] by linarith
  qed
  show "list_all (\<lambda>s. 1 / (64 * of_nat n) \<le> s \<and> s \<le> 1) (shares n ws)"
    using low one by (auto simp: sh list_all_iff fl.le_one)
  have "list_all (\<lambda>s. \<bar>rnd (s / F) - s / F\<bar> \<le> u) ?fs"
    using err by (simp add: list_all_iff)
  then have "\<bar>sum_list (shares n ws) - sum_list ?fs / F\<bar> \<le> of_nat n * u"
    using sum_list_close [of "\<lambda>s. rnd (s / F)" "\<lambda>s. s / F" u ?fs] len by (simp add: sh sum_list_divide)
  moreover have "\<bar>sum_list ?fs / F - 1\<bar> \<le> 64 * of_nat n * u"
  proof -
    have "\<bar>sum_list ?fs / F - 1\<bar> = \<bar>F - sum_list ?fs\<bar> / F"
    proof -
      have "sum_list ?fs / F - 1 = (sum_list ?fs - F) / F"
        using F0 by (simp add: diff_divide_distrib)
      then show ?thesis
        using F0 by (simp only: abs_divide abs_of_pos abs_minus_commute [of F])
    qed
    also have "\<dots> \<le> of_nat n * (of_nat n * u) / (of_nat n / 64)"
      using e(2) F \<open>0 < of_nat n / 64\<close> u_pos by (intro frac_le) simp_all
    also have "\<dots> = 64 * of_nat n * u"
      using assms(2) by (simp add: field_simps)
    finally show ?thesis .
  qed
  ultimately show "\<bar>sum_list (shares n ws) - 1\<bar> \<le> 65 * of_nat n * u"
    by (simp add: algebra_simps abs_le_iff)
qed

section \<open>One pick\<close>

text \<open>The credits of the candidate paths in order; a pick seen as a step on this vector.\<close>

definition credit_vec :: "byte list \<Rightarrow> credits \<Rightarrow> f64 list" where
  "credit_vec ids m = map (credit_of m) ids"

lemma credit_update: "credit_of (Mapping.update k v m) i = (if i = k then v else credit_of m i)"
  by (simp add: credit_of_def lookup_default_update')

lemma pick_scan_credits:
  "distinct (map fst ps) \<Longrightarrow> pick_scan i ps m bc = (m', best, c) \<Longrightarrow>
     (\<forall>(k, s) \<in> set ps. credit_of m' k = fadd (credit_of m k) s) \<and>
     (\<forall>k. k \<notin> fst ` set ps \<longrightarrow> credit_of m' k = credit_of m k) \<and>
     Mapping.keys m' = Mapping.keys m \<union> fst ` set ps"
proof (induction ps arbitrary: i m bc)
  case Nil
  then show ?case by (cases bc) simp
next
  case (Cons p ps)
  obtain k s where p: "p = (k, s)" by fastforce
  let ?m = "Mapping.update k (fadd (credit_of m k) s) m"
  from Cons.prems(2) obtain bc' where "pick_scan (Suc i) ps ?m bc' = (m', best, c)"
    by (cases bc) (auto simp: p Let_def)
  with Cons.prems(1) have ih: "(\<forall>(k, s) \<in> set ps. credit_of m' k = fadd (credit_of ?m k) s) \<and>
     (\<forall>j. j \<notin> fst ` set ps \<longrightarrow> credit_of m' j = credit_of ?m j) \<and> Mapping.keys m' = Mapping.keys ?m \<union> fst ` set ps"
    by (intro Cons.IH) (simp_all add: p)
  have k: "k \<notin> fst ` set ps" using Cons.prems(1) by (simp add: p)
  then have "credit_of ?m j = credit_of m j" if "(j, s) \<in> set ps" for j s
    using that by (force simp: credit_update)
  with ih k show ?case
    by (auto simp: p credit_update)
qed

text \<open>The scan returns the position of a largest new credit.\<close>

definition leads :: "f64 list \<Rightarrow> int \<Rightarrow> f64 \<Rightarrow> bool" where
  "leads cs b c \<longleftrightarrow> (if b = -1 then cs = [] else \<exists>n. b = int n \<and> n < length cs \<and> c = cs ! n \<and> (\<forall>x \<in> set cs. x \<le> c))"

lemma leads_snoc:
  assumes "leads cs b c"
  shows "leads (cs @ [x]) (if b = -1 \<or> x > c then int (length cs) else b) (if b = -1 \<or> x > c then x else c)"
  using assms by (auto simp: leads_def nth_append split: if_splits)

lemma pick_scan_best:
  assumes "distinct (map fst ps)" "leads pre b c" "pick_scan (length pre) ps m (b, c) = (m', b', c')"
  shows "leads (pre @ map (\<lambda>(k, s). fadd (credit_of m k) s) ps) b' c'"
  using assms
proof (induction ps arbitrary: pre m b c)
  case (Cons p ps)
  obtain k s where p: "p = (k, s)" by fastforce
  let ?c = "fadd (credit_of m k) s"
  let ?m = "Mapping.update k ?c m"
  have "pick_scan (length (pre @ [?c])) ps ?m (if b = -1 \<or> ?c > c then int (length pre) else b, if b = -1 \<or> ?c > c then ?c else c) = (m', b', c')"
    using Cons.prems(3) by (cases "b = -1 \<or> ?c > c") (auto simp: p Let_def)
  then have "leads ((pre @ [?c]) @ map (\<lambda>(k, s). fadd (credit_of ?m k) s) ps) b' c'"
    using Cons.prems(1) leads_snoc [OF Cons.prems(2)] by (intro Cons.IH) (simp_all add: p)
  moreover have "map (\<lambda>(k, s). fadd (credit_of ?m k) s) ps = map (\<lambda>(k, s). fadd (credit_of m k) s) ps"
    using Cons.prems(1) by (force simp: p credit_update)
  ultimately show ?case by (simp add: p)
qed simp


text \<open>The step on vectors: add the shares, take one from a largest entry.\<close>

definition vec_step :: "f64 list \<Rightarrow> f64 list \<Rightarrow> nat \<Rightarrow> f64 list" where
  "vec_step sh cs b = (let ds = map2 fadd cs sh in ds[b := fsub (ds ! b) 1])"

lemma Pick_vec:
  assumes "distinct ids" "2 \<le> length ids" "length ws = length ids" "length (shares (length ids) ws) = length ids"
    and "Mapping.keys m \<subseteq> set ids"
  obtains m' b where "Pick ids ws m = Some (m', int b)" "b < length ids" "Mapping.keys m' \<subseteq> set ids"
    "credit_vec ids m' = vec_step (shares (length ids) ws) (credit_vec ids m) b"
    "\<forall>x \<in> set (map2 fadd (credit_vec ids m) (shares (length ids) ws)).
       x \<le> map2 fadd (credit_vec ids m) (shares (length ids) ws) ! b"
proof -
  let ?sh = "shares (length ids) ws"
  let ?ps = "zip ids ?sh"
  let ?ds = "map2 fadd (credit_vec ids m) ?sh"
  obtain m1 b c where r: "pick_scan 0 ?ps m (-1, 0) = (m1, b, c)"
    by (metis prod_cases3)
  have d: "distinct (map fst ?ps)" and ids: "fst ` set ?ps = set ids"
    using assms(1,4) by (simp_all flip: list.set_map)
  have ds: "map (\<lambda>(k, s). fadd (credit_of m k) s) ?ps = ?ds"
    by (simp add: credit_vec_def zip_map1 case_prod_beta comp_def)
  have len: "length ?ds = length ids"
    using assms(4) by (simp add: credit_vec_def)
  have "leads ?ds b c"
    using pick_scan_best [OF d, of "[]" "-1" 0 m m1 b c] r ds by (simp add: leads_def)
  with len assms(2) obtain n where n: "b = int n" "n < length ids" "c = ?ds ! n" "\<forall>x \<in> set ?ds. x \<le> ?ds ! n"
    by (auto simp: leads_def split: if_splits)
  note pc = pick_scan_credits [OF d r]
  have cv: "credit_of m1 (ids ! i) = ?ds ! i" if "i < length ids" for i
  proof -
    have "(ids ! i, ?sh ! i) \<in> set ?ps"
      using that assms(4) by (auto simp: set_zip)
    with pc that assms(4) show ?thesis
      by (auto simp: credit_vec_def)
  qed
  have "card (Mapping.keys m) \<le> length ids"
    using card_mono [OF _ assms(5)] card_length [of ids] by simp
  then have sz: "\<not> Mapping.size m > length ids * 2"
    by (simp add: Mapping.size_def)
  let ?m = "Mapping.update (ids ! n) (fsub (credit_of m1 (ids ! n)) 1) m1"
  have P: "Pick ids ws m = Some (?m, int n)"
    using assms(2,3) sz r n(1) unfolding Pick_def by (auto simp: Let_def)
  have K: "Mapping.keys ?m \<subseteq> set ids"
    using pc assms(5) ids n(2) by auto
  have "credit_vec ids ?m = vec_step ?sh (credit_vec ids m) n"
  proof (rule nth_equalityI)
    fix i assume "i < length (credit_vec ids ?m)"
    then have i: "i < length ids" by (simp add: credit_vec_def)
    then have "credit_vec ids ?m ! i = (if i = n then fsub (?ds ! n) 1 else ?ds ! i)"
      using cv n(2) assms(1) by (simp add: credit_vec_def credit_update nth_eq_iff_index_eq)
    then show "credit_vec ids ?m ! i = vec_step ?sh (credit_vec ids m) n ! i"
      using i len by (simp add: vec_step_def Let_def nth_list_update)
  qed (use len in \<open>simp add: vec_step_def Let_def credit_vec_def\<close>)
  with P K n show ?thesis by (intro that)
qed

section \<open>Credits stay bounded\<close>

definition drift :: "nat \<Rightarrow> rat" where "drift n = 512 * of_nat n * u"

definition credits_ok :: "nat \<Rightarrow> nat \<Rightarrow> f64 list \<Rightarrow> bool" where
  "credits_ok n k cs \<longleftrightarrow> length cs = n \<and> list_all (\<lambda>c. - 1 \<le> c) cs \<and>
     \<bar>sum_list cs\<bar> \<le> of_nat k * drift n"

lemma credits_upper:
  assumes "list_all (\<lambda>c. - 1 \<le> c) cs" "i < length cs"
  shows "cs ! i \<le> sum_list cs + of_nat (length cs) - (1 :: rat)"
proof -
  have "sum_list cs = cs ! i + sum_list (take i cs @ drop (Suc i) cs)"
    using arg_cong [OF id_take_nth_drop [OF assms(2)], of sum_list]
    by (simp only: sum_list.append sum_list.Cons add.left_commute)
  moreover have "of_nat (length (take i cs @ drop (Suc i) cs)) * (- 1 :: rat) \<le> sum_list (take i cs @ drop (Suc i) cs)"
    using assms(1) by (intro sum_list_lower) (auto simp: list_all_iff dest: in_set_takeD in_set_dropD)
  moreover have "(of_nat (length (take i cs @ drop (Suc i) cs)) :: rat) = of_nat (length cs) - 1"
    using assms(2) by simp
  ultimately show ?thesis by simp
qed

lemma sum_list_map2_add:
  "length xs = length ys \<Longrightarrow> sum_list (map2 (+) xs ys) = sum_list xs + sum_list (ys :: rat list)"
  by (induction xs ys rule: list_induct2) simp_all

lemma sum_list_upd: "b < length xs \<Longrightarrow> sum_list (xs[b := v]) = sum_list xs - xs ! b + (v :: rat)"
  by (induction xs arbitrary: b) (auto simp: nth_Cons split: nat.splits)

lemma sum_list_nonpos: "list_all (\<lambda>x. x \<le> 0) xs \<Longrightarrow> sum_list xs \<le> (0 :: rat)"
  by (induction xs) auto

lemma rnd_int_ge: "- 1 \<le> x \<Longrightarrow> - 1 \<le> rnd x"
  using fl.mono [of "- 1" x] fl.exact_int [of "- 1"] by simp

lemma drift_bounds:
  assumes "1 \<le> n" "n \<le> 256"
  shows "(of_nat n * (of_nat n + 1) + of_nat n + 2 + 65 * of_nat n) * u \<le> drift n"
    "(2 * of_nat n + 4) * u \<le> drift n"
proof -
  have "of_nat n * of_nat n \<le> 256 * (of_nat n :: rat)"
    using assms(2) by (intro mult_right_mono) simp_all
  moreover have "1 \<le> (of_nat n :: rat)" using assms(1) by simp
  ultimately have "of_nat n * (of_nat n + 1) + of_nat n + 2 + 65 * of_nat n \<le> 512 * (of_nat n :: rat)"
      "2 * of_nat n + 4 \<le> 512 * (of_nat n :: rat)"
    unfolding distrib_left mult_1_right by linarith+
  then show "(of_nat n * (of_nat n + 1) + of_nat n + 2 + 65 * of_nat n) * u \<le> drift n"
      "(2 * of_nat n + 4) * u \<le> drift n"
    unfolding drift_def using u_pos by (intro mult_right_mono; simp)+
qed

lemma credit_range:
  assumes "credits_ok n k cs" "of_nat k * drift n \<le> 1 / 16" "i < n"
  shows "- 1 \<le> cs ! i" "cs ! i \<le> of_nat n"
  using assms credits_upper [of cs i] by (auto simp: credits_ok_def list_all_length)

text \<open>One round: the new credits are the old ones plus shares, less one for the winner, up to rounding.\<close>

lemma vec_step_ok:
  assumes c: "credits_ok n k cs" and n: "1 \<le> n" "n \<le> 256" and k: "of_nat k * drift n \<le> 1 / 16"
    and sh: "length sh = n" "list_all (\<lambda>s. 0 \<le> s \<and> s \<le> 1) sh" "\<bar>sum_list sh - 1\<bar> \<le> 65 * of_nat n * u"
    and b: "b < n" "\<forall>x \<in> set (map2 fadd cs sh). x \<le> map2 fadd cs sh ! b"
  shows "credits_ok n (Suc k) (vec_step sh cs b)"
    and "i < n \<Longrightarrow> \<bar>vec_step sh cs b ! i - (cs ! i + sh ! i - (if i = b then 1 else 0))\<bar> \<le> drift n"
proof -
  let ?ds = "map2 fadd cs sh" and ?N = "of_nat n :: rat"
  have len: "length cs = n" "length ?ds = n"
    using c sh(1) by (simp_all add: credits_ok_def)
  have N: "1 \<le> ?N" using n by simp
  have s01: "0 \<le> sh ! i" "sh ! i \<le> 1" if "i < n" for i
    using sh(1,2) that by (simp_all add: list_all_length)
  note cr = credit_range [OF c k]
  have dsi: "?ds ! i = rnd (cs ! i + sh ! i)" if "i < n" for i
    using that len sh(1) by (simp add: fadd_def)
  have e: "\<bar>rnd (cs ! i + sh ! i) - (cs ! i + sh ! i)\<bar> \<le> (?N + 1) * u" if "i < n" for i
    using cr [OF that] s01 [OF that] N by (intro rnd_error) (simp_all add: abs_le_iff)
  have lo: "- 1 \<le> ?ds ! i" if "i < n" for i
    using cr [OF that] s01 [OF that] unfolding dsi [OF that] by (intro rnd_int_ge) simp
  have hi: "?ds ! i \<le> ?N + 1" if "i < n" for i
  proof -
    have "rnd (cs ! i + sh ! i) \<le> rnd (of_int (int n + 1))"
      using cr [OF that] s01 [OF that] by (intro fl.mono) simp
    then show ?thesis using dsi [OF that] fl.exact_int [of "int n + 1"] n by simp
  qed
  have "list_all (\<lambda>p. \<bar>(\<lambda>(c, s). fadd c s) p - (\<lambda>(c, s). c + s) p\<bar> \<le> (?N + 1) * u) (zip cs sh)"
    using e len sh(1) by (auto simp: list_all_length fadd_def)
  then have sum: "\<bar>sum_list ?ds - (sum_list cs + sum_list sh)\<bar> \<le> ?N * ((?N + 1) * u)"
    using sum_list_close [of "\<lambda>(c, s). fadd c s" "\<lambda>(c, s). c + s" "(?N + 1) * u" "zip cs sh"]
      sum_list_map2_add [of cs sh] len sh(1) by simp
  have tot: "\<bar>sum_list cs\<bar> \<le> of_nat k * drift n"
    using c by (simp add: credits_ok_def)
  have d: "?N * ((?N + 1) * u) + (?N + 2) * u + 65 * ?N * u \<le> drift n"
    using drift_bounds(1) [OF n] by (simp add: algebra_simps)
  have dn: "drift n \<le> 1 / 16"
    using n by (simp add: drift_def u_def)
  have up: "0 < u" by (rule u_pos)
  have "0 < (?N + 2) * u" using N up by (intro mult_pos_pos) simp_all
  then have "0 < sum_list ?ds"
    using sum tot sh(3) d dn k unfolding abs_le_iff by linarith
  then have "\<not> list_all (\<lambda>x. x \<le> 0) ?ds"
    using sum_list_nonpos [of ?ds] by linarith
  then have win: "0 < ?ds ! b"
    using b(2) by (auto simp: list_all_iff)
  have v: "- 1 \<le> fsub (?ds ! b) 1"
    using win unfolding fsub_def by (intro rnd_int_ge) simp
  have ve: "\<bar>fsub (?ds ! b) 1 - (?ds ! b - 1)\<bar> \<le> (?N + 2) * u"
    using win hi [OF b(1)] N unfolding fsub_def by (intro rnd_error) (simp_all add: abs_le_iff)
  have upd: "vec_step sh cs b = ?ds[b := fsub (?ds ! b) 1]"
    by (simp add: vec_step_def Let_def)
  have "\<bar>sum_list (vec_step sh cs b)\<bar> \<le> of_nat k * drift n + drift n"
    unfolding upd using sum_list_upd [of b ?ds "fsub (?ds ! b) 1"] b(1) len sum ve tot sh(3) d
    unfolding abs_le_iff by linarith
  moreover have "list_all (\<lambda>c. - 1 \<le> c) (vec_step sh cs b)"
    unfolding upd list_all_length using lo v len b(1) by (simp add: nth_list_update)
  ultimately show "credits_ok n (Suc k) (vec_step sh cs b)"
    using len by (simp add: credits_ok_def upd algebra_simps)
  show "\<bar>vec_step sh cs b ! i - (cs ! i + sh ! i - (if i = b then 1 else 0))\<bar> \<le> drift n" if i: "i < n"
  proof (cases "i = b")
    case True
    then have "vec_step sh cs b ! i = fsub (?ds ! b) 1"
      using i len by (simp add: upd)
    moreover have "(?N + 1) * u + (?N + 2) * u \<le> drift n"
      using drift_bounds(2) [OF n] up by (simp add: algebra_simps)
    ultimately show ?thesis
      using ve e [OF i] dsi [OF i] True unfolding abs_le_iff by simp
  next
    case False
    then have "vec_step sh cs b ! i = rnd (cs ! i + sh ! i)"
      using i len dsi [OF i] by (simp add: upd)
    moreover have "(?N + 1) * u \<le> drift n"
      using mult_right_mono [of "?N + 1" "2 * ?N + 4" u] N up
      by (intro order_trans [OF _ drift_bounds(2) [OF n]]) simp
    ultimately show ?thesis
      using e [OF i] False by simp
  qed
qed

section \<open>Sequences of picks\<close>

text \<open>
  Packets sent one after the other over the same candidate paths, each with the weights of its
  time; the result is the final state and the chosen indices.
\<close>

fun pick_run :: "byte list \<Rightarrow> f64 list list \<Rightarrow> credits \<Rightarrow> (credits \<times> int list) option" where
  "pick_run ids [] m = Some (m, [])"
| "pick_run ids (ws # wss) m =
     Option.bind (Pick ids ws m) (\<lambda>(m, b). Option.bind (pick_run ids wss m) (\<lambda>(m, bs). Some (m, b # bs)))"

definition entitled :: "nat \<Rightarrow> f64 list list \<Rightarrow> nat \<Rightarrow> rat" where
  "entitled n wss i = sum_list (map (\<lambda>ws. shares n ws ! i) wss)"

lemma pick_run_fair:
  assumes "distinct ids" "2 \<le> length ids" "length ids \<le> 256" "list_all (weights_ok (length ids)) wss"
    and "Mapping.keys m \<subseteq> set ids" "credits_ok (length ids) k (credit_vec ids m)"
    and "of_nat (k + length wss) * drift (length ids) \<le> 1 / 16"
  shows "\<exists>m' bs. pick_run ids wss m = Some (m', bs) \<and> length bs = length wss \<and>
    credits_ok (length ids) (k + length wss) (credit_vec ids m') \<and>
    (\<forall>b \<in> set bs. 0 \<le> b \<and> b < int (length ids)) \<and>
    (\<forall>i < length ids. \<bar>credit_vec ids m' ! i - (credit_vec ids m ! i + entitled (length ids) wss i -
        of_nat (count_list bs (int i)))\<bar> \<le> of_nat (length wss) * drift (length ids))"
  using assms(4-7)
proof (induction wss arbitrary: m k)
  case Nil
  then show ?case by (simp add: entitled_def)
next
  case (Cons ws wss)
  let ?n = "length ids" and ?cs = "credit_vec ids m"
  have ws: "weights_ok ?n ws" using Cons.prems(1) by simp
  note so = shares_ok [OF ws _ assms(3)]
  have sh: "length (shares ?n ws) = ?n" "list_all (\<lambda>s. 0 \<le> s \<and> s \<le> 1) (shares ?n ws)"
      "\<bar>sum_list (shares ?n ws) - 1\<bar> \<le> 65 * of_nat ?n * u"
    using so assms(2) by (auto simp: list_all_iff intro: order_trans [of 0 "1 / (64 * of_nat ?n)"])
  have lw: "length ws = ?n" using ws by (simp add: weights_ok_def)
  obtain m1 b where p: "Pick ids ws m = Some (m1, int b)" "b < ?n" "Mapping.keys m1 \<subseteq> set ids"
      "credit_vec ids m1 = vec_step (shares ?n ws) ?cs b"
      "\<forall>x \<in> set (map2 fadd ?cs (shares ?n ws)). x \<le> map2 fadd ?cs (shares ?n ws) ! b"
    by (rule Pick_vec [OF assms(1,2) lw sh(1) Cons.prems(2)])
  have d0: "0 \<le> drift ?n"
    using u_pos by (simp add: drift_def less_imp_le)
  have k: "of_nat k * drift ?n \<le> 1 / 16"
    using Cons.prems(4) mult_right_mono [of "of_nat k" "of_nat (k + length (ws # wss))" "drift ?n"] d0 by simp
  have vs: "credits_ok ?n (Suc k) (credit_vec ids m1)"
      "\<And>i. i < ?n \<Longrightarrow> \<bar>credit_vec ids m1 ! i - (?cs ! i + shares ?n ws ! i - (if i = b then 1 else 0))\<bar> \<le> drift ?n"
    unfolding p(4) using vec_step_ok [OF Cons.prems(3) _ assms(3) k sh p(2,5)] assms(2) by simp_all
  obtain m' bs where r: "pick_run ids wss m1 = Some (m', bs)" "length bs = length wss"
      "credits_ok ?n (Suc k + length wss) (credit_vec ids m')" "\<forall>b \<in> set bs. 0 \<le> b \<and> b < int ?n"
      "\<And>i. i < ?n \<Longrightarrow> \<bar>credit_vec ids m' ! i - (credit_vec ids m1 ! i + entitled ?n wss i -
        of_nat (count_list bs (int i)))\<bar> \<le> of_nat (length wss) * drift ?n"
    using Cons.IH [OF _ p(3) vs(1)] Cons.prems(1,4) by auto
  have "\<bar>credit_vec ids m' ! i - (?cs ! i + entitled ?n (ws # wss) i - of_nat (count_list (int b # bs) (int i)))\<bar>
      \<le> of_nat (length (ws # wss)) * drift ?n" if i: "i < ?n" for i
    using vs(2) [OF i] r(5) [OF i] by (auto simp: entitled_def distrib_right abs_le_iff)
  with p(1,2) r show ?case by auto
qed

section \<open>Properties\<close>

text \<open>
  C8. The scheduler divides the traffic in the right proportions: for \<open>n\<close> candidate paths and
  any sequence of at most \<open>2^39 / n\<close> packets, each with its own weights (unknown ones
  included), every pick returns a valid index and, at the end, the number of packets each path
  carried differs from the sum of its shares by less than \<open>n + 1\<close> packets, with binary64
  rounding in every step.
\<close>

theorem pick_proportional:
  assumes "distinct ids" "2 \<le> length ids" "list_all (weights_ok (length ids)) wss"
    and "length wss * length ids \<le> 2 ^ 39"
  shows "\<exists>m bs. pick_run ids wss NewWeighted = Some (m, bs) \<and> length bs = length wss \<and>
    (\<forall>b \<in> set bs. 0 \<le> b \<and> b < int (length ids)) \<and>
    (\<forall>i < length ids. \<bar>of_nat (count_list bs (int i)) - entitled (length ids) wss i\<bar> < of_nat (length ids) + 1)"
proof -
  let ?n = "length ids"
  have "card (set ids) \<le> card (UNIV :: byte set)"
    by (rule card_mono) simp_all
  then have n: "?n \<le> 256"
    using distinct_card [OF assms(1)] by (simp add: card_word)
  have c0: "credit_vec ids NewWeighted = replicate ?n 0"
    by (intro nth_equalityI) (simp_all add: credit_vec_def credit_of_def NewWeighted_def lookup_default_empty)
  then have ok: "credits_ok ?n 0 (credit_vec ids NewWeighted)"
    by (simp add: credits_ok_def list_all_length sum_list_replicate)
  have "(of_nat (length wss * ?n) :: rat) \<le> of_nat (2 ^ 39)"
    using assms(4) by (simp only: of_nat_le_iff)
  then have d: "of_nat (length wss) * drift ?n \<le> 1 / 16"
    by (simp add: drift_def u_def)
  obtain m bs where r: "pick_run ids wss NewWeighted = Some (m, bs)" "length bs = length wss"
      "credits_ok ?n (length wss) (credit_vec ids m)" "\<forall>b \<in> set bs. 0 \<le> b \<and> b < int ?n"
      "\<And>i. i < ?n \<Longrightarrow> \<bar>credit_vec ids m ! i - (credit_vec ids NewWeighted ! i + entitled ?n wss i -
        of_nat (count_list bs (int i)))\<bar> \<le> of_nat (length wss) * drift ?n"
    using pick_run_fair [OF assms(1,2) n assms(3) _ ok] d by (auto simp: NewWeighted_def)
  have "\<bar>of_nat (count_list bs (int i)) - entitled ?n wss i\<bar> < of_nat ?n + 1" if i: "i < ?n" for i
    using r(5) [OF i] credit_range [OF r(3) d i] d i assms(2) unfolding c0 abs_le_iff abs_less_iff by auto
  with r show ?thesis by blast
qed

theorem pick_proportional_witness:
  "\<exists>m bs. pick_run [1, 2, 7] (replicate 1000 [30000000, 10000000, 0]) NewWeighted = Some (m, bs) \<and>
     length bs = 1000 \<and>
     \<bar>of_nat (count_list bs 1) - entitled 3 (replicate 1000 [30000000, 10000000, 0]) 1\<bar> < 4"
proof -
  have w: "weights_ok 3 [30000000, 10000000, 0]"
    using fl.exact_int [of 30000000] fl.exact_int [of 10000000] by (simp add: weights_ok_def)
  then have "list_all (weights_ok (length [1, 2, 7 :: byte])) (replicate 1000 [30000000, 10000000, 0])"
    by (simp add: list_all_iff numeral_3_eq_3)
  then have "\<exists>m bs. pick_run [1, 2, 7] (replicate 1000 [30000000, 10000000, 0]) NewWeighted = Some (m, bs) \<and>
      length bs = 1000 \<and>
      (\<forall>i < 3. \<bar>of_nat (count_list bs (int i)) - entitled 3 (replicate 1000 [30000000, 10000000, 0]) i\<bar> < 4)"
    using pick_proportional [of "[1, 2, 7]" "replicate 1000 [30000000, 10000000, 0]"]
    by (simp add: numeral_3_eq_3) blast
  then obtain m bs where r: "pick_run [1, 2, 7] (replicate 1000 [30000000, 10000000, 0]) NewWeighted = Some (m, bs)"
      "length bs = 1000"
      "\<forall>i < 3. \<bar>of_nat (count_list bs (int i)) - entitled 3 (replicate 1000 [30000000, 10000000, 0]) i\<bar> < 4"
    by blast
  from r(3) [rule_format, of 1] r(1,2) show ?thesis by auto
qed

text \<open>
  No usable path starves: whatever the weights, the share of each of \<open>n\<close> paths is at least
  \<open>1 / (64 n)\<close>, so that its capacity keeps being measured, and at most 1; the shares sum to 1
  up to \<open>65 n / 2^52\<close>.
\<close>

theorem shares_bounded:
  assumes "weights_ok n ws" "1 \<le> n" "n \<le> 256"
  shows "length (shares n ws) = n \<and> (\<forall>s \<in> set (shares n ws). 1 / (64 * of_nat n) \<le> s \<and> s \<le> 1) \<and>
    \<bar>sum_list (shares n ws) - 1\<bar> \<le> 65 * of_nat n / 2 ^ 52"
  using shares_ok [OF assms] by (simp add: list_all_iff u_def)

theorem shares_bounded_witness:
  "list_all (\<lambda>s. 1 / 128 \<le> s \<and> s \<le> 1) (shares 2 [1000000000, 1])"
proof -
  have "weights_ok 2 [1000000000, 1]"
    using fl.exact_int [of 1000000000] fl.one by (simp add: weights_ok_def)
  from shares_bounded [OF this] show ?thesis by (simp add: list_all_iff)
qed

end
