(* ===== verification/Bridge.thy ===== *)
theory Bridge
  imports Wire
begin

text \<open>
  Packages \<^verbatim>\<open>internal/buffers\<close> (the slab pool and the packet view into a slab) and
  \<^verbatim>\<open>internal/wgbridge\<close> as far as it is the program's own: the correlator, the bind through which
  WireGuard receives ciphertext, and the TUN shim.

  A slab pointer is the number of its loan (one per \<^verbatim>\<open>Get\<close>) with the slab's bytes: the holder of
  a loan is the only one that touches the slab, so that the bytes travel with it, and returning
  a loan twice or never is visible. A Go channel is its buffered values and whether it is
  closed; sending on a closed channel and closing it twice panic (\<open>None\<close>).
\<close>

section \<open>Slabs and packets\<close>

definition SlabSize :: nat where [simp]: "SlabSize = 2048"

type_synonym loan = nat

record Packet =
  Slab :: "(loan \<times> bytes) option"
  Off :: nat
  Len :: nat

text \<open>Go's zero value of the packet type, which the reorder buffer writes into emptied slots.\<close>

instantiation unit :: zero
begin

definition zero_unit_def: "(0 :: unit) = ()"

instance ..

end

instantiation Packet_ext :: (zero) zero
begin

definition zero_Packet_ext_def: "(0 :: 'a Packet_scheme) = \<lparr>Slab = None, Off = 0, Len = 0, \<dots> = 0\<rparr>"

instance ..

end

text \<open>\<^verbatim>\<open>Get\<close> gives a slab with whatever its last user left there.\<close>

definition Get :: "(nat \<Rightarrow> byte) \<Rightarrow> bytes" where
  "Get dirty = map dirty [0..<SlabSize]"

definition Bytes :: "Packet \<Rightarrow> bytes option" where
  "Bytes p = (case Slab p of None \<Rightarrow> None | Some (i, b) \<Rightarrow> slice b (Off p) (Off p + Len p))"

text \<open>The loans given back by \<^verbatim>\<open>Release\<close>.\<close>

definition Release :: "Packet \<Rightarrow> loan list" where
  "Release p = (case Slab p of None \<Rightarrow> [] | Some (i, b) \<Rightarrow> [i])"

definition packet_ok :: "Packet \<Rightarrow> bool" where
  "packet_ok p \<longleftrightarrow> (\<exists>i b. Slab p = Some (i, b) \<and> Off p + Len p \<le> length b)"

lemma Bytes_ok: "packet_ok p \<Longrightarrow> \<exists>b. Bytes p = Some b \<and> length b = Len p"
  by (auto simp: packet_ok_def Bytes_def slice_ok)

section \<open>The correlator\<close>

record corrEntry =
  eclass :: byte
  ctLen :: int

record Correlator =
  fifo :: "corrEntry list"
  hits :: u64
  miss :: u64
  drops :: u64

definition scanAhead :: nat where [simp]: "scanAhead = 8"
definition fifoCap :: nat where [simp]: "fifoCap = 4096"

text \<open>The zero value.\<close>

definition NewCorrelator :: Correlator where
  "NewCorrelator = \<lparr>fifo = [], hits = 0, miss = 0, drops = 0\<rparr>"

definition ExpectedCtLen :: "int \<Rightarrow> int" where
  "ExpectedCtLen ptLen = (let padded = (ptLen + 15) AND (NOT 15) in 16 + padded + 16)"

definition PushPlain :: "byte \<Rightarrow> int \<Rightarrow> Correlator \<Rightarrow> Correlator" where
  "PushPlain class ptLen c =
     (if length (fifo c) < fifoCap
      then c\<lparr>fifo := fifo c @ [\<lparr>eclass = class, ctLen = ExpectedCtLen ptLen\<rparr>]\<rparr> else c)"

text \<open>The loop of \<^verbatim>\<open>MatchCiphertext\<close> from index \<open>i\<close> on; \<open>es\<close> are the entries from \<open>i\<close> to the limit.\<close>

fun match_from :: "nat \<Rightarrow> corrEntry list \<Rightarrow> int \<Rightarrow> (nat \<times> byte) option" where
  "match_from i [] len = None"
| "match_from i (e # es) len = (if ctLen e = len then Some (i, eclass e) else match_from (Suc i) es len)"

definition MatchCiphertext :: "int \<Rightarrow> Correlator \<Rightarrow> Correlator \<times> byte" where
  "MatchCiphertext len c =
     (case match_from 0 (take (min (length (fifo c)) scanAhead) (fifo c)) len of
        Some (i, class) \<Rightarrow>
          (c\<lparr>fifo := drop (i + 1) (fifo c), drops := drops c + of_nat i, hits := hits c + 1\<rparr>, class)
      | None \<Rightarrow> (c\<lparr>miss := miss c + 1\<rparr>, ClassBulk))"

definition FlushCorrelator :: "Correlator \<Rightarrow> Correlator" where
  "FlushCorrelator c = c\<lparr>fifo := []\<rparr>"

definition CorrStats :: "Correlator \<Rightarrow> u64 \<times> u64 \<times> u64" where
  "CorrStats c = (hits c, miss c, drops c)"

section \<open>The bind\<close>

text \<open>A session endpoint is its session number; its cookie bytes.\<close>

type_synonym SessionEndpoint = u32

definition DstToBytes :: "SessionEndpoint \<Rightarrow> bytes option" where
  "DstToBytes e = put_u32 (replicate 4 0) 0 e"

record Inbound =
  Pkt :: Packet
  Ep :: SessionEndpoint

record chan =
  queue :: "Inbound list"
  ch_closed :: bool

text \<open>
  All channels the bind ever made, in order: a receive function keeps the channel it was made
  with, also after the bind is closed or opened again.
\<close>

record EngineBind =
  chans :: "chan list"
  rx :: "nat option"
  closed :: bool

definition rxQueueLen :: nat where [simp]: "rxQueueLen = 1024"

definition NewEngineBind :: EngineBind where
  "NewEngineBind = \<lparr>chans = [], rx = None, closed = False\<rparr>"

definition upd_chan :: "nat \<Rightarrow> (chan \<Rightarrow> chan) \<Rightarrow> EngineBind \<Rightarrow> EngineBind" where
  "upd_chan i f b = b\<lparr>chans := (chans b)[i := f (chans b ! i)]\<rparr>"

datatype bind_error = ErrBindAlreadyOpen | ErrClosed

definition Open :: "EngineBind \<Rightarrow> EngineBind \<times> (bind_error + nat)" where
  "Open b =
     (if rx b \<noteq> None \<and> \<not> closed b then (b, Inl ErrBindAlreadyOpen)
      else (b\<lparr>chans := chans b @ [\<lparr>queue = [], ch_closed = False\<rparr>], rx := Some (length (chans b)), closed := False\<rparr>,
            Inr (length (chans b))))"

definition CloseBind :: "EngineBind \<Rightarrow> EngineBind option" where
  "CloseBind b =
     (case rx b of
        None \<Rightarrow> Some b
      | Some i \<Rightarrow>
          if closed b then Some b
          else if ch_closed (chans b ! i) then None
          else Some (upd_chan i (\<lambda>c. c\<lparr>ch_closed := True\<rparr>) (b\<lparr>closed := True\<rparr>)))"

text \<open>What leaves the bind: a packet accepted, copied up to WireGuard, or dropped.\<close>

datatype bind_out =
    Queued nat Inbound
  | Copied nat Inbound bytes
  | Dropped Packet

definition Deliver :: "Packet \<Rightarrow> SessionEndpoint \<Rightarrow> EngineBind \<Rightarrow> (EngineBind \<times> bind_out list \<times> bool) option" where
  "Deliver pkt ep b =
     (case rx b of
        None \<Rightarrow> Some (b, [Dropped pkt], False)
      | Some i \<Rightarrow>
          if closed b then Some (b, [Dropped pkt], False)
          else if ch_closed (chans b ! i) then None
          else if length (queue (chans b ! i)) < rxQueueLen
          then Some (upd_chan i (\<lambda>c. c\<lparr>queue := queue c @ [\<lparr>Pkt = pkt, Ep = ep\<rparr>]\<rparr>) b,
                     [Queued i \<lparr>Pkt = pkt, Ep = ep\<rparr>], True)
          else Some (b, [Dropped pkt], False))"

text \<open>
  The receive function of channel \<open>i\<close> with a first buffer of \<open>cap\<close> bytes. \<open>Blocked\<close> is a call
  that waits; a closed channel still hands out what it holds.
\<close>

datatype recv_result = Blocked | RecvErr bind_error | Received bytes SessionEndpoint

definition recv :: "nat \<Rightarrow> nat \<Rightarrow> EngineBind \<Rightarrow> (EngineBind \<times> bind_out list \<times> recv_result) option" where
  "recv i cap b =
     (case queue (chans b ! i) of
        [] \<Rightarrow> Some (b, [], if ch_closed (chans b ! i) then RecvErr ErrClosed else Blocked)
      | x # xs \<Rightarrow> do {
          bs \<leftarrow> Bytes (Pkt x);
          Some (upd_chan i (\<lambda>c. c\<lparr>queue := xs\<rparr>) b, [Copied i x (take cap bs)], Received (take cap bs) (Ep x))
        })"

text \<open>
  \<^verbatim>\<open>TunShim.Read\<close> after the device's own \<^verbatim>\<open>Read\<close>, which returned \<open>n\<close> and filled the buffers and sizes:
  the packets handed to \<^verbatim>\<open>inspect\<close>, in order.
\<close>

fun tun_inspect :: "nat \<Rightarrow> nat \<Rightarrow> nat \<Rightarrow> bytes list \<Rightarrow> nat list \<Rightarrow> bytes list option" where
  "tun_inspect 0 i offset bufs sizes = Some []"
| "tun_inspect (Suc n) i offset bufs sizes = do {
     b \<leftarrow> idx bufs i;
     sz \<leftarrow> idx sizes i;
     pkt \<leftarrow> slice b offset (offset + sz);
     ps \<leftarrow> tun_inspect n (Suc i) offset bufs sizes;
     Some (pkt # ps)
   }"

definition TunRead :: "bool \<Rightarrow> nat \<Rightarrow> nat \<Rightarrow> bytes list \<Rightarrow> nat list \<Rightarrow> bytes list option" where
  "TunRead inspecting n offset bufs sizes = (if inspecting then tun_inspect n 0 offset bufs sizes else Some [])"


section \<open>The correlator against WireGuard's order\<close>

lemma ExpectedCtLen_eq: "ExpectedCtLen n = 32 + 16 * ((n + 15) div 16)"
proof -
  have "(n + 15) AND NOT (mask 4) = push_bit 4 (drop_bit 4 (n + 15))"
    by (rule bit_eqI) (auto simp: bit_simps)
  then show ?thesis
    by (simp add: ExpectedCtLen_def push_bit_eq_mult drop_bit_eq_div mask_eq_exp_minus_1)
qed

text \<open>
  The view from WireGuard: packets enter in the order of the TUN reads, and the next datagram
  on the wire belongs to the packet at position \<open>j\<close> of those still inside, the \<open>j\<close> before it
  having been discarded.
\<close>

datatype wg_event = Enter byte int | Leave nat

text \<open>
  The events the correlator is built for: it has room, fewer than eight packets are discarded
  between two datagrams, and none of them has the padded length of the packet that leaves.
\<close>

fun wg_ok :: "wg_event list \<Rightarrow> (byte \<times> int) list \<Rightarrow> bool" where
  "wg_ok [] q = True"
| "wg_ok (Enter cl n # es) q = (length q < 4096 \<and> wg_ok es (q @ [(cl, n)]))"
| "wg_ok (Leave j # es) q = (j < length q \<and> j < 8 \<and>
     list_all (\<lambda>x. ExpectedCtLen (snd x) \<noteq> ExpectedCtLen (snd (q ! j))) (take j q) \<and> wg_ok es (drop (j + 1) q))"

text \<open>The classes of the packets that leave.\<close>

fun wg_classes :: "wg_event list \<Rightarrow> (byte \<times> int) list \<Rightarrow> byte list" where
  "wg_classes [] q = []"
| "wg_classes (Enter cl n # es) q = wg_classes es (q @ [(cl, n)])"
| "wg_classes (Leave j # es) q = fst (q ! j) # wg_classes es (drop (j + 1) q)"

text \<open>What the correlator, which sees lengths only, makes of the same events.\<close>

fun corr_run :: "wg_event list \<Rightarrow> (byte \<times> int) list \<Rightarrow> Correlator \<Rightarrow> Correlator \<times> byte list" where
  "corr_run [] q c = (c, [])"
| "corr_run (Enter cl n # es) q c = corr_run es (q @ [(cl, n)]) (PushPlain cl n c)"
| "corr_run (Leave j # es) q c =
     (let (c, x) = MatchCiphertext (ExpectedCtLen (snd (q ! j))) c;
          (c, xs) = corr_run es (drop (j + 1) q) c in (c, x # xs))"

definition entries :: "(byte \<times> int) list \<Rightarrow> corrEntry list" where
  "entries = map (\<lambda>(cl, n). \<lparr>eclass = cl, ctLen = ExpectedCtLen n\<rparr>)"

lemma match_from_first:
  "j < length es \<Longrightarrow> ctLen (es ! j) = len \<Longrightarrow> list_all (\<lambda>e. ctLen e \<noteq> len) (take j es) \<Longrightarrow>
   match_from i es len = Some (i + j, eclass (es ! j))"
proof (induction es arbitrary: i j)
  case (Cons e es)
  then show ?case by (cases j) auto
qed simp

lemma match_from_none: "list_all (\<lambda>e. ctLen e \<noteq> len) es \<Longrightarrow> match_from i es len = None"
  by (induction es arbitrary: i) simp_all

lemma corr_run_classes:
  assumes "wg_ok es q" "fifo c = entries q"
  shows "snd (corr_run es q c) = wg_classes es q \<and> miss (fst (corr_run es q c)) = miss c"
  using assms
proof (induction es q arbitrary: c rule: wg_ok.induct)
  case (2 cl n es q)
  then show ?case by (simp add: PushPlain_def entries_def)
next
  case (3 j es q)
  let ?es = "take (min (length (fifo c)) scanAhead) (fifo c)"
  let ?len = "ExpectedCtLen (snd (q ! j))"
  have j: "j < length q" "j < 8" and skip: "list_all (\<lambda>x. ExpectedCtLen (snd x) \<noteq> ?len) (take j q)"
    using "3.prems"(1) by simp_all
  have "match_from 0 ?es ?len = Some (0 + j, eclass (?es ! j))"
    using j skip by (intro match_from_first)
      (auto simp: "3.prems"(2) entries_def list_all_iff take_map split: prod.splits)
  moreover have "eclass (?es ! j) = fst (q ! j)"
    using j by (simp add: "3.prems"(2) entries_def split: prod.split)
  ultimately have m: "MatchCiphertext ?len c =
      (c\<lparr>fifo := drop (j + 1) (fifo c), drops := drops c + of_nat j, hits := hits c + 1\<rparr>, fst (q ! j))"
    by (simp add: MatchCiphertext_def)
  show ?case
    using "3.IH" [of "fst (MatchCiphertext ?len c)"] "3.prems"
    by (auto simp: m entries_def drop_map split: prod.splits)
qed simp


text \<open>Packets entering and datagrams of given lengths leaving, without a link between them.\<close>

datatype corr_op = Push_plain byte int | Match int

fun corr_ops :: "corr_op list \<Rightarrow> Correlator \<Rightarrow> Correlator \<times> byte list" where
  "corr_ops [] c = (c, [])"
| "corr_ops (Push_plain cl n # xs) c = corr_ops xs (PushPlain cl n c)"
| "corr_ops (Match len # xs) c =
     (let (c, x) = MatchCiphertext len c; (c, ys) = corr_ops xs c in (c, x # ys))"

fun misses_head :: "corrEntry list \<Rightarrow> corr_op \<Rightarrow> bool" where
  "misses_head es (Match len) = list_all (\<lambda>e. ctLen e \<noteq> len) es"
| "misses_head es (Push_plain cl n) = True"

lemma corr_ops_stuck:
  assumes "8 \<le> length (fifo c)" "list_all (misses_head (take 8 (fifo c))) xs"
  shows "set (snd (corr_ops xs c)) \<subseteq> {ClassBulk} \<and> hits (fst (corr_ops xs c)) = hits c \<and>
    take 8 (fifo (fst (corr_ops xs c))) = take 8 (fifo c)"
  using assms
proof (induction xs c rule: corr_ops.induct)
  case (2 cl n xs c)
  then show ?case by (auto simp: PushPlain_def split: if_splits)
next
  case (3 len xs c)
  then have m: "MatchCiphertext len c = (c\<lparr>miss := miss c + 1\<rparr>, ClassBulk)"
    by (simp add: MatchCiphertext_def match_from_none)
  have "list_all (misses_head (take 8 (fifo (c\<lparr>miss := miss c + 1\<rparr>)))) xs"
    using "3.prems" by simp
  from "3.IH" [OF m [symmetric] refl] this "3.prems"(1) show ?case
    by (simp add: m split_beta)
qed simp

section \<open>The bind as a component\<close>

datatype bind_op = BOpen | BClose | BDeliver Packet SessionEndpoint | BRecv nat nat

text \<open>A receive function exists for the channels that were opened.\<close>

fun bind_step :: "bind_op \<Rightarrow> EngineBind \<Rightarrow> (EngineBind \<times> bind_out list) option" where
  "bind_step BOpen b = Some (fst (Open b), [])"
| "bind_step BClose b = map_option (\<lambda>b. (b, [])) (CloseBind b)"
| "bind_step (BDeliver pkt ep) b = map_option (\<lambda>(b, os, _). (b, os)) (Deliver pkt ep b)"
| "bind_step (BRecv i cap) b =
     (if i < length (chans b) then map_option (\<lambda>(b, os, _). (b, os)) (recv i cap b) else Some (b, []))"

definition chan_ok :: "chan \<Rightarrow> bool" where
  "chan_ok c \<longleftrightarrow> length (queue c) \<le> 1024 \<and> list_all (\<lambda>x. packet_ok (Pkt x)) (queue c)"

definition bind_inv :: "EngineBind \<Rightarrow> bool" where
  "bind_inv b \<longleftrightarrow> list_all chan_ok (chans b) \<and>
     (\<forall>i. rx b = Some i \<longrightarrow> i < length (chans b) \<and> ch_closed (chans b ! i) = closed b)"

definition bind_holds :: "EngineBind \<Rightarrow> Packet multiset" where
  "bind_holds b = sum_list (map (\<lambda>c. mset (map Pkt (queue c))) (chans b))"

fun bind_ok :: "bind_op \<Rightarrow> bool" where
  "bind_ok (BDeliver pkt ep) = packet_ok pkt"
| "bind_ok _ = True"

fun bind_takes :: "bind_op \<Rightarrow> Packet multiset" where
  "bind_takes (BDeliver pkt ep) = {#pkt#}"
| "bind_takes _ = {#}"

fun out_gives :: "bind_out \<Rightarrow> Packet multiset" where
  "out_gives (Queued i x) = {#}"
| "out_gives (Copied i x bs) = {#Pkt x#}"
| "out_gives (Dropped pkt) = {#pkt#}"

definition bind_gives :: "bind_out list \<Rightarrow> Packet multiset" where
  "bind_gives os = sum_list (map out_gives os)"

lemma bind_gives_simps [simp]:
  "bind_gives [] = {#}" "bind_gives (x # os) = out_gives x + bind_gives os"
  "bind_gives (os @ os') = bind_gives os + bind_gives os'"
  by (simp_all add: bind_gives_def)

lemma sum_list_update_multiset:
  "i < length xs \<Longrightarrow> sum_list (map f (xs[i := y])) + f (xs ! i) = sum_list (map f xs) + (f y :: 'b multiset)"
proof (induction xs arbitrary: i)
  case (Cons x xs)
  show ?case
  proof (cases i)
    case (Suc j)
    then show ?thesis
      using Cons.IH [of j] Cons.prems by (simp add: add.assoc)
  qed (simp add: ac_simps)
qed simp

lemma holds_upd_chan:
  assumes "i < length (chans b)"
  shows "bind_holds (upd_chan i f b) + mset (map Pkt (queue (chans b ! i))) =
    bind_holds b + mset (map Pkt (queue (f (chans b ! i))))"
  using sum_list_update_multiset [OF assms, of "\<lambda>c. mset (map Pkt (queue c))"]
  by (simp add: bind_holds_def upd_chan_def)

lemma upd_chan_inv:
  assumes "bind_inv b" "i < length (chans b)" "chan_ok (f (chans b ! i))"
    "ch_closed (f (chans b ! i)) = ch_closed (chans b ! i)"
  shows "bind_inv (upd_chan i f b)"
  using assms by (auto simp: bind_inv_def upd_chan_def list_all_length nth_list_update)

lemma inv_chan: "bind_inv b \<Longrightarrow> i < length (chans b) \<Longrightarrow> chan_ok (chans b ! i)"
  by (simp add: bind_inv_def list_all_length)

lemma Open_inv: "bind_inv b \<Longrightarrow> bind_inv (fst (Open b)) \<and> bind_holds (fst (Open b)) = bind_holds b"
  by (auto simp: Open_def bind_inv_def bind_holds_def chan_ok_def nth_append)

lemma CloseBind_inv:
  assumes "bind_inv b"
  shows "\<exists>b'. CloseBind b = Some b' \<and> bind_inv b' \<and> bind_holds b' = bind_holds b"
proof (cases "rx b")
  case (Some i)
  have i: "i < length (chans b)" "ch_closed (chans b ! i) = closed b"
    using assms Some by (simp_all add: bind_inv_def)
  have "bind_holds (upd_chan i (\<lambda>c. c\<lparr>ch_closed := True\<rparr>) (b\<lparr>closed := True\<rparr>)) = bind_holds b"
    using holds_upd_chan [of i "b\<lparr>closed := True\<rparr>" "\<lambda>c. c\<lparr>ch_closed := True\<rparr>"] i(1) by (simp add: bind_holds_def)
  moreover have "bind_inv (upd_chan i (\<lambda>c. c\<lparr>ch_closed := True\<rparr>) (b\<lparr>closed := True\<rparr>))"
    using assms i Some by (auto simp: bind_inv_def upd_chan_def list_all_length nth_list_update chan_ok_def)
  ultimately show ?thesis
    using assms Some i by (simp add: CloseBind_def)
qed (use assms in \<open>simp add: CloseBind_def\<close>)

lemma Deliver_ok:
  assumes "bind_inv b" "packet_ok pkt"
  shows "\<exists>b' os r. Deliver pkt ep b = Some (b', os, r) \<and> bind_inv b' \<and>
    add_mset pkt (bind_holds b) = bind_gives os + bind_holds b' \<and> (r \<longleftrightarrow> bind_gives os = {#})"
proof (cases "rx b")
  case (Some i)
  have i: "i < length (chans b)" "ch_closed (chans b ! i) = closed b"
    using assms(1) Some by (simp_all add: bind_inv_def)
  let ?f = "\<lambda>c. c\<lparr>queue := queue c @ [\<lparr>Pkt = pkt, Ep = ep\<rparr>]\<rparr>"
  have "bind_holds (upd_chan i ?f b) = add_mset pkt (bind_holds b)"
    using holds_upd_chan [OF i(1), of ?f] by simp
  moreover have "bind_inv (upd_chan i ?f b)" if "length (queue (chans b ! i)) < 1024"
    using that inv_chan [OF assms(1) i(1)] assms(2) by (intro upd_chan_inv [OF assms(1) i(1)]) (auto simp: chan_ok_def)
  ultimately show ?thesis
    using Some i assms(1) by (simp add: Deliver_def)
qed (use assms in \<open>simp add: Deliver_def\<close>)

lemma recv_ok:
  assumes "bind_inv b" "i < length (chans b)"
  shows "\<exists>b' os r. recv i cap b = Some (b', os, r) \<and> bind_inv b' \<and>
    bind_holds b = bind_gives os + bind_holds b'"
proof (cases "queue (chans b ! i)")
  case (Cons x xs)
  have ok: "chan_ok (chans b ! i)" using inv_chan [OF assms] .
  then obtain bs where "Bytes (Pkt x) = Some bs"
    using Bytes_ok [of "Pkt x"] Cons by (auto simp: chan_ok_def)
  moreover have "bind_inv (upd_chan i (\<lambda>c. c\<lparr>queue := xs\<rparr>) b)"
    using ok Cons by (intro upd_chan_inv [OF assms]) (auto simp: chan_ok_def)
  ultimately show ?thesis
    using Cons holds_upd_chan [OF assms(2), of "\<lambda>c. c\<lparr>queue := xs\<rparr>"] by (simp add: recv_def)
qed (use assms in \<open>simp add: recv_def\<close>)

lemma bind_step_ok:
  assumes "bind_inv b" "bind_ok x"
  shows "\<exists>b' os. bind_step x b = Some (b', os) \<and> bind_inv b' \<and>
    bind_takes x + bind_holds b = bind_gives os + bind_holds b'"
  using assms Open_inv CloseBind_inv Deliver_ok recv_ok
  by (cases x) (fastforce split: prod.splits)+

interpretation bind: conserving bind_step bind_ok bind_inv bind_holds bind_takes bind_gives
proof
  fix b x b' os
  assume inv: "bind_inv b" "bind_ok x"
  show "\<exists>b' os. bind_step x b = Some (b', os)"
    using bind_step_ok [OF inv] by blast
  assume "bind_step x b = Some (b', os)"
  then show "bind_inv b'" "bind_takes x + bind_holds b = bind_gives os + bind_holds b'"
    using bind_step_ok [OF inv] by auto
qed simp_all


text \<open>The order of the packets of one channel.\<close>

fun queued_in :: "nat \<Rightarrow> bind_out list \<Rightarrow> Inbound list" where
  "queued_in i [] = []"
| "queued_in i (Queued j x # os) = (if j = i then x # queued_in i os else queued_in i os)"
| "queued_in i (_ # os) = queued_in i os"

fun copied_from :: "nat \<Rightarrow> bind_out list \<Rightarrow> Inbound list" where
  "copied_from i [] = []"
| "copied_from i (Copied j x bs # os) = (if j = i then x # copied_from i os else copied_from i os)"
| "copied_from i (_ # os) = copied_from i os"

definition queue_of :: "nat \<Rightarrow> EngineBind \<Rightarrow> Inbound list" where
  "queue_of i b = (if i < length (chans b) then queue (chans b ! i) else [])"

lemma queued_in_append: "queued_in i (os @ os') = queued_in i os @ queued_in i os'"
  by (induction i os rule: queued_in.induct) simp_all

lemma copied_from_append: "copied_from i (os @ os') = copied_from i os @ copied_from i os'"
  by (induction i os rule: copied_from.induct) simp_all

lemma bind_step_fifo:
  assumes "bind_inv b" "bind_step x b = Some (b', os)"
  shows "queue_of i b @ queued_in i os = copied_from i os @ queue_of i b'"
proof (cases x)
  case BOpen
  then show ?thesis
    using assms by (auto simp: Open_def queue_of_def nth_append split: if_splits)
next
  case BClose
  then show ?thesis
    using assms by (auto simp: CloseBind_def bind_inv_def queue_of_def upd_chan_def nth_list_update
        split: option.splits if_splits)
next
  case (BDeliver pkt ep)
  then show ?thesis
    using assms by (auto simp: Deliver_def bind_inv_def queue_of_def upd_chan_def nth_list_update
        split: option.splits if_splits)
next
  case (BRecv j cap)
  then show ?thesis
    using assms by (auto simp: recv_def queue_of_def upd_chan_def nth_list_update
        split: list.splits if_splits bind_splits)
qed

lemma bind_run_fifo:
  assumes "bind_inv b" "list_all bind_ok xs" "run_ops bind_step xs b = Some (b', os)"
  shows "queue_of i b @ queued_in i os = copied_from i os @ queue_of i b'"
  using assms
proof (induction xs arbitrary: b os)
  case (Cons x xs)
  obtain b1 o1 o2 where s: "bind_step x b = Some (b1, o1)" "run_ops bind_step xs b1 = Some (b', o2)" "os = o1 @ o2"
    using Cons.prems(3) by (auto split: bind_splits)
  have "bind_inv b1"
    using bind.step_inv [OF Cons.prems(1) _ s(1)] Cons.prems(2) by simp
  from Cons.IH [OF this _ s(2)] Cons.prems(2)
  have "queue_of i b1 @ queued_in i o2 = copied_from i o2 @ queue_of i b'" by simp
  moreover have "queue_of i b @ queued_in i o1 = copied_from i o1 @ queue_of i b1"
    using bind_step_fifo [OF Cons.prems(1) s(1)] .
  ultimately show ?case
    by (simp add: s(3) queued_in_append copied_from_append) (metis append.assoc)
qed simp

section \<open>Properties\<close>

text \<open>
  C20. The bind towards WireGuard: for every sequence of opens, closes, deliveries of well-formed
  packets and receives, in any interleaving, no call panics (no send on a closed channel, no
  channel closed twice), every packet delivered is copied up, dropped or still queued, exactly
  once, the packets accepted on a channel are received from it in the order of acceptance, and
  no queue exceeds 1024 packets.
\<close>

theorem bind_fifo_conserves:
  assumes "list_all bind_ok xs"
  shows "\<exists>b os. run_ops bind_step xs NewEngineBind = Some (b, os) \<and>
    sum_list (map bind_takes xs) = bind_gives os + bind_holds b \<and>
    (\<forall>i. queued_in i os = copied_from i os @ queue_of i b \<and> length (queue_of i b) \<le> 1024)"
proof -
  have i: "bind_inv NewEngineBind" "bind_holds NewEngineBind = {#}" "\<And>i. queue_of i NewEngineBind = []"
    by (simp_all add: NewEngineBind_def bind_inv_def bind_holds_def queue_of_def)
  obtain b os where r: "run_ops bind_step xs NewEngineBind = Some (b, os)" "bind_inv b"
      "sum_list (map bind_takes xs) = bind_gives os + bind_holds b"
    using bind.run_conserves [OF i(1) assms] i(2) by auto
  moreover have "length (queue_of j b) \<le> 1024" for j
    using inv_chan [OF r(2), of j] by (simp add: queue_of_def chan_ok_def)
  ultimately show ?thesis
    using bind_run_fifo [OF i(1) assms r(1)] i(3) by auto
qed

theorem bind_fifo_conserves_witness:
  "\<exists>b os. run_ops bind_step [BOpen, BDeliver \<lparr>Slab = Some (3, [7, 8, 9]), Off = 1, Len = 2\<rparr> 5, BRecv 0 1500, BClose]
      NewEngineBind = Some (b, os) \<and>
    bind_gives os + bind_holds b = {#\<lparr>Slab = Some (3, [7, 8, 9]), Off = 1, Len = 2\<rparr>#}"
proof -
  have "list_all bind_ok [BOpen, BDeliver \<lparr>Slab = Some (3, [7, 8, 9]), Off = 1, Len = 2\<rparr> 5, BRecv 0 1500, BClose]"
    by (simp add: packet_ok_def)
  from bind_fifo_conserves [OF this] show ?thesis by auto
qed

text \<open>
  C21. The correlator recovers the class of every datagram from lengths alone: if WireGuard keeps
  the packets in order, discards fewer than eight between two datagrams and none of those has
  the padded length of the packet that follows, and at most 4096 packets are inside, then each
  datagram gets the class of the packet it encrypts and no miss is counted, for every
  interleaving of packets and datagrams.
\<close>

theorem correlator_assigns_own_class:
  assumes "wg_ok es []"
  shows "snd (corr_run es [] NewCorrelator) = wg_classes es [] \<and> miss (fst (corr_run es [] NewCorrelator)) = 0"
  using corr_run_classes [OF assms, of NewCorrelator] by (simp add: NewCorrelator_def entries_def)

theorem correlator_assigns_own_class_witness:
  "snd (corr_run [Enter 1 100, Enter 2 40, Enter 0 1300, Leave 1, Enter 1 20, Leave 0, Leave 0] [] NewCorrelator) = [2, 0, 1]"
proof -
  have "wg_ok [Enter 1 100, Enter 2 40, Enter 0 1300, Leave 1, Enter 1 20, Leave 0, Leave 0] []"
    by (simp add: ExpectedCtLen_eq)
  from correlator_assigns_own_class [OF this] show ?thesis by simp
qed

text \<open>
  C22. Once out of step the correlator stays out of step: while none of the first eight entries has
  the length of a datagram that leaves, every datagram is classified as bulk and the eight
  entries stay in front, whatever packets enter meanwhile and however many datagrams leave.
\<close>

theorem correlator_stays_out_of_step:
  assumes "8 \<le> length (fifo c)" "list_all (misses_head (take 8 (fifo c))) xs"
  shows "set (snd (corr_ops xs c)) \<subseteq> {ClassBulk} \<and> hits (fst (corr_ops xs c)) = hits c \<and>
    take 8 (fifo (fst (corr_ops xs c))) = take 8 (fifo c)"
  by (rule corr_ops_stuck [OF assms])

theorem correlator_stays_out_of_step_witness:
  "set (snd (corr_ops (concat (replicate 3 [Push_plain 1 100, Match 144]))
     (NewCorrelator\<lparr>fifo := replicate 8 \<lparr>eclass = 2, ctLen = 80\<rparr>\<rparr>))) \<subseteq> {ClassBulk}"
  using correlator_stays_out_of_step [of "NewCorrelator\<lparr>fifo := replicate 8 \<lparr>eclass = 2, ctLen = 80\<rparr>\<rparr>"
      "concat (replicate 3 [Push_plain 1 100, Match 144])"]
  by (simp add: numeral_3_eq_3 list_all_iff del: corr_ops.simps)

end
