(* ===== verification/Engine.thy ===== *)
theory Engine
  imports Control Reorder Paths Sched Fec Classify Bridge
begin

text \<open>
  Package \<^verbatim>\<open>internal/engine\<close>, files \<^verbatim>\<open>engine.go\<close> and \<^verbatim>\<open>client.go\<close>: the state of the engine and the
  client's handlers, each as one function from the state and what the machine supplies to the
  state after it. \<open>None\<close> is a panic. The goroutines of the engine interleave their calls, so that
  a run is a sequence of handler calls; a ticker loop is its body, called once per tick.

  What the program obtains from outside is an argument: \<open>lib\<close> holds the functions of the packages
  it links (BLAKE2s, Reed-Solomon) and the iteration order of Go maps, \<open>env\<close> what the machine
  answers during a call (clocks, random numbers, whether a socket accepts a datagram, old slab
  contents). Three fields of the state have no counterpart in the code and only record what it
  did: \<open>sent\<close>, the datagrams written to the sockets, \<open>next_loan\<close>, the number of slabs taken from
  the pool, and \<open>returned\<close>, the loans given back, in order. Names, addresses and log lines of a
  path are left out.
\<close>

section \<open>State\<close>

record lib =
  blake_of :: blake
  rs_enc :: rs_encode
  rs_rec :: rs_reconstruct
  group_ord :: visit_order

text \<open>
  \<open>us\<close> is a reading of the microsecond clock since the engine's start, \<open>us_at\<close> the readings when a
  call reads it several times;
  \<open>net\<close> tells whether the socket of a path accepts a datagram, \<open>dial_ok\<close> whether resolving and
  dialling a path succeeds.
\<close>

record env =
  now :: timestamp
  us :: u64
  us_at :: "nat \<Rightarrow> u64"
  dice :: f64
  dirty :: "nat \<Rightarrow> byte"
  net :: "nat \<Rightarrow> bytes \<Rightarrow> bool"
  dial_ok :: "nat \<Rightarrow> bool"

definition Unix :: "timestamp \<Rightarrow> u64" where
  "Unix t = of_int (t div Second)"

record fecTag =
  tag_on :: bool
  tag_group :: u32
  tag_index :: byte

definition noTag :: fecTag where "noTag = \<lparr>tag_on = False, tag_group = 0, tag_index = 0\<rparr>"

record Counters =
  TxPackets :: u64
  TxBytes :: u64
  RxPackets :: u64
  RxBytesC :: u64
  TxDropNoPath :: u64
  RxDropUnknown :: u64
  RxDropQueue :: u64
  RxDropMalformed :: u64
  AQMDrops :: u64

definition zeroCounters :: Counters where
  "zeroCounters = \<lparr>TxPackets = 0, TxBytes = 0, RxPackets = 0, RxBytesC = 0, TxDropNoPath = 0,
     RxDropUnknown = 0, RxDropQueue = 0, RxDropMalformed = 0, AQMDrops = 0\<rparr>"

record Path =
  pid :: byte
  conn :: bool
  pclosed :: bool
  pathSeq :: u32
  registered :: bool
  lastRxNano :: int
  lastHello :: int
  lastRedial :: int
  pLink :: link
  pRx :: rxstats

text \<open>A datagram written to the socket of a client path, or to an address by the server.\<close>

datatype net_out = Tx nat bytes | TxTo "Addr \<times> u16" bytes

record Engine =
  mac :: MAC
  bind :: EngineBind
  session :: u32
  clientID :: u64
  Stats :: Counters
  classifier :: "Classifier option"
  correlator :: Correlator
  rtSeq :: u32
  fecDisabled :: bool
  fecForce :: Params
  fecEnc :: "encoder option"
  fecDec :: "decoder option"
  paths :: "Path list"
  globalSeq :: u32
  wsched :: credits
  reorderBuf :: "Packet buffer"
  pending :: "bytes list"
  sent :: "net_out list"
  next_loan :: nat
  returned :: "loan list"

text \<open>The configuration: control key, session, client id, classifier rules (\<open>None\<close>: disabled), FEC.\<close>

definition NewClient :: "MAC \<Rightarrow> u32 \<Rightarrow> u64 \<Rightarrow> Rule list option \<Rightarrow> bool \<Rightarrow> Params \<Rightarrow> Engine" where
  "NewClient mc sess cid rs disabled force =
     \<lparr>mac = mc, bind = NewEngineBind, session = sess, clientID = cid, Stats = zeroCounters,
      classifier = map_option Classify.New rs, correlator = NewCorrelator, rtSeq = 0,
      fecDisabled = disabled, fecForce = force,
      fecEnc = (if disabled then None else Some (SetParams force NewEncoder)),
      fecDec = (if disabled then None else Some NewDecoder),
      paths = [], globalSeq = 0, wsched = NewWeighted, reorderBuf = Reorder.New, pending = [],
      sent = [], next_loan = 0, returned = []\<rparr>"

definition bump :: "(Counters \<Rightarrow> Counters) \<Rightarrow> 'x Engine_scheme \<Rightarrow> 'x Engine_scheme" where
  "bump f e = e\<lparr>Stats := f (Stats e)\<rparr>"

definition upd_path :: "nat \<Rightarrow> (Path \<Rightarrow> Path) \<Rightarrow> Engine \<Rightarrow> Engine" where
  "upd_path i f e = e\<lparr>paths := (paths e)[i := f (paths e ! i)]\<rparr>"

abbreviation upd_link :: "nat \<Rightarrow> (link \<Rightarrow> link) \<Rightarrow> Engine \<Rightarrow> Engine" where
  "upd_link i f \<equiv> upd_path i (\<lambda>p. p\<lparr>pLink := f (pLink p)\<rparr>)"

section \<open>Slabs and the way up to WireGuard\<close>

definition take_slab :: "'x Engine_scheme \<Rightarrow> 'x Engine_scheme \<times> loan" where
  "take_slab e = (e\<lparr>next_loan := next_loan e + 1\<rparr>, next_loan e)"

definition give_back :: "loan list \<Rightarrow> 'x Engine_scheme \<Rightarrow> 'x Engine_scheme" where
  "give_back ls e = e\<lparr>returned := returned e @ ls\<rparr>"

fun out_release :: "bind_out \<Rightarrow> loan list" where
  "out_release (Queued i x) = []"
| "out_release (Copied i x bs) = Release (Pkt x)"
| "out_release (Dropped pkt) = Release pkt"

text \<open>\<^verbatim>\<open>bind.Deliver\<close> with its failure counted, as both receive paths use it.\<close>

definition deliver_up :: "Packet \<Rightarrow> SessionEndpoint \<Rightarrow> 'x Engine_scheme \<Rightarrow> 'x Engine_scheme option" where
  "deliver_up pkt ep e = do {
     (b, os, ok) \<leftarrow> Bridge.Deliver pkt ep (bind e);
     let e = give_back (concat (map out_release os)) (e\<lparr>bind := b\<rparr>) in
     Some (if ok then e else bump (\<lambda>s. s\<lparr>RxDropQueue := RxDropQueue s + 1\<rparr>) e)
   }"

text \<open>The callbacks that \<^verbatim>\<open>newReorder\<close> gives to the buffer, run in the order of the calls.\<close>

fun run_outs :: "SessionEndpoint \<Rightarrow> Packet out list \<Rightarrow> 'x Engine_scheme \<Rightarrow> 'x Engine_scheme option" where
  "run_outs ep [] e = Some e"
| "run_outs ep (out.Deliver pkt _ # os) e = Option.bind (deliver_up pkt ep e) (run_outs ep os)"
| "run_outs ep (out.Drop pkt # os) e = run_outs ep os (give_back (Release pkt) e)"

definition push_up :: "timestamp \<Rightarrow> u32 \<Rightarrow> Packet \<Rightarrow> Engine \<Rightarrow> Engine option" where
  "push_up t seq pkt e =
     (let (b, os) = Push t seq pkt (reorderBuf e) in run_outs (session e) os (e\<lparr>reorderBuf := b\<rparr>))"

text \<open>A packet over the first \<open>length d\<close> bytes of a slab whose other bytes are old.\<close>

definition fill_slab :: "(nat \<Rightarrow> byte) \<Rightarrow> bytes \<Rightarrow> bytes" where
  "fill_slab old d = take SlabSize d @ drop (length d) (Get old)"

text \<open>The decoder's callback: each repaired packet is copied into a new slab and pushed.\<close>

fun push_recovered :: "env \<Rightarrow> (u32 \<times> bytes) list \<Rightarrow> Engine \<Rightarrow> Engine option" where
  "push_recovered en [] e = Some e"
| "push_recovered en ((seq, ct) # rs) e =
     (let (e, l) = take_slab e;
          pkt = \<lparr>Slab = Some (l, fill_slab (dirty en) ct), Off = 0, Len = min SlabSize (length ct)\<rparr>
      in Option.bind (push_up (now en) seq pkt e) (push_recovered en rs))"

section \<open>Classification of outbound traffic\<close>

text \<open>The hook of the TUN shim, when a classifier is configured.\<close>

definition Inspect :: "bytes \<Rightarrow> 'x Engine_scheme \<Rightarrow> 'x Engine_scheme option" where
  "Inspect pkt e =
     (case classifier e of
        None \<Rightarrow> Some e
      | Some c \<Rightarrow> do {
          (c, class) \<leftarrow> Classify pkt c;
          Some (e\<lparr>classifier := Some c, correlator := PushPlain class (int (length pkt)) (correlator e)\<rparr>)
        })"

definition classifyCt :: "bytes \<Rightarrow> 'x Engine_scheme \<Rightarrow> ('x Engine_scheme \<times> byte) option" where
  "classifyCt ct e =
     (if length ct < 4 then Some (e, ClassInteractive)
      else do {
        b0 \<leftarrow> idx ct 0;
        if b0 \<noteq> 4 then Some (e, ClassInteractive)
        else if length ct = 32 then Some (e, ClassInteractive)
        else (case classifier e of
          None \<Rightarrow> Some (e, ClassBulk)
        | Some _ \<Rightarrow>
            (let (c, class) = MatchCiphertext (int (length ct)) (correlator e)
             in Some (e\<lparr>correlator := c\<rparr>, class)))
      })"

section \<open>Paths\<close>

text \<open>\<^verbatim>\<open>Path.write\<close>, with whether it succeeded.\<close>

definition path_write :: "env \<Rightarrow> nat \<Rightarrow> bytes \<Rightarrow> Engine \<Rightarrow> Engine \<times> bool" where
  "path_write en i d e =
     (if \<not> conn (paths e ! i) then (e, False)
      else if net en i d then (e\<lparr>sent := sent e @ [Tx i d]\<rparr>, True)
      else (e, False))"

definition dial :: "env \<Rightarrow> nat \<Rightarrow> Engine \<Rightarrow> Engine \<times> bool" where
  "dial en i e =
     (if \<not> dial_ok en i then (e, False)
      else if pclosed (paths e ! i) then (e, False)
      else (upd_path i (\<lambda>p. p\<lparr>conn := True\<rparr>) e, True))"

definition path_close :: "Path \<Rightarrow> Path" where
  "path_close p = p\<lparr>pclosed := True, conn := False\<rparr>"

definition AddPath :: "env \<Rightarrow> Engine \<Rightarrow> Engine \<times> bool" where
  "AddPath en e =
     (let i = length (paths e);
          p = \<lparr>pid = of_nat i, conn = False, pclosed = False, pathSeq = 0, registered = False,
               lastRxNano = 0, lastHello = 0, lastRedial = now en, pLink = NewLink, pRx = NewRxStats\<rparr>
      in dial en i (e\<lparr>paths := paths e @ [p]\<rparr>))"

definition activePath :: "Engine \<Rightarrow> nat option" where
  "activePath e = List.find (\<lambda>i. registered (paths e ! i)) [0..<length (paths e)]"

definition sendablePaths :: "Engine \<Rightarrow> nat list" where
  "sendablePaths e =
     (let reg = filter (\<lambda>i. registered (paths e ! i)) [0..<length (paths e)];
          live = filter (\<lambda>i. up (pLink (paths e ! i))) reg
      in if live \<noteq> [] then live else reg)"

text \<open>The weighted choice among usable paths.\<close>

definition weighted_path :: "nat list \<Rightarrow> Engine \<Rightarrow> (Engine \<times> nat) option" where
  "weighted_path ps e =
     (if length ps = 1 then Some (e, ps ! 0)
      else do {
        (m, best) \<leftarrow> Pick (map (\<lambda>i. pid (paths e ! i)) ps) (map (\<lambda>i. Weight (pLink (paths e ! i))) ps) (wsched e);
        i \<leftarrow> (if best < 0 then None else idx ps (nat best));
        Some (e\<lparr>wsched := m\<rparr>, i)
      })"

section \<open>Sending\<close>

definition sent_ok :: "nat \<Rightarrow> 'x Engine_scheme \<Rightarrow> 'x Engine_scheme" where
  "sent_ok n = bump (\<lambda>s. s\<lparr>TxPackets := TxPackets s + 1, TxBytes := TxBytes s + of_nat n\<rparr>)"

definition data_header :: "Path \<Rightarrow> byte \<Rightarrow> bool \<Rightarrow> u32 \<Rightarrow> u32 \<Rightarrow> u32 \<Rightarrow> fecTag \<Rightarrow> DataHeader" where
  "data_header p class dup sess seq ts tag =
     (let fl = ClassFlags class;
          fl = (if dup then fl OR FlagDup else fl);
          fl = (if tag_on tag then fl OR FlagFECInfo else fl)
      in \<lparr>DHeader = \<lparr>Type = TypeData, Flags = fl, PathID = pid p, Epoch = 0\<rparr>, Session = sess,
          GlobalSeq = seq, PathSeq = pathSeq p + 1, TxTS = ts, FECGroup = tag_group tag, FECIndex = tag_index tag\<rparr>)"

definition sendDataOn :: "env \<Rightarrow> nat \<Rightarrow> byte \<Rightarrow> bool \<Rightarrow> u32 \<Rightarrow> u64 \<Rightarrow> fecTag \<Rightarrow> bytes \<Rightarrow> Engine \<Rightarrow> Engine option" where
  "sendDataOn en i class dup seq clock tag ct e = (
     let (e, l) = take_slab e;
         d = data_header (paths e ! i) class dup (session e) seq (ucast clock) tag;
         e = upd_path i (\<lambda>p. p\<lparr>pathSeq := pathSeq p + 1\<rparr>) e in do {
       (b, n) \<leftarrow> PutDataHeader (Get (dirty en)) d;
       if n + length ct > SlabSize
       then Some (give_back [l] (bump (\<lambda>s. s\<lparr>RxDropMalformed := RxDropMalformed s + 1\<rparr>) e))
       else (let (e, ok) = path_write en i (take n b @ ct) e in
         Some (give_back [l] (if ok then sent_ok (n + length ct) e else upd_link i MarkDown e)))
     })"

definition clientEmitParity :: "env \<Rightarrow> parity \<Rightarrow> Engine \<Rightarrow> Engine option" where
  "clientEmitParity en q e =
     (let ps = sendablePaths e in
      if ps = [] then Some e
      else do {
        (e, i) \<leftarrow> weighted_path ps e;
        let (e, l) = take_slab e;
            f = \<lparr>FHeader = \<lparr>Type = 0, Flags = 0, PathID = pid (paths e ! i), Epoch = 0\<rparr>, FSession = session e,
                 FGroup = p_group q, FIndex = p_index q, FK = p_k q, FM = p_m q,
                 ShardLen = of_nat (length (p_shard q))\<rparr> in do {
          (b, n) \<leftarrow> PutFECHeader (Get (dirty en)) f;
          if n + length (p_shard q) > SlabSize then Some (give_back [l] e)
          else (let (e, ok) = path_write en i (take n b @ p_shard q) e in
            Some (give_back [l] (if ok then sent_ok (n + length (p_shard q)) e else e)))
        }
      })"

fun emit_parity :: "env \<Rightarrow> parity list \<Rightarrow> Engine \<Rightarrow> Engine option" where
  "emit_parity en [] e = Some e"
| "emit_parity en (q # qs) e = Option.bind (clientEmitParity en q e) (emit_parity en qs)"

definition pendingCap :: nat where [simp]: "pendingCap = 64"

definition holdPending :: "bytes \<Rightarrow> Engine \<Rightarrow> Engine" where
  "holdPending ct e =
     (if length (pending e) \<ge> pendingCap then bump (\<lambda>s. s\<lparr>TxDropNoPath := TxDropNoPath s + 1\<rparr>) e
      else e\<lparr>pending := pending e @ [ct]\<rparr>)"

text \<open>The bulk part of \<^verbatim>\<open>clientSend\<close>: weighted choice, early drop, sequence number, FEC, send.\<close>

definition send_bulk :: "lib \<Rightarrow> env \<Rightarrow> nat list \<Rightarrow> bytes \<Rightarrow> Engine \<Rightarrow> Engine option" where
  "send_bulk lb en ps ct e = do {
     (e, i) \<leftarrow> weighted_path ps e;
     let prob = DropProb (pLink (paths e ! i)) in
     if prob > 0 \<and> dice en < prob then Some (bump (\<lambda>s. s\<lparr>AQMDrops := AQMDrops s + 1\<rparr>) e)
     else (let seq = globalSeq e + 1;
               e = e\<lparr>globalSeq := seq\<rparr> in
       case fecEnc e of
         None \<Rightarrow> sendDataOn en i ClassBulk False seq (us en) noTag ct e
       | Some enc \<Rightarrow>
           (let (enc, tg, qs) = Add (rs_enc lb) seq ct (now en) enc;
                tag = (case tg of None \<Rightarrow> noTag | Some (g, x) \<Rightarrow> \<lparr>tag_on = True, tag_group = g, tag_index = x\<rparr>) in do {
              e \<leftarrow> emit_parity en qs (e\<lparr>fecEnc := Some enc\<rparr>);
              sendDataOn en i ClassBulk False seq (us en) tag ct e
            }))
   }"

definition client_send_one :: "lib \<Rightarrow> env \<Rightarrow> bytes \<Rightarrow> Engine \<Rightarrow> Engine option" where
  "client_send_one lb en ct e =
     (let ps = sendablePaths e in
      if ps = [] then Some (holdPending ct e)
      else do {
        (e, class) \<leftarrow> classifyCt ct e;
        if length ps = 1 \<and> class \<noteq> ClassBulk
        then (let seq = rtSeq e + 1 in
          sendDataOn en (ps ! 0) class False seq (us en) noTag ct (e\<lparr>rtSeq := seq\<rparr>))
        else if class = ClassRealtime \<or> class = ClassInteractive then
          (let (first, second) = BestPair (map (\<lambda>i. Link.Snapshot (pLink (paths e ! i))) ps) in
           if first < 0 then send_bulk lb en ps ct e
           else (let seq = rtSeq e + 1 in do {
             i \<leftarrow> idx ps (nat first);
             e \<leftarrow> sendDataOn en i class False seq (us en) noTag ct (e\<lparr>rtSeq := seq\<rparr>);
             if class = ClassRealtime \<and> second \<ge> 0
             then do {
               j \<leftarrow> idx ps (nat second);
               sendDataOn en j class True seq (us_at en 1) noTag ct e
             }
             else Some e
           }))
        else send_bulk lb en ps ct e
      })"

text \<open>\<^verbatim>\<open>clientSend\<close> of a batch, each datagram with the answers of the machine during its turn.\<close>

fun clientSend :: "lib \<Rightarrow> (bytes \<times> env) list \<Rightarrow> Engine \<Rightarrow> Engine option" where
  "clientSend lb [] e = Some e"
| "clientSend lb ((ct, en) # bufs) e = Option.bind (client_send_one lb en ct e) (clientSend lb bufs)"

definition flushPending :: "lib \<Rightarrow> (nat \<Rightarrow> env) \<Rightarrow> Engine \<Rightarrow> Engine option" where
  "flushPending lb ens e =
     (let staged = pending e in
      if staged = [] then Some (e\<lparr>pending := []\<rparr>)
      else clientSend lb (zip staged (map ens [0..<length staged])) (e\<lparr>pending := []\<rparr>))"


section \<open>Receiving\<close>

definition rtt_of :: "u64 \<Rightarrow> ProbeAck \<Rightarrow> duration" where
  "rtt_of clock a =
     i64 (i64 (sint (clock - ATxTS a) * Microsecond) - i64 (int (unat (HoldUS a)) * Microsecond))"

text \<open>A DATA datagram in slab \<open>l\<close>, of which it fills the first \<open>n\<close> bytes.\<close>

definition client_data :: "lib \<Rightarrow> env \<Rightarrow> nat \<Rightarrow> loan \<Rightarrow> bytes \<Rightarrow> nat \<Rightarrow> bytes \<Rightarrow> Engine \<Rightarrow> Engine option" where
  "client_data lb en i l slab n dgram e = do {
     r \<leftarrow> ParseDataHeader dgram;
     case r of
       Inl _ \<Rightarrow> Some (give_back [l] (bump (\<lambda>s. s\<lparr>RxDropMalformed := RxDropMalformed s + 1\<rparr>) e))
     | Inr (d, pay) \<Rightarrow>
         if Session d \<noteq> session e
         then Some (give_back [l] (bump (\<lambda>s. s\<lparr>RxDropMalformed := RxDropMalformed s + 1\<rparr>) e))
         else (
           let e = upd_path i (\<lambda>p. p\<lparr>lastRxNano := now en,
                     pRx := OnData (PathSeq d) (int n) (ucast (us en) - TxTS d) (now en) (pRx p)\<rparr>) e;
               e = bump (\<lambda>s. s\<lparr>RxPackets := RxPackets s + 1, RxBytesC := RxBytesC s + of_nat n\<rparr>) e;
               pkt = \<lparr>Slab = Some (l, slab), Off = DataLen d, Len = length pay\<rparr> in
           if Class (DHeader d) = ClassBulk then do {
             e \<leftarrow> (case fecDec e of
                    Some dec \<Rightarrow>
                      if Flags (DHeader d) AND FlagFECInfo \<noteq> 0
                      then (let (dec, rs) = AddData (group_ord lb) (rs_rec lb) (FECGroup d) (FECIndex d) (GlobalSeq d) pay (now en) dec
                            in push_recovered en rs (e\<lparr>fecDec := Some dec\<rparr>))
                      else Some e
                  | None \<Rightarrow> Some e);
             push_up (now en) (GlobalSeq d) pkt e
           }
           else deliver_up pkt (session e) e)
   }"

definition client_fec :: "lib \<Rightarrow> env \<Rightarrow> nat \<Rightarrow> nat \<Rightarrow> bytes \<Rightarrow> Engine \<Rightarrow> Engine option" where
  "client_fec lb en i n dgram e = do {
     r \<leftarrow> ParseFEC dgram;
     case r of
       Inl _ \<Rightarrow> Some e
     | Inr (f, shard) \<Rightarrow>
         (case fecDec e of
            Some dec \<Rightarrow>
              if FSession f = session e
              then (let e = upd_path i (\<lambda>p. p\<lparr>lastRxNano := now en\<rparr>) e;
                        e = bump (\<lambda>s. s\<lparr>RxPackets := RxPackets s + 1, RxBytesC := RxBytesC s + of_nat n\<rparr>) e;
                        (dec, rs) = AddParity (group_ord lb) (rs_rec lb) (FGroup f) (FIndex f) (FK f) (FM f) shard (now en) dec
                    in push_recovered en rs (e\<lparr>fecDec := Some dec\<rparr>))
              else Some e
          | None \<Rightarrow> Some e)
   }"

definition client_probe :: "lib \<Rightarrow> env \<Rightarrow> nat \<Rightarrow> bytes \<Rightarrow> Engine \<Rightarrow> Engine option" where
  "client_probe lb en i dgram e = do {
     r \<leftarrow> ParseProbe (blake_of lb) dgram (mac e);
     case r of
       None \<Rightarrow> Some e
     | Some (hh, pr) \<Rightarrow>
         if PSession pr = session e then do {
           ack \<leftarrow> EncodeProbeAck (blake_of lb) \<lparr>Type = 0, Flags = 0, PathID = PathID hh, Epoch = 0\<rparr>
                    \<lparr>ASession = PSession pr, ASeq = PSeq pr, ATxTS = PTxTS pr, HoldUS = 0\<rparr> (mac e);
           Some (fst (path_write en i ack e))
         }
         else Some e
   }"

definition client_probe_ack :: "lib \<Rightarrow> env \<Rightarrow> nat \<Rightarrow> bytes \<Rightarrow> Engine \<Rightarrow> Engine option" where
  "client_probe_ack lb en i dgram e = do {
     r \<leftarrow> ParseProbeAck (blake_of lb) dgram (mac e);
     case r of
       None \<Rightarrow> Some e
     | Some (hh, a) \<Rightarrow>
         if ASession a = session e \<and> PathID hh = pid (paths e ! i)
         then Some (upd_path i (\<lambda>p. p\<lparr>pLink := fst (OnProbeAck (ASeq a) (rtt_of (us en) a) (pLink p)), lastRxNano := now en\<rparr>) e)
         else Some e
   }"

fun onClientCtrl :: "timestamp \<Rightarrow> PathStats list \<Rightarrow> Engine \<Rightarrow> Engine" where
  "onClientCtrl t [] e = e"
| "onClientCtrl t (ps # pss) e =
     onClientCtrl t pss
       (if unat (SPathID ps) < length (paths e)
        then upd_link (unat (SPathID ps)) (OnCtrl (Highest ps) (RxPkts ps) (RxBytes ps) (OwdMinUS ps) (OwdAvgUS ps) t) e
        else e)"

definition client_ctrl :: "lib \<Rightarrow> env \<Rightarrow> bytes \<Rightarrow> Engine \<Rightarrow> Engine option" where
  "client_ctrl lb en dgram e = do {
     r \<leftarrow> ParseCtrl (blake_of lb) dgram (mac e);
     case r of
       None \<Rightarrow> Some e
     | Some (_, c) \<Rightarrow> Some (if CSession c = session e then onClientCtrl (now en) (Control.Paths c) e else e)
   }"

definition client_hello_ack :: "lib \<Rightarrow> env \<Rightarrow> (nat \<Rightarrow> env) \<Rightarrow> nat \<Rightarrow> bytes \<Rightarrow> Engine \<Rightarrow> Engine option" where
  "client_hello_ack lb en ens i dgram e = do {
     r \<leftarrow> ParseHello (blake_of lb) dgram (mac e);
     case r of
       None \<Rightarrow> Some e
     | Some (hh, m) \<Rightarrow>
         if PathID hh = pid (paths e ! i) \<and> HSession m = session e \<and> ClientID m = clientID e \<and>
            FreshTS (UnixTS m) (Unix (now en))
         then (let old = registered (paths e ! i);
                   e = upd_path i (\<lambda>p. p\<lparr>registered := True\<rparr>) e in do {
           e \<leftarrow> (if \<not> old then flushPending lb ens e else Some e);
           Some (upd_path i (\<lambda>p. p\<lparr>lastRxNano := now en\<rparr>) e)
         })
         else Some e
   }"

definition handleClientDatagram :: "lib \<Rightarrow> env \<Rightarrow> (nat \<Rightarrow> env) \<Rightarrow> nat \<Rightarrow> loan \<Rightarrow> bytes \<Rightarrow> nat \<Rightarrow> Engine \<Rightarrow> Engine option" where
  "handleClientDatagram lb en ens i l slab n e = do {
     dgram \<leftarrow> slice slab 0 n;
     r \<leftarrow> ParseHeader dgram;
     case r of
       Inl _ \<Rightarrow> Some (give_back [l] (bump (\<lambda>s. s\<lparr>RxDropMalformed := RxDropMalformed s + 1\<rparr>) e))
     | Inr h \<Rightarrow>
         if Type h = TypeData then client_data lb en i l slab n dgram e
         else do {
           e \<leftarrow> (if Type h = TypeFEC then client_fec lb en i n dgram e
                else if Type h = TypeProbe then client_probe lb en i dgram e
                else if Type h = TypeProbeAck then client_probe_ack lb en i dgram e
                else if Type h = TypeCtrl then client_ctrl lb en dgram e
                else if Type h = TypeHelloAck then client_hello_ack lb en ens i dgram e
                else Some e);
           Some (give_back [l] e)
         }
   }"

text \<open>
  One turn of the receive loop: the socket of path \<open>i\<close> puts a datagram into a new slab, cut to
  the slab's size, or fails.
\<close>

definition clientRx :: "lib \<Rightarrow> env \<Rightarrow> (nat \<Rightarrow> env) \<Rightarrow> nat \<Rightarrow> bytes option \<Rightarrow> Engine \<Rightarrow> Engine option" where
  "clientRx lb en ens i dgram e =
     (if \<not> conn (paths e ! i) then Some e
      else (let (e, l) = take_slab e in
        case dgram of
          None \<Rightarrow> Some (give_back [l] e)
        | Some d \<Rightarrow> handleClientDatagram lb en ens i l (fill_slab (dirty en) d) (min SlabSize (length d)) e))"

section \<open>Ticker loops\<close>

definition helloRetry :: duration where "helloRetry = 1 * Second"
definition helloRefresh :: duration where "helloRefresh = 15 * Second"
definition ctrlBusy :: duration where "ctrlBusy = 50 * Millisecond"
definition ctrlIdle :: duration where "ctrlIdle = 250 * Millisecond"
definition holdRetune :: duration where "holdRetune = 250 * Millisecond"
definition fecRetune :: duration where "fecRetune = 1 * Second"
definition redialEvery :: duration where "redialEvery = 2 * Second"

definition hello_path :: "lib \<Rightarrow> env \<Rightarrow> nat \<Rightarrow> Engine \<Rightarrow> Engine option" where
  "hello_path lb en i e =
     (let refresh = (if \<not> registered (paths e ! i) then helloRetry else helloRefresh) in
      if i64 (now en - lastHello (paths e ! i)) < refresh then Some e
      else (let e = upd_path i (\<lambda>p. p\<lparr>lastHello := now en\<rparr>) e in do {
        d \<leftarrow> EncodeHello (blake_of lb) \<lparr>Type = 0, Flags = 0, PathID = pid (paths e ! i), Epoch = 0\<rparr>
               \<lparr>HSession = session e, ClientID = clientID e, Features = 0, UnixTS = Unix (now en)\<rparr> (mac e) False;
        Some (fst (path_write en i d e))
      }))"

fun each_path :: "(nat \<Rightarrow> Engine \<Rightarrow> Engine option) \<Rightarrow> nat list \<Rightarrow> Engine \<Rightarrow> Engine option" where
  "each_path f [] e = Some e"
| "each_path f (i # is') e = Option.bind (f i e) (each_path f is')"

definition hello_tick :: "lib \<Rightarrow> env \<Rightarrow> Engine \<Rightarrow> Engine option" where
  "hello_tick lb en e = each_path (hello_path lb en) [0..<length (paths e)] e"

definition probe_path :: "lib \<Rightarrow> env \<Rightarrow> int \<Rightarrow> nat \<Rightarrow> Engine \<Rightarrow> Engine option" where
  "probe_path lb en tick i e =
     (let due = i64 (now en - lastRedial (paths e ! i)) > redialEvery in
      if \<not> registered (paths e ! i) then
        Some (if due then fst (dial en i (upd_path i (\<lambda>p. p\<lparr>lastRedial := now en\<rparr>) e)) else e)
      else if \<not> up (pLink (paths e ! i)) \<and> remq tick 5 \<noteq> 0 then Some e
      else (let (l, seq, wentDown) = OnProbeSent (now en) (pLink (paths e ! i));
                e = upd_link i (\<lambda>_. l) e in do {
        d \<leftarrow> EncodeProbe (blake_of lb) \<lparr>Type = 0, Flags = 0, PathID = pid (paths e ! i), Epoch = 0\<rparr>
               \<lparr>PSession = session e, PSeq = seq, PTxTS = us_at en i\<rparr> (mac e);
        let (e, ok) = path_write en i d e in
        Some (if ok then e
          else (let e = upd_link i MarkDown e in
            if due then
              (let (e, fresh) = dial en i (upd_path i (\<lambda>p. p\<lparr>lastRedial := now en\<rparr>) e)
               in if fresh then upd_path i (\<lambda>p. p\<lparr>registered := False, lastHello := 0\<rparr>) e else e)
            else e))
      }))"

definition probe_tick :: "lib \<Rightarrow> env \<Rightarrow> int \<Rightarrow> Engine \<Rightarrow> Engine option" where
  "probe_tick lb en tick e = each_path (probe_path lb en tick) [0..<length (paths e)] e"

definition retuneFEC :: "Params \<Rightarrow> LinkSnapshot list \<Rightarrow> encoder option \<Rightarrow> encoder option" where
  "retuneFEC force snaps enc =
     map_option (SetParams (if K force = 0 then PickParams (WeightedLoss snaps) else force)) enc"

definition ctrl_scan :: "(int \<times> duration) \<Rightarrow> nat \<times> Path \<Rightarrow> int \<times> duration" where
  "ctrl_scan = (\<lambda>(best, bestSRTT) (i, p).
     if \<not> registered p then (best, bestSRTT)
     else (let s = Link.Snapshot (pLink p) in
       if \<not> Up s then (best, bestSRTT)
       else if best = -1 \<or> (SRTT s > 0 \<and> SRTT s < bestSRTT) then (int i, SRTT s) else (best, bestSRTT)))"

definition bestCtrlPath :: "Path list \<Rightarrow> nat option" where
  "bestCtrlPath ps =
     (let (best, _) = foldl ctrl_scan (-1, 0) (enumerate 0 ps) in
      if best \<noteq> -1 then Some (nat best)
      else List.find (\<lambda>i. registered (ps ! i)) [0..<length ps])"

record ctrl_vars =
  lastSent :: timestamp
  lastRxPktsV :: u64
  lastRetune :: timestamp
  lastFEC :: timestamp

definition path_stats :: "Path \<Rightarrow> rx_report \<Rightarrow> PathStats" where
  "path_stats p r = \<lparr>SPathID = pid p, Highest = rep_highest r, RxPkts = rep_pkts r, RxBytes = rep_bytes r,
     OwdMinUS = rep_owdMin r, OwdAvgUS = rep_owdAvg r\<rparr>"

definition report_all :: "Path list \<Rightarrow> Path list \<times> PathStats list" where
  "report_all ps = (map (\<lambda>p. p\<lparr>pRx := fst (Report (pRx p))\<rparr>) ps,
     List.map_filter (\<lambda>p. map_option (path_stats p) (snd (Report (pRx p)))) ps)"

definition retune_hold :: "env \<Rightarrow> Engine \<Rightarrow> Engine" where
  "retune_hold en e =
     (let h = ComputeHold (List.map_filter (\<lambda>p. OwdView (now en) (3 * Second) (pRx p)) (paths e))
      in if h > 0 then e\<lparr>reorderBuf := SetHold h (reorderBuf e)\<rparr> else e)"

definition ctrl_tick :: "lib \<Rightarrow> env \<Rightarrow> ctrl_vars \<Rightarrow> Engine \<Rightarrow> (ctrl_vars \<times> Engine) option" where
  "ctrl_tick lb en v e =
     (let rxp = RxPackets (Stats e) in
      if rxp = lastRxPktsV v \<and> time_sub (now en) (lastSent v) < ctrlIdle then Some (v, e)
      else (
        let v = v\<lparr>lastRxPktsV := rxp\<rparr>;
            (ps, recs) = report_all (paths e);
            e = e\<lparr>paths := ps\<rparr> in
        if recs = [] then Some (v, e)
        else (case bestCtrlPath (paths e) of
          None \<Rightarrow> Some (v, e)
        | Some best \<Rightarrow> do {
            d \<leftarrow> EncodeCtrl (blake_of lb) \<lparr>Type = 0, Flags = 0, PathID = pid (paths e ! best), Epoch = 0\<rparr>
                   \<lparr>CSession = session e, Paths = recs\<rparr> (mac e);
            let e = fst (path_write en best d e);
                v = v\<lparr>lastSent := now en\<rparr>;
                (v, e) = (if time_sub (now en) (lastRetune v) \<ge> holdRetune
                          then (v\<lparr>lastRetune := now en\<rparr>, retune_hold en e) else (v, e));
                (v, e) = (if time_sub (now en) (lastFEC v) \<ge> fecRetune
                          then (v\<lparr>lastFEC := now en\<rparr>,
                                e\<lparr>fecEnc := retuneFEC (fecForce e) (map (\<lambda>p. Link.Snapshot (pLink p)) (paths e)) (fecEnc e)\<rparr>)
                          else (v, e)) in
            Some (v, e)
          })))"

definition fec_flush_tick :: "lib \<Rightarrow> env \<Rightarrow> Engine \<Rightarrow> Engine option" where
  "fec_flush_tick lb en e =
     (case fecEnc e of
        None \<Rightarrow> Some e
      | Some enc \<Rightarrow>
          (let (enc, qs) = Flush (rs_enc lb) (now en) enc in emit_parity en qs (e\<lparr>fecEnc := Some enc\<rparr>)))"

definition bye_path :: "lib \<Rightarrow> env \<Rightarrow> nat \<Rightarrow> Engine \<Rightarrow> Engine option" where
  "bye_path lb en i e =
     (if registered (paths e ! i) then do {
        d \<leftarrow> EncodeBye (blake_of lb) \<lparr>Type = 0, Flags = 0, PathID = pid (paths e ! i), Epoch = 0\<rparr>
               \<lparr>BSession = session e, BUnixTS = Unix (now en)\<rparr> (mac e);
        Some (fst (path_write en i d e))
      }
      else Some e)"

definition sendByes :: "lib \<Rightarrow> env \<Rightarrow> Engine \<Rightarrow> Engine option" where
  "sendByes lb en e = each_path (bye_path lb en) [0..<length (paths e)] e"

definition CloseClient :: "lib \<Rightarrow> env \<Rightarrow> Engine \<Rightarrow> Engine option" where
  "CloseClient lb en e = do {
     e \<leftarrow> sendByes lb en e;
     let e = e\<lparr>paths := map path_close (paths e)\<rparr>;
         (b, os) = Reorder.Close (reorderBuf e) in
     run_outs (session e) os (e\<lparr>reorderBuf := b\<rparr>)
   }"

text \<open>The hold timer of the reorder buffer, and WireGuard's calls of the bind.\<close>

definition hold_timer :: "env \<Rightarrow> Engine \<Rightarrow> Engine option" where
  "hold_timer en e = do {
     (b, os) \<leftarrow> onTimer (now en) (reorderBuf e);
     run_outs (session e) os (e\<lparr>reorderBuf := b\<rparr>)
   }"

definition wg_recv :: "nat \<Rightarrow> nat \<Rightarrow> 'x Engine_scheme \<Rightarrow> ('x Engine_scheme \<times> recv_result) option" where
  "wg_recv ch cap e =
     (if ch < length (chans (bind e)) then do {
        (b, os, r) \<leftarrow> recv ch cap (bind e);
        Some (give_back (concat (map out_release os)) (e\<lparr>bind := b\<rparr>), r)
      }
      else Some (e, Blocked))"

end
