(* ===== verification/ClientSafety.thy ===== *)
theory ClientSafety
  imports Engine
begin

text \<open>
  No handler of the client panics, and no slab is lost or given back twice: the loans taken from
  the pool are those given back, those of the packets in the reorder buffer and in the bind's
  queues, and those the running handler still has in its hands.
\<close>

section \<open>Loans\<close>

definition loans_of :: "Packet multiset \<Rightarrow> loan multiset" where
  "loans_of ps = \<Sum>\<^sub># (image_mset (\<lambda>p. mset (Release p)) ps)"

lemma loans_of_simps [simp]:
  "loans_of {#} = {#}" "loans_of (add_mset p ps) = mset (Release p) + loans_of ps"
  "loans_of (ps + qs) = loans_of ps + loans_of qs"
  by (simp_all add: loans_of_def)

text \<open>The books balance with \<open>X\<close> held outside the bind.\<close>

definition balanced :: "loan multiset \<Rightarrow> 'x Engine_scheme \<Rightarrow> bool" where
  "balanced X e \<longleftrightarrow> bind_inv (bind e) \<and>
     mset [0..<next_loan e] = mset (returned e) + loans_of (bind_holds (bind e)) + X"

lemma balanced_take: "balanced X e \<Longrightarrow> balanced (add_mset (next_loan e) X) (e\<lparr>next_loan := next_loan e + 1\<rparr>)"
  by (simp add: balanced_def)

lemma balanced_give: "balanced (mset ls + X) e \<Longrightarrow> balanced X (give_back ls e)"
  by (simp add: balanced_def give_back_def ac_simps)

text \<open>What the way up to WireGuard may change.\<close>

definition only_up :: "'x Engine_scheme \<Rightarrow> 'x Engine_scheme \<Rightarrow> bool" where
  "only_up e e' \<longleftrightarrow> e' = e\<lparr>bind := bind e', Stats := Stats e', returned := returned e'\<rparr>"

lemma only_up_refl [simp]: "only_up e e"
  by (simp add: only_up_def)

lemma only_up_trans: "only_up e e' \<Longrightarrow> only_up e' e'' \<Longrightarrow> only_up e e''"
  by (cases e, cases e', cases e'') (simp add: only_up_def)

lemma only_up_fields:
  "only_up e e' \<Longrightarrow> reorderBuf e' = reorderBuf e \<and> pending e' = pending e \<and> paths e' = paths e \<and>
     session e' = session e \<and> mac e' = mac e \<and> classifier e' = classifier e \<and> Engine.Engine.more e' = Engine.Engine.more e"
  by (cases e, cases e') (simp add: only_up_def)

lemma only_up_give [simp]: "only_up e (give_back ls e)"
  by (simp add: only_up_def give_back_def)

lemma bump_frame [simp]: "balanced X (bump f e) = balanced X e" "only_up e (bump f e') = only_up e e'"
  by (cases e, cases e', simp add: balanced_def only_up_def bump_def)+

lemma out_release_gives: "mset (concat (map out_release os)) = loans_of (bind_gives os)"
proof (induction os)
  case (Cons x os)
  then show ?case by (cases x) (simp_all add: ac_simps)
qed simp

lemma deliver_up_ok:
  assumes "balanced (mset (Release pkt) + X) e" "packet_ok pkt"
  shows "\<exists>e'. deliver_up pkt ep e = Some e' \<and> balanced X e' \<and> only_up e e'"
proof -
  obtain b os r where d: "Bridge.Deliver pkt ep (bind e) = Some (b, os, r)" "bind_inv b"
      "add_mset pkt (bind_holds (bind e)) = bind_gives os + bind_holds b"
    using Deliver_ok [OF _ assms(2), of "bind e" ep] assms(1) by (auto simp: balanced_def)
  let ?e = "give_back (concat (map out_release os)) (e\<lparr>bind := b\<rparr>)"
  have "mset (Release pkt) + loans_of (bind_holds (bind e)) = loans_of (bind_gives os) + loans_of (bind_holds b)"
    using arg_cong [OF d(3), of loans_of] by simp
  then have "balanced X ?e"
    using assms(1) d(2) by (intro balanced_give) (simp add: balanced_def out_release_gives ac_simps)
  moreover have "only_up e ?e"
    by (cases e) (simp add: only_up_def give_back_def)
  ultimately show ?thesis
    using d(1) by (simp add: deliver_up_def Let_def)
qed

lemma run_outs_ok:
  assumes "balanced (loans_of (out_vals os) + X) e" "\<forall>p \<in># out_vals os. packet_ok p"
  shows "\<exists>e'. run_outs ep os e = Some e' \<and> balanced X e' \<and> only_up e e'"
  using assms
proof (induction ep os e rule: run_outs.induct)
  case (2 ep pkt l os e)
  then obtain e1 where e1: "deliver_up pkt ep e = Some e1" "balanced (loans_of (out_vals os) + X) e1" "only_up e e1"
    using deliver_up_ok [of pkt "loans_of (out_vals os) + X" e ep] by (auto simp: ac_simps)
  with "2.IH" [of e1] "2.prems"(2) show ?case
    by (auto intro: only_up_trans)
next
  case (3 ep pkt os e)
  have "balanced (loans_of (out_vals os) + X) (give_back (Release pkt) e)"
    using 3 by (intro balanced_give) (simp add: ac_simps)
  with "3.IH" "3.prems"(2) show ?case
    by (fastforce intro: only_up_trans [OF only_up_give])
qed simp

section \<open>The invariant of the client\<close>

text \<open>The packet counters of the classifier stay below the number of packets inspected.\<close>

definition flows_below :: "nat \<Rightarrow> Classifier \<Rightarrow> bool" where
  "flows_below n c \<longleftrightarrow> (\<forall>k f. Mapping.lookup (flows c) k = Some f \<longrightarrow> unat (pkts f) \<le> n)"

definition inspected_below :: "nat \<Rightarrow> 'x Engine_scheme \<Rightarrow> bool" where
  "inspected_below n e \<longleftrightarrow> (\<forall>c. classifier e = Some c \<longrightarrow> flows_below n c)"

definition client_inv :: "nat \<Rightarrow> loan multiset \<Rightarrow> Engine \<Rightarrow> bool" where
  "client_inv insp X e \<longleftrightarrow> reorder_inv (reorderBuf e) \<and> (\<forall>p \<in># held (reorderBuf e). packet_ok p) \<and>
     length (pending e) \<le> 64 \<and> inspected_below insp e \<and> balanced (loans_of (held (reorderBuf e)) + X) e"

text \<open>A call that returns, in a state with the invariant and as many paths as before.\<close>

definition returns :: "nat \<Rightarrow> loan multiset \<Rightarrow> nat \<Rightarrow> Engine option \<Rightarrow> bool" where
  "returns insp X k r \<longleftrightarrow> (\<exists>e. r = Some e \<and> client_inv insp X e \<and> length (paths e) = k)"

lemma returnsI [intro!]: "client_inv insp X e \<Longrightarrow> length (paths e) = k \<Longrightarrow> returns insp X k (Some e)"
  by (simp add: returns_def)

lemma returns_bind:
  "returns insp X k r \<Longrightarrow> (\<And>e. client_inv insp X e \<Longrightarrow> returns insp Y (length (paths e)) (f e)) \<Longrightarrow>
   returns insp Y k (Option.bind r f)"
  by (auto simp: returns_def)

text \<open>Fields outside the invariant.\<close>

lemma client_inv_frame [simp]:
  "client_inv insp X (bump f e) = client_inv insp X e"
  "client_inv insp X (upd_path i g e) = client_inv insp X e"
  "client_inv insp X (e\<lparr>sent := ss\<rparr>) = client_inv insp X e"
  "client_inv insp X (e\<lparr>paths := ps\<rparr>) = client_inv insp X e"
  "client_inv insp X (e\<lparr>wsched := m\<rparr>) = client_inv insp X e"
  "client_inv insp X (e\<lparr>globalSeq := n\<rparr>) = client_inv insp X e"
  "client_inv insp X (e\<lparr>rtSeq := n\<rparr>) = client_inv insp X e"
  "client_inv insp X (e\<lparr>fecEnc := enc\<rparr>) = client_inv insp X e"
  "client_inv insp X (e\<lparr>fecDec := dec\<rparr>) = client_inv insp X e"
  "client_inv insp X (e\<lparr>correlator := co\<rparr>) = client_inv insp X e"
  by (simp_all add: client_inv_def balanced_def inspected_below_def bump_def upd_path_def)

lemma paths_frame [simp]:
  "paths (bump f e) = paths e" "length (paths (upd_path i g e)) = length (paths e)"
  "paths (give_back ls e) = paths e"
  by (simp_all add: bump_def upd_path_def give_back_def)

lemma inv_take: "client_inv insp X e \<Longrightarrow> take_slab e = (e', l) \<Longrightarrow>
    client_inv insp (add_mset l X) e' \<and> paths e' = paths e \<and> session e' = session e"
  by (auto simp: take_slab_def client_inv_def inspected_below_def dest: balanced_take)

lemma inv_give: "client_inv insp (mset ls + X) e \<Longrightarrow> client_inv insp X (give_back ls e)"
  using balanced_give [of ls "loans_of (held (reorderBuf e)) + X" e]
  by (simp add: client_inv_def inspected_below_def give_back_def ac_simps)

lemma inv_give_one: "client_inv insp (add_mset l X) e \<Longrightarrow> client_inv insp X (give_back [l] e)"
  by (rule inv_give) simp

text \<open>An operation of the reorder buffer followed by its callbacks.\<close>

lemma reorder_call:
  assumes inv: "client_inv insp (loans_of V + X) e" and st: "step_ok V (reorderBuf e) b os"
    and V: "\<forall>p \<in># V. packet_ok p"
  shows "returns insp X (length (paths e)) (run_outs ep os (e\<lparr>reorderBuf := b\<rparr>))"
proof -
  have b: "reorder_inv b" "V + held (reorderBuf e) = out_vals os + held b"
    using st by (simp_all add: step_ok_def)
  then have "\<forall>p \<in># out_vals os + held b. packet_ok p"
    using inv V by (metis client_inv_def union_iff)
  moreover have "loans_of (held (reorderBuf e)) + loans_of V = loans_of (out_vals os) + loans_of (held b)"
    using arg_cong [OF b(2), of loans_of] by (simp add: ac_simps)
  then have "balanced (loans_of (out_vals os) + (loans_of (held b) + X)) (e\<lparr>reorderBuf := b\<rparr>)"
    using inv by (simp add: client_inv_def balanced_def ac_simps)
  ultimately obtain e' where e': "run_outs ep os (e\<lparr>reorderBuf := b\<rparr>) = Some e'"
      "balanced (loans_of (held b) + X) e'" "only_up (e\<lparr>reorderBuf := b\<rparr>) e'"
    using run_outs_ok by (metis union_iff)
  have f: "reorderBuf e' = b" "pending e' = pending e" "paths e' = paths e" "classifier e' = classifier e"
    using only_up_fields [OF e'(3)] by simp_all
  show ?thesis
    using e' b(1) inv \<open>\<forall>p \<in># out_vals os + held b. packet_ok p\<close>
    by (auto simp: returns_def client_inv_def inspected_below_def f)
qed


lemma push_up_ok:
  assumes "client_inv insp (mset (Release pkt) + X) e" "packet_ok pkt"
  shows "returns insp X (length (paths e)) (push_up t seq pkt e)"
proof -
  obtain b os where p: "Push t seq pkt (reorderBuf e) = (b, os)" by fastforce
  have "step_ok {#pkt#} (reorderBuf e) b os"
    using Push_ok(1) [OF _ p] assms(1) by (simp add: client_inv_def)
  with reorder_call [of insp "{#pkt#}" X e b os "session e"] assms p show ?thesis
    by (simp add: push_up_def)
qed

lemma length_Get [simp]: "length (Get old) = 2048"
  by (simp add: Get_def)

lemma length_fill_slab [simp]: "length (fill_slab old d) = 2048"
  by (simp add: fill_slab_def)

lemma push_recovered_ok:
  "client_inv insp X e \<Longrightarrow> returns insp X (length (paths e)) (push_recovered en rs e)"
proof (induction rs arbitrary: e)
  case (Cons r rs)
  obtain seq ct where r: "r = (seq, ct)" by (cases r)
  let ?e = "e\<lparr>next_loan := next_loan e + 1\<rparr>"
  let ?pkt = "\<lparr>Slab = Some (next_loan e, fill_slab (dirty en) ct), Off = 0, Len = min SlabSize (length ct)\<rparr>"
  have "client_inv insp (mset (Release ?pkt) + X) ?e"
    using inv_take [OF Cons.prems] by (simp add: take_slab_def Release_def)
  then have "returns insp X (length (paths e)) (push_up (now en) seq ?pkt ?e)"
    using push_up_ok [of insp ?pkt X ?e "now en" seq] by (simp add: packet_ok_def)
  then have "returns insp X (length (paths e)) (Option.bind (push_up (now en) seq ?pkt ?e) (push_recovered en rs))"
    using Cons.IH by (rule returns_bind)
  then show ?case
    by (simp add: r take_slab_def)
qed auto

section \<open>Sending\<close>

lemma path_write_frame:
  "path_write en i d e = (e', ok) \<Longrightarrow> client_inv insp X e' = client_inv insp X e \<and> paths e' = paths e"
  by (auto simp: path_write_def split: if_splits)

lemma sendable_range: "i \<in> set (sendablePaths e) \<Longrightarrow> i < length (paths e) \<and> registered (paths e ! i)"
  by (auto simp: sendablePaths_def Let_def split: if_splits)

lemma pick_scan_range:
  "pick_scan i ps m (b, c) = (m', b', c') \<Longrightarrow> ps \<noteq> [] \<or> b \<noteq> -1 \<Longrightarrow> -1 \<le> b \<Longrightarrow> b < int i \<Longrightarrow>
   0 \<le> b' \<and> b' < int (i + length ps)"
proof (induction ps arbitrary: i m b c)
  case (Cons p ps)
  obtain pid sh where p: "p = (pid, sh)" by (cases p)
  show ?case
    using Cons.IH [of "Suc i"] Cons.prems by (fastforce simp: p Let_def split: if_splits)
qed auto

lemma Pick_range:
  assumes "length ws = length ids" "2 \<le> length ids"
  shows "\<exists>m' best. Pick ids ws m = Some (m', best) \<and> 0 \<le> best \<and> best < int (length ids)"
proof -
  let ?m = "if Mapping.size m > length ids * 2 then Mapping.empty else m"
  let ?ps = "zip ids (shares (length ids) ws)"
  obtain m1 b c where r: "pick_scan 0 ?ps ?m (-1, 0) = (m1, b, c)" by (metis prod_cases3)
  have "length (shares (length ids) ws) = length ids"
    by (simp add: shares_def floored_shares_def raw_shares_def Let_def assms)
  then have l: "length ?ps = length ids" by simp
  then have "?ps \<noteq> []" using assms(2) by auto
  then have "0 \<le> b \<and> b < int (length ids)"
    using pick_scan_range [OF r] l by simp
  then show ?thesis
    using assms r by (auto simp: Pick_def Let_def)
qed

lemma weighted_path_ok:
  assumes "ps \<noteq> []"
  shows "\<exists>m i. weighted_path ps e = Some (e\<lparr>wsched := m\<rparr>, i) \<and> i \<in> set ps"
proof (cases "length ps = 1")
  case True
  then show ?thesis by (intro exI [of _ "wsched e"] exI [of _ "ps ! 0"]) (simp add: weighted_path_def)
next
  case False
  then have "2 \<le> length ps" using assms by (cases ps; cases "tl ps") auto
  then show ?thesis
    using Pick_range [of "map (\<lambda>i. Weight (pLink (paths e ! i))) ps" "map (\<lambda>i. pid (paths e ! i)) ps" "wsched e"] False
    by (auto simp: weighted_path_def idx_def nat_less_iff)
qed

lemma DataLen_le: "DataLen d \<le> 24"
  by (simp add: DataLen_def)

lemma sendDataOn_ok:
  assumes "client_inv insp X e"
  shows "returns insp X (length (paths e)) (sendDataOn en i class dup seq clock tag ct e)"
proof -
  obtain e1 l where t: "take_slab e = (e1, l)" by fastforce
  let ?d = "data_header (paths e ! i) class dup (session e) seq (ucast clock) tag"
  let ?e = "upd_path i (\<lambda>p. p\<lparr>pathSeq := pathSeq p + 1\<rparr>) e1"
  note k = inv_take [OF assms t]
  have put: "PutDataHeader (Get (dirty en)) ?d = Some (data_layout ?d @ drop (DataLen ?d) (Get (dirty en)), DataLen ?d)"
    using DataLen_le [of ?d] by (intro PutDataHeader_layout) simp
  obtain e2 ok where w: "path_write en i (data_layout ?d @ ct) ?e = (e2, ok)"
    by fastforce
  show ?thesis
    using k path_write_frame [OF w, of insp "add_mset l X"]
    by (auto simp: sendDataOn_def Let_def t put w sent_ok_def intro!: inv_give_one)
qed

lemma clientEmitParity_ok:
  assumes "client_inv insp X e"
  shows "returns insp X (length (paths e)) (clientEmitParity en q e)"
proof (cases "sendablePaths e = []")
  case False
  obtain m i where w: "weighted_path (sendablePaths e) e = Some (e\<lparr>wsched := m\<rparr>, i)"
    using weighted_path_ok [OF False] by blast
  obtain e1 l where t: "take_slab (e\<lparr>wsched := m\<rparr>) = (e1, l)" by fastforce
  have k: "client_inv insp (add_mset l X) e1" "paths e1 = paths e"
    using inv_take [of insp X "e\<lparr>wsched := m\<rparr>", OF _ t] assms by simp_all
  let ?f = "\<lparr>FHeader = \<lparr>Type = 0, Flags = 0, PathID = pid (paths e ! i), Epoch = 0\<rparr>, FSession = session e1,
                 FGroup = p_group q, FIndex = p_index q, FK = p_k q, FM = p_m q,
                 ShardLen = of_nat (length (p_shard q))\<rparr>"
  obtain b where put: "PutFECHeader (Get (dirty en)) ?f = Some (b, 16)"
    using PutFECHeader_layout [of "Get (dirty en)" ?f] by simp
  obtain e2 ok where x: "path_write en i (take 16 b @ p_shard q) e1 = (e2, ok)" by fastforce
  show ?thesis
    using k path_write_frame [OF x, of insp "add_mset l X"] False
    by (auto simp: clientEmitParity_def Let_def w t put x sent_ok_def intro!: inv_give_one)
qed (use assms in \<open>auto simp: clientEmitParity_def\<close>)

lemma emit_parity_ok: "client_inv insp X e \<Longrightarrow> returns insp X (length (paths e)) (emit_parity en qs e)"
proof (induction qs arbitrary: e)
  case (Cons q qs)
  show ?case
    using returns_bind [OF clientEmitParity_ok [OF Cons.prems] Cons.IH] by simp
qed auto

lemma send_bulk_ok:
  assumes "client_inv insp X e" "ps \<noteq> []"
  shows "returns insp X (length (paths e)) (send_bulk lb en ps ct e)"
proof -
  obtain m i where w: "weighted_path ps e = Some (e\<lparr>wsched := m\<rparr>, i)"
    using weighted_path_ok [OF assms(2)] by blast
  let ?e = "e\<lparr>wsched := m, globalSeq := globalSeq e + 1\<rparr>"
  have p: "returns insp X (length (paths e)) (Option.bind (emit_parity en qs (?e\<lparr>fecEnc := Some enc\<rparr>))
      (sendDataOn en i ClassBulk False (globalSeq e + 1) (us en) tag ct))" for qs enc tag
    using emit_parity_ok [of insp X "?e\<lparr>fecEnc := Some enc\<rparr>" en qs] assms(1)
    by (intro returns_bind [OF _ sendDataOn_ok]) simp_all
  show ?thesis
    using assms(1) sendDataOn_ok [of insp X ?e] p
    by (auto simp: send_bulk_def w Let_def split: option.split prod.split)
qed


lemma BestPair_best:
  "best_up (\<lambda>_. True) snaps (fst (BestPair snaps))"
  "best_up (\<lambda>k. int k \<noteq> fst (BestPair snaps)) snaps (snd (BestPair snaps))"
  using pair_scan_inv [of snaps] by (auto simp: pair_inv_def BestPair_def split: prod.splits)

lemma best_up_range: "best_up P snaps i \<Longrightarrow> 0 \<le> i \<Longrightarrow> nat i < length snaps \<and> Up (snaps ! nat i) \<and> P (nat i)"
  by (auto simp: best_up_def candidate_def split: if_splits)

lemma classifyCt_ok:
  "\<exists>co class. classifyCt ct e = Some (e\<lparr>correlator := co\<rparr>, class)"
proof (cases "length ct < 4")
  case False
  then have "ct \<noteq> []" by auto
  then show ?thesis
    using False by (auto simp: classifyCt_def idx_def split: option.split prod.split intro: exI [of _ "correlator e"])
qed (auto simp: classifyCt_def intro: exI [of _ "correlator e"])

lemma holdPending_ok: "client_inv insp X e \<Longrightarrow> client_inv insp X (holdPending ct e) \<and> paths (holdPending ct e) = paths e"
  by (auto simp: holdPending_def client_inv_def inspected_below_def balanced_def bump_def)

lemma client_send_one_ok:
  assumes "client_inv insp X e"
  shows "returns insp X (length (paths e)) (client_send_one lb en ct e)"
proof (cases "sendablePaths e = []")
  case True
  then show ?thesis
    using holdPending_ok [OF assms, of ct] by (auto simp: client_send_one_def)
next
  case False
  let ?ps = "sendablePaths e"
  obtain co cl where c: "classifyCt ct e = Some (e\<lparr>correlator := co\<rparr>, cl)"
    using classifyCt_ok by blast
  let ?e = "e\<lparr>correlator := co\<rparr>" and ?r = "e\<lparr>correlator := co, rtSeq := rtSeq e + 1\<rparr>"
  have i: "client_inv insp X ?e" "client_inv insp X ?r" using assms by simp_all
  let ?snaps = "map (\<lambda>i. Link.Snapshot (pLink (paths e ! i))) ?ps"
  obtain f g where fg: "BestPair ?snaps = (f, g)" by fastforce
  have range: "0 \<le> f \<Longrightarrow> nat f < length ?ps" "0 \<le> g \<Longrightarrow> nat g < length ?ps"
    using best_up_range [OF BestPair_best(1) [of ?snaps]] best_up_range [OF BestPair_best(2) [of ?snaps]] fg by auto
  have two: "returns insp X (length (paths e)) (Option.bind (sendDataOn en a cl False seq (us en) noTag ct ?r)
      (sendDataOn en b cl True seq (us_at en 1) noTag ct))" for a b seq
    using returns_bind [OF sendDataOn_ok [OF i(2)] sendDataOn_ok] by simp
  have one: "returns insp X (length (paths e)) (sendDataOn en a cl False seq (us en) noTag ct ?r)" for a seq
    using sendDataOn_ok [OF i(2)] by simp
  have bulk: "returns insp X (length (paths e)) (send_bulk lb en ?ps ct ?e)"
    using send_bulk_ok [OF i(1) False] by simp
  show ?thesis
    using one two bulk range False
    by (cases "0 \<le> g") (auto simp: client_send_one_def Let_def c fg idx_def)
qed

lemma clientSend_ok: "client_inv insp X e \<Longrightarrow> returns insp X (length (paths e)) (clientSend lb bufs e)"
proof (induction bufs arbitrary: e)
  case (Cons x bufs)
  obtain ct en where x: "x = (ct, en)" by (cases x)
  show ?case
    using returns_bind [OF client_send_one_ok [OF Cons.prems] Cons.IH] by (simp add: x)
qed auto

lemma flushPending_ok:
  assumes "client_inv insp X e"
  shows "returns insp X (length (paths e)) (flushPending lb ens e)"
proof -
  have i: "client_inv insp X (e\<lparr>pending := []\<rparr>)"
    using assms by (simp add: client_inv_def inspected_below_def balanced_def)
  show ?thesis
    using clientSend_ok [OF i] i by (auto simp: flushPending_def Let_def)
qed

section \<open>Receiving\<close>

lemma parsed_packet_fits:
  "ParseDataHeader b = Some (Inr (d, pay)) \<Longrightarrow> DataLen d + length pay = length b"
  using data_framing.parse_sound [of b d pay] by auto

lemma client_data_ok:
  assumes "client_inv insp (add_mset l X) e" "length slab = 2048" "n \<le> 2048" "dgram = take n slab"
  shows "returns insp X (length (paths e)) (client_data lb en i l slab n dgram e)"
proof -
  obtain r where r: "ParseDataHeader dgram = Some r"
    using ParseDataHeader_no_panic by blast
  show ?thesis
  proof (cases r)
    case (Inl x)
    then show ?thesis
      using assms(1) by (auto simp: client_data_def r intro!: inv_give_one)
  next
    case (Inr x)
    obtain d pay where x: "x = (d, pay)" by (cases x)
    let ?pkt = "\<lparr>Slab = Some (l, slab), Off = DataLen d, Len = length pay\<rparr>"
    let ?e = "bump (\<lambda>s. s\<lparr>RxPackets := RxPackets s + 1, RxBytesC := RxBytesC s + of_nat n\<rparr>)
      (upd_path i (\<lambda>p. p\<lparr>lastRxNano := now en,
         pRx := OnData (PathSeq d) (int n) (ucast (us en) - TxTS d) (now en) (pRx p)\<rparr>) e)"
    have fits: "packet_ok ?pkt"
      using parsed_packet_fits [of dgram d pay] r Inr x assms(2-4) by (simp add: packet_ok_def)
    have inv: "client_inv insp (mset (Release ?pkt) + X) ?e" "length (paths ?e) = length (paths e)"
      using assms(1) by (simp_all add: Release_def)
    have push: "returns insp X (length (paths e)) (push_up (now en) (GlobalSeq d) ?pkt ?e)"
      using push_up_ok [OF inv(1) fits] inv(2) by simp
    have rec: "returns insp X (length (paths e))
        (Option.bind (push_recovered en rs (?e\<lparr>fecDec := Some dec\<rparr>)) (push_up (now en) (GlobalSeq d) ?pkt))" for rs dec
    proof -
      have "returns insp (mset (Release ?pkt) + X) (length (paths e)) (push_recovered en rs (?e\<lparr>fecDec := Some dec\<rparr>))"
        using push_recovered_ok [of insp "mset (Release ?pkt) + X" "?e\<lparr>fecDec := Some dec\<rparr>"] inv by simp
      then show ?thesis
        by (rule returns_bind) (rule push_up_ok [OF _ fits])
    qed
    have "balanced (mset (Release ?pkt) + (loans_of (held (reorderBuf ?e)) + X)) ?e"
      using inv(1) by (simp add: client_inv_def ac_simps)
    from deliver_up_ok [OF this fits, of "session ?e"] obtain e' where e':
        "deliver_up ?pkt (session ?e) ?e = Some e'" "balanced (loans_of (held (reorderBuf ?e)) + X) e'" "only_up ?e e'"
      by blast
    then have up: "returns insp X (length (paths e)) (deliver_up ?pkt (session ?e) ?e)"
      using inv only_up_fields [OF e'(3)] by (auto simp: returns_def client_inv_def inspected_below_def)
    show ?thesis
      using push rec up assms(1)
      by (auto simp: client_data_def r Inr x Let_def intro!: inv_give_one split: option.split prod.split)
  qed
qed


lemma control_total:
  "\<exists>r. ParseProbe bl d m = Some r" "\<exists>r. ParseProbeAck bl d m = Some r" "\<exists>r. ParseCtrl bl d m = Some r"
  "\<exists>r. ParseHello bl d m = Some r" "\<exists>r. ParseBye bl d m = Some r"
  using probe_msg.total [of bl d m] probe_ack_msg.total [of bl d m] ctrl_msg.total [of bl d m]
    hello_msg.total [of bl d m] bye_msg.total [of bl d m] by auto

lemma client_fec_ok:
  assumes "client_inv insp X e"
  shows "returns insp X (length (paths e)) (client_fec lb en i n dgram e)"
proof -
  obtain r where r: "ParseFEC dgram = Some r"
    using ParseFEC_no_panic by blast
  have p: "returns insp X (length (paths e)) (push_recovered en rs
      ((bump g (upd_path i h e))\<lparr>fecDec := Some dec\<rparr>))" for rs g h dec
    using push_recovered_ok [of insp X "(bump g (upd_path i h e))\<lparr>fecDec := Some dec\<rparr>" en rs] assms by simp
  show ?thesis
    using assms p by (auto simp: client_fec_def r Let_def split: sum.split option.split prod.split)
qed

lemma path_write_fst [simp]:
  "client_inv insp X (fst (path_write en i d e)) = client_inv insp X e" "paths (fst (path_write en i d e)) = paths e"
  by (simp_all add: path_write_def)

lemma path_write_returns:
  "client_inv insp X e \<Longrightarrow> returns insp X (length (paths e)) (Some (fst (path_write en i d e)))"
  by auto

lemma client_probe_ok: "client_inv insp X e \<Longrightarrow> returns insp X (length (paths e)) (client_probe lb en i dgram e)"
  using control_total(1) [of "blake_of lb" dgram "mac e"]
  by (auto simp: client_probe_def EncodeProbeAck_layout intro!: path_write_returns split: option.split)

lemma client_probe_ack_ok: "client_inv insp X e \<Longrightarrow> returns insp X (length (paths e)) (client_probe_ack lb en i dgram e)"
  using control_total(2) [of "blake_of lb" dgram "mac e"]
  by (auto simp: client_probe_ack_def split: option.split)

lemma onClientCtrl_ok:
  "client_inv insp X e \<Longrightarrow> client_inv insp X (onClientCtrl t pss e) \<and> length (paths (onClientCtrl t pss e)) = length (paths e)"
  by (induction t pss e rule: onClientCtrl.induct) simp_all

lemma client_ctrl_ok: "client_inv insp X e \<Longrightarrow> returns insp X (length (paths e)) (client_ctrl lb en dgram e)"
  using control_total(3) [of "blake_of lb" dgram "mac e"]
  by (auto simp: client_ctrl_def onClientCtrl_ok split: option.split)

lemma client_hello_ack_ok:
  assumes "client_inv insp X e"
  shows "returns insp X (length (paths e)) (client_hello_ack lb en ens i dgram e)"
proof -
  obtain r where r: "ParseHello (blake_of lb) dgram (mac e) = Some r"
    using control_total(4) by blast
  have f: "returns insp X (length (paths e)) (Option.bind (flushPending lb ens (upd_path i g e)) (\<lambda>e. Some (upd_path i h e)))" for g h
    using flushPending_ok [of insp X "upd_path i g e" lb ens] assms by (intro returns_bind) auto
  show ?thesis
    using assms f by (auto simp: client_hello_ack_def r Let_def split: option.split)
qed

lemma handleClientDatagram_ok:
  assumes "client_inv insp (add_mset l X) e" "length slab = 2048" "n \<le> 2048"
  shows "returns insp X (length (paths e)) (handleClientDatagram lb en ens i l slab n e)"
proof -
  have s: "slice slab 0 n = Some (take n slab)"
    using assms(2,3) by (simp add: slice_ok)
  obtain r where r: "ParseHeader (take n slab) = Some r"
    using ParseHeader_no_panic by blast
  have g: "returns insp X k (Option.bind q (\<lambda>e. Some (give_back [l] e)))" if "returns insp (add_mset l X) k q" for k q
    using that by (rule returns_bind) (auto intro: inv_give_one)
  have other: "returns insp X (length (paths e)) (Option.bind q (\<lambda>e. Some (give_back [l] e)))"
    if "q = (if a then client_fec lb en i n d e else if b then client_probe lb en i d e
        else if c then client_probe_ack lb en i d e else if f then client_ctrl lb en d e
        else if h then client_hello_ack lb en ens i d e else Some e)" for q a b c f h d
    unfolding that using assms(1) client_fec_ok client_probe_ok client_probe_ack_ok client_ctrl_ok client_hello_ack_ok
    by (intro g) auto
  show ?thesis
  proof (cases r)
    case (Inl x)
    then show ?thesis
      using assms(1) by (auto simp: handleClientDatagram_def s r intro!: inv_give_one)
  next
    case (Inr h)
    then show ?thesis
      using client_data_ok [OF assms refl] other [OF refl]
      by (auto simp: handleClientDatagram_def s r)
  qed
qed

lemma clientRx_ok:
  assumes "client_inv insp X e"
  shows "returns insp X (length (paths e)) (clientRx lb en ens i dgram e)"
proof -
  obtain e1 l where t: "take_slab e = (e1, l)" by fastforce
  note k = inv_take [OF assms t]
  show ?thesis
    using assms k handleClientDatagram_ok [of insp l X e1]
    by (auto simp: clientRx_def t intro!: inv_give_one split: option.split)
qed

section \<open>Ticker loops and the rest\<close>

lemma each_path_ok:
  "(\<And>i e. client_inv insp X e \<Longrightarrow> returns insp X (length (paths e)) (f i e)) \<Longrightarrow> client_inv insp X e \<Longrightarrow>
   returns insp X (length (paths e)) (each_path f ps e)"
proof (induction ps arbitrary: e)
  case (Cons i ps)
  show ?case
    using returns_bind [OF Cons.prems(1) [OF Cons.prems(2)] Cons.IH [OF Cons.prems(1)]] by simp
qed auto

lemma hello_path_ok: "client_inv insp X e \<Longrightarrow> returns insp X (length (paths e)) (hello_path lb en i e)"
  using path_write_returns [of insp X "upd_path i g e" en i d for g d]
  by (auto simp: hello_path_def Let_def EncodeHello_layout)

lemma dial_ok: "client_inv insp X e \<Longrightarrow> dial en i e = (e', ok) \<Longrightarrow> client_inv insp X e' \<and> length (paths e') = length (paths e)"
  by (auto simp: dial_def split: if_splits)

lemma probe_path_ok:
  assumes "client_inv insp X e"
  shows "returns insp X (length (paths e)) (probe_path lb en tick i e)"
proof -
  obtain l seq w where o: "OnProbeSent (now en) (pLink (paths e ! i)) = (l, seq, w)" by (metis prod_cases3)
  let ?e = "upd_link i (\<lambda>_. l) e"
  let ?d = "AppendTag (blake_of lb) (mac e) (probe_layout \<lparr>Type = 1, Flags = 0, PathID = pid (paths ?e ! i), Epoch = 0\<rparr>
    \<lparr>PSession = session e, PSeq = seq, PTxTS = us_at en i\<rparr>)"
  obtain e1 ok where w: "path_write en i ?d ?e = (e1, ok)" by fastforce
  have e1: "client_inv insp X e1" "length (paths e1) = length (paths e)"
    using path_write_frame [OF w, of insp X] assms by simp_all
  let ?r = "upd_path i (\<lambda>p. p\<lparr>lastRedial := now en\<rparr>)"
  obtain e2 ok2 where d: "dial en i (?r (upd_link i MarkDown e1)) = (e2, ok2)" by fastforce
  have e2: "client_inv insp X e2" "length (paths e2) = length (paths e)"
    using dial_ok [OF _ d, of insp X] e1 by simp_all
  obtain e3 ok3 where d3: "dial en i (?r e) = (e3, ok3)" by fastforce
  have e3: "client_inv insp X e3" "length (paths e3) = length (paths e)"
    using dial_ok [OF _ d3, of insp X] assms by simp_all
  have m: "mac ?e = mac e" "session ?e = session e" by (simp_all add: upd_path_def)
  show ?thesis
    using assms e1 e2 e3
    by (auto simp: probe_path_def Let_def o EncodeProbe_layout m w d d3)
qed

lemma retune_hold_ok:
  "client_inv insp X e \<Longrightarrow> client_inv insp X (retune_hold en e) \<and> paths (retune_hold en e) = paths e"
  using SetHold_ok [of "reorderBuf e"]
  by (auto simp: retune_hold_def Let_def client_inv_def inspected_below_def balanced_def step_ok_def)

lemma ctrl_tick_ok:
  assumes "client_inv insp X e"
  shows "\<exists>v' e'. ctrl_tick lb en v e = Some (v', e') \<and> client_inv insp X e' \<and> length (paths e') = length (paths e)"
proof -
  obtain ps recs where r: "report_all (paths e) = (ps, recs)" by fastforce
  then have l: "length ps = length (paths e)" by (auto simp: report_all_def)
  have w: "client_inv insp X (fst (path_write en i d (e\<lparr>paths := ps\<rparr>)))" "paths (fst (path_write en i d (e\<lparr>paths := ps\<rparr>))) = ps" for i d
    using path_write_frame [of en i d "e\<lparr>paths := ps\<rparr>" _ _ insp X, OF surjective_pairing] assms by simp_all
  show ?thesis
    using assms l retune_hold_ok [OF w(1)] w
    by (auto simp: ctrl_tick_def Let_def r EncodeCtrl_layout split: option.split)
qed

lemma fec_flush_tick_ok: "client_inv insp X e \<Longrightarrow> returns insp X (length (paths e)) (fec_flush_tick lb en e)"
  using emit_parity_ok [of insp X "e\<lparr>fecEnc := enc\<rparr>" en qs for enc qs]
  by (auto simp: fec_flush_tick_def split: option.split prod.split)

lemma bye_path_ok: "client_inv insp X e \<Longrightarrow> returns insp X (length (paths e)) (bye_path lb en i e)"
  by (auto simp: bye_path_def EncodeBye_layout intro: path_write_returns)

lemma CloseClient_ok:
  assumes "client_inv insp X e"
  shows "returns insp X (length (paths e)) (CloseClient lb en e)"
proof -
  have c: "returns insp X (length (paths e')) (let e = e'\<lparr>paths := map path_close (paths e')\<rparr>;
      (b, os) = Reorder.Close (reorderBuf e) in run_outs (session e) os (e\<lparr>reorderBuf := b\<rparr>))" if "client_inv insp X e'" for e'
  proof -
    obtain b os where o: "Reorder.Close (reorderBuf e') = (b, os)" by fastforce
    have "step_ok {#} (reorderBuf e') b os"
      using Close_ok(1) [OF _ o] that by (simp add: client_inv_def)
    then show ?thesis
      using reorder_call [of insp "{#}" X "e'\<lparr>paths := map path_close (paths e')\<rparr>" b os "session e'"] that o
      by (simp add: Let_def)
  qed
  show ?thesis
    unfolding CloseClient_def sendByes_def
    by (rule returns_bind [OF each_path_ok [OF bye_path_ok assms] c])
qed

lemma hold_timer_ok:
  assumes "client_inv insp X e"
  shows "returns insp X (length (paths e)) (hold_timer en e)"
proof -
  obtain b os where o: "onTimer (now en) (reorderBuf e) = Some (b, os)" "step_ok {#} (reorderBuf e) b os"
    using onTimer_ok [of "reorderBuf e" "now en"] assms by (auto simp: client_inv_def)
  then show ?thesis
    using reorder_call [of insp "{#}" X e b os "session e"] assms by (simp add: hold_timer_def)
qed

lemma wg_recv_ok:
  assumes "balanced X e"
  shows "\<exists>e' r. wg_recv ch cap e = Some (e', r) \<and> balanced X e' \<and> only_up e e'"
proof (cases "ch < length (chans (bind e))")
  case True
  then obtain b os r where o: "recv ch cap (bind e) = Some (b, os, r)" "bind_inv b"
      "bind_holds (bind e) = bind_gives os + bind_holds b"
    using recv_ok [OF _ True, of cap] assms by (auto simp: balanced_def)
  let ?e = "give_back (concat (map out_release os)) (e\<lparr>bind := b\<rparr>)"
  have "loans_of (bind_holds (bind e)) = loans_of (bind_gives os) + loans_of (bind_holds b)"
    using arg_cong [OF o(3), of loans_of] by simp
  then have "balanced X ?e"
    using assms o(2) by (intro balanced_give) (simp add: balanced_def out_release_gives ac_simps)
  moreover have "only_up e ?e"
    by (cases e) (simp add: only_up_def give_back_def)
  ultimately show ?thesis
    using True o(1) by (simp add: wg_recv_def)
qed (use assms in \<open>simp add: wg_recv_def\<close>)

lemma only_up_returns:
  assumes "client_inv insp X e" "balanced (loans_of (held (reorderBuf e)) + X) e'" "only_up e e'"
  shows "returns insp X (length (paths e)) (Some e')"
  using assms(1,2) only_up_fields [OF assms(3)] by (auto simp: client_inv_def inspected_below_def)


lemma Open_ok: "client_inv insp X e \<Longrightarrow> client_inv insp X (e\<lparr>bind := fst (Open (bind e))\<rparr>)"
  using Open_inv [of "bind e"] by (simp add: client_inv_def inspected_below_def balanced_def)

lemma CloseBind_ok: "client_inv insp X e \<Longrightarrow> \<exists>b. CloseBind (bind e) = Some b \<and> client_inv insp X (e\<lparr>bind := b\<rparr>)"
  using CloseBind_inv [of "bind e"] by (auto simp: client_inv_def inspected_below_def balanced_def)

lemma AddPath_ok: "client_inv insp X e \<Longrightarrow> AddPath en e = (e', ok) \<Longrightarrow> client_inv insp X e'"
  by (auto simp: AddPath_def Let_def dial_def split: if_splits)

lemma update_flow_below:
  assumes "flows_below n c" "Suc n < 2 ^ 64"
  shows "\<exists>c' x. update_flow k len c = Some (c', x) \<and> flows_below (Suc n) c'"
proof -
  obtain t f where tf: "(case Mapping.lookup (flows c) k of
        Some fs \<Rightarrow> (flows c, fs)
      | None \<Rightarrow> (if Mapping.size (flows c) \<ge> flowTableCap then Mapping.empty else flows c,
          \<lparr>pkts = 0, payload = 0, fclass = 0\<rparr>)) = (t, f)" by fastforce
  have f: "unat (pkts f) \<le> n" and t: "\<And>j g. Mapping.lookup t j = Some g \<Longrightarrow> unat (pkts g) \<le> n"
    using tf assms(1) by (auto simp: flows_below_def split: option.splits if_splits)
  have p: "unat (pkts f + 1) = Suc (unat (pkts f))"
    using f assms(2) by (simp add: unat_plus_if')
  then have nz: "pkts f + 1 \<noteq> 0"
    by (metis nat.distinct(1) unat_0)
  have below: "flows_below (Suc n) (c\<lparr>flows := Mapping.update k (f\<lparr>pkts := pkts f + 1, payload := z, fclass := y\<rparr>) t\<rparr>)" for y z
    using f t p by (auto simp: flows_below_def lookup_update' le_SucI)
  show ?thesis
    unfolding update_flow_def tf using nz below by (simp add: Let_def)
qed

lemma Classify_below:
  assumes "flows_below n c" "Suc n < 2 ^ 64"
  shows "\<exists>c' x. Classify pkt c = Some (c', x) \<and> flows_below (Suc n) c'"
proof -
  have "flows_below (Suc n) c"
    using assms(1) by (auto simp: flows_below_def le_SucI)
  then show ?thesis
    using parse_ok [of pkt] update_flow_below [OF assms] by (auto simp: Classify_def split: option.split)
qed

lemma Inspect_total:
  assumes "inspected_below insp e" "Suc insp < 2 ^ 64"
  shows "\<exists>c co. Inspect pkt e = Some (e\<lparr>classifier := c, correlator := co\<rparr>) \<and>
    inspected_below (Suc insp) (e\<lparr>classifier := c, correlator := co\<rparr>)"
proof (cases "classifier e")
  case None
  then have "e\<lparr>classifier := None, correlator := correlator e\<rparr> = e" by (cases e) simp
  with None show ?thesis
    by (intro exI [of _ None] exI [of _ "correlator e"]) (simp add: Inspect_def inspected_below_def)
next
  case (Some c)
  obtain c' x where "Classify pkt c = Some (c', x)" "flows_below (Suc insp) c'"
    using Classify_below [OF _ assms(2), of c pkt] assms(1) Some by (auto simp: inspected_below_def)
  then show ?thesis
    using Some by (intro exI [of _ "Some c'"]) (auto simp: Inspect_def inspected_below_def)
qed

lemma Inspect_ok:
  assumes "client_inv insp X e" "Suc insp < 2 ^ 64"
  shows "\<exists>e'. Inspect pkt e = Some e' \<and> client_inv (Suc insp) X e'"
  using Inspect_total [OF _ assms(2), of e pkt] assms(1) by (fastforce simp: client_inv_def balanced_def)


section \<open>Runs of the client\<close>

text \<open>
  Everything that calls into a client: WireGuard (send, receive, open and close of the bind, the
  TUN hook), the sockets, the timer of the reorder buffer, the ticker loops, and the daemon
  that adds paths and closes the engine. The local variables of the control loop are part of
  the state.
\<close>

datatype client_op =
    CSend "(bytes \<times> env) list"
  | CDatagram env "nat \<Rightarrow> env" nat "bytes option"
  | CTimer env
  | CWgRecv nat nat
  | CWgOpen
  | CWgClose
  | CInspect bytes
  | CHello env
  | CProbe env int
  | CCtrl env
  | CFlush env
  | CAddPath env
  | CClose env

fun client_step :: "lib \<Rightarrow> client_op \<Rightarrow> Engine \<times> ctrl_vars \<Rightarrow> (Engine \<times> ctrl_vars) option" where
  "client_step lb (CSend bufs) (e, v) = map_option (\<lambda>e. (e, v)) (clientSend lb bufs e)"
| "client_step lb (CDatagram en ens i d) (e, v) =
     (if i < length (paths e) then map_option (\<lambda>e. (e, v)) (clientRx lb en ens i d e) else Some (e, v))"
| "client_step lb (CTimer en) (e, v) = map_option (\<lambda>e. (e, v)) (hold_timer en e)"
| "client_step lb (CWgRecv ch cap) (e, v) = map_option (\<lambda>(e, _). (e, v)) (wg_recv ch cap e)"
| "client_step lb CWgOpen (e, v) = Some (e\<lparr>bind := fst (Open (bind e))\<rparr>, v)"
| "client_step lb CWgClose (e, v) = map_option (\<lambda>b. (e\<lparr>bind := b\<rparr>, v)) (CloseBind (bind e))"
| "client_step lb (CInspect pkt) (e, v) = map_option (\<lambda>e. (e, v)) (Inspect pkt e)"
| "client_step lb (CHello en) (e, v) = map_option (\<lambda>e. (e, v)) (hello_tick lb en e)"
| "client_step lb (CProbe en tick) (e, v) = map_option (\<lambda>e. (e, v)) (probe_tick lb en tick e)"
| "client_step lb (CCtrl en) (e, v) = map_option (\<lambda>(v, e). (e, v)) (ctrl_tick lb en v e)"
| "client_step lb (CFlush en) (e, v) = map_option (\<lambda>e. (e, v)) (fec_flush_tick lb en e)"
| "client_step lb (CAddPath en) (e, v) = Some (fst (AddPath en e), v)"
| "client_step lb (CClose en) (e, v) = map_option (\<lambda>e. (e, v)) (CloseClient lb en e)"

fun client_run :: "lib \<Rightarrow> client_op list \<Rightarrow> Engine \<times> ctrl_vars \<Rightarrow> (Engine \<times> ctrl_vars) option" where
  "client_run lb [] s = Some s"
| "client_run lb (x # xs) s = Option.bind (client_step lb x s) (client_run lb xs)"

lemma inspected_mono: "client_inv insp X e \<Longrightarrow> client_inv (Suc insp) X e"
  by (auto simp: client_inv_def inspected_below_def flows_below_def le_SucI)

lemma returns_step: "returns insp X k r \<Longrightarrow> \<exists>e'. map_option (\<lambda>e. (e, v)) r = Some (e', v) \<and> client_inv (Suc insp) X e'"
  by (auto simp: returns_def inspected_mono)

lemma client_step_ok:
  assumes "client_inv insp {#} e" "Suc insp < 2 ^ 64"
  shows "\<exists>e' v'. client_step lb x (e, v) = Some (e', v') \<and> client_inv (Suc insp) {#} e'"
proof (cases x)
  case (CSend bufs)
  then show ?thesis using returns_step [OF clientSend_ok [OF assms(1)]] by fastforce
next
  case (CDatagram en ens i d)
  then show ?thesis
    using returns_step [OF clientRx_ok [OF assms(1)]] inspected_mono [OF assms(1)] by fastforce
next
  case (CTimer en)
  then show ?thesis using returns_step [OF hold_timer_ok [OF assms(1)]] by fastforce
next
  case (CWgRecv ch cap)
  have "balanced (loans_of (held (reorderBuf e))) e"
    using assms(1) by (simp add: client_inv_def)
  from wg_recv_ok [OF this, of ch cap] obtain e' r where
      "wg_recv ch cap e = Some (e', r)" "balanced (loans_of (held (reorderBuf e))) e'" "only_up e e'" by blast
  then show ?thesis
    using only_up_returns [OF assms(1)] CWgRecv by (auto simp: returns_def inspected_mono)
next
  case CWgClose
  then show ?thesis using CloseBind_ok [OF assms(1)] inspected_mono by fastforce
next
  case (CInspect pkt)
  then show ?thesis using Inspect_ok [OF assms] by fastforce
next
  case (CHello en)
  then show ?thesis
    using returns_step [OF each_path_ok [OF hello_path_ok assms(1)]] by (fastforce simp: hello_tick_def)
next
  case (CProbe en tick)
  then show ?thesis
    using returns_step [OF each_path_ok [OF probe_path_ok assms(1)]] by (fastforce simp: probe_tick_def)
next
  case (CCtrl en)
  then show ?thesis using ctrl_tick_ok [OF assms(1), of lb en v] inspected_mono by fastforce
next
  case (CFlush en)
  then show ?thesis using returns_step [OF fec_flush_tick_ok [OF assms(1)]] by fastforce
next
  case (CAddPath en)
  then show ?thesis
    using AddPath_ok [OF assms(1), of en, OF surjective_pairing] inspected_mono by fastforce
next
  case (CClose en)
  then show ?thesis using returns_step [OF CloseClient_ok [OF assms(1)]] by fastforce
qed (use Open_ok [OF assms(1)] inspected_mono in \<open>auto\<close>)

lemma client_run_ok:
  assumes "client_inv insp {#} e" "insp + length xs < 2 ^ 64"
  shows "\<exists>e' v'. client_run lb xs (e, v) = Some (e', v') \<and> client_inv (insp + length xs) {#} e'"
  using assms
proof (induction xs arbitrary: insp e v)
  case (Cons x xs)
  obtain e1 v1 where s: "client_step lb x (e, v) = Some (e1, v1)" "client_inv (Suc insp) {#} e1"
    using client_step_ok [OF Cons.prems(1), of lb x v] Cons.prems(2) by auto
  then show ?case
    using Cons.IH [OF s(2), of v1] Cons.prems(2) by simp
qed simp

lemma distinct_part: "mset ys = mset xs + Z \<Longrightarrow> distinct ys \<Longrightarrow> distinct xs"
proof -
  assume m: "mset ys = mset xs + Z" and d: "distinct ys"
  obtain zs where "mset zs = Z" using ex_mset by blast
  with m have "mset ys = mset (xs @ zs)" by simp
  then have "distinct (xs @ zs)" using d mset_eq_imp_distinct_iff by blast
  then show ?thesis by simp
qed

lemma NewClient_inv: "client_inv 0 {#} (NewClient mc sess cid rs disabled force)"
proof -
  have "reorder_inv (Reorder.New :: Packet buffer)" "held (Reorder.New :: Packet buffer) = {#}"
    by (rule New_inv) (simp add: held_def waiting_def Reorder.New_def)
  moreover have "bind_inv NewEngineBind" "bind_holds NewEngineBind = {#}"
    by (simp_all add: NewEngineBind_def bind_inv_def bind_holds_def)
  moreover have "flows_below 0 (Classify.New x)" for x
    by (simp add: flows_below_def Classify.New_def)
  ultimately show ?thesis
    by (auto simp: client_inv_def NewClient_def balanced_def inspected_below_def)
qed

section \<open>Properties\<close>

text \<open>
  C12. The client never panics and never loses or doubly frees a slab: for every configuration,
  every choice of the linked libraries and every sequence of fewer than \<open>2^64\<close> calls in any
  order (datagrams of any content on any path, batches from WireGuard, socket errors, timers,
  ticks, opens and closes, shutdown), every call returns; the slabs taken from the pool are
  exactly those given back, once each, and those of the packets in the reorder buffer and in
  the bind's queues; and at most 64 datagrams wait for a path.
\<close>

theorem client_total_and_leak_free:
  assumes "length ops < 2 ^ 64"
  shows "\<exists>e v. client_run lb ops (NewClient mc sess cid rs disabled force, v0) = Some (e, v) \<and>
    mset [0..<next_loan e] = mset (returned e) + loans_of (held (reorderBuf e)) + loans_of (bind_holds (bind e)) \<and>
    distinct (returned e) \<and> length (pending e) \<le> 64"
proof -
  obtain e v where r: "client_run lb ops (NewClient mc sess cid rs disabled force, v0) = Some (e, v)"
      "client_inv (length ops) {#} e"
    using client_run_ok [OF NewClient_inv [of mc sess cid rs disabled force], of ops lb v0] assms by auto
  then have b: "mset [0..<next_loan e] = mset (returned e) + loans_of (held (reorderBuf e)) + loans_of (bind_holds (bind e))"
    by (simp add: client_inv_def balanced_def ac_simps)
  then have "mset [0..<next_loan e] = mset (returned e) + (loans_of (held (reorderBuf e)) + loans_of (bind_holds (bind e)))"
    by (simp add: add.assoc)
  then have "distinct (returned e)"
    by (rule distinct_part) simp
  with r b show ?thesis by (simp add: client_inv_def)
qed


text \<open>A client with one path that is registered by an authentic HELLO\_ACK and sends a datagram.\<close>

definition no_lib :: lib where
  "no_lib = \<lparr>blake_of = (\<lambda>k m. [of_nat (length m)]), rs_enc = (\<lambda>k m ds. None), rs_rec = (\<lambda>k m ds. None), group_ord = (\<lambda>gs. gs)\<rparr>"

definition some_env :: env where
  "some_env = \<lparr>now = 1000 * Second, us = 5, us_at = (\<lambda>_. 6), dice = 1, dirty = (\<lambda>_. 7), net = (\<lambda>_ _. True), dial_ok = (\<lambda>_. True)\<rparr>"

theorem client_total_and_leak_free_witness:
  "\<exists>e v. client_run no_lib [CWgOpen, CAddPath some_env, CSend [([4, 0, 0, 0, 1], some_env)],
      CDatagram some_env (\<lambda>_. some_env) 0 (Some [0x10, 0]), CClose some_env]
    (NewClient (NewMAC []) 7 9 None True off, \<lparr>lastSent = 0, lastRxPktsV = 0, lastRetune = 0, lastFEC = 0\<rparr>) = Some (e, v) \<and>
    distinct (returned e)"
  using client_total_and_leak_free [of "[CWgOpen, CAddPath some_env, CSend [([4, 0, 0, 0, 1], some_env)],
      CDatagram some_env (\<lambda>_. some_env) 0 (Some [0x10, 0]), CClose some_env]" no_lib "NewMAC []" 7 9 None True off
      "\<lparr>lastSent = 0, lastRxPktsV = 0, lastRetune = 0, lastFEC = 0\<rparr>"]
  by (auto simp del: client_run.simps)

end
