(* ===== verification/Server.thy ===== *)
theory Server
  imports Engine
begin

text \<open>
  Package \<^verbatim>\<open>internal/engine\<close>, file \<^verbatim>\<open>server.go\<close>, in the style of \<open>Engine\<close>: the server is the engine with
  its table of sessions. A pointer to a session or to the state of one of its paths is the
  session number or the path id, under which the Go maps hold the object. The order in which a
  Go map is iterated is an argument of the call.
\<close>

section \<open>State\<close>

type_synonym AddrPort = "Addr \<times> u16"

definition sessionTimeout :: duration where "sessionTimeout = 300 * Second"
definition pathStaleAfter :: duration where "pathStaleAfter = 45 * Second"

record pathState =
  ps_id :: byte
  addr :: AddrPort
  lastRx :: int
  sLink :: link
  sRx :: rxstats

record Session =
  SID :: u32
  SClientID :: u64
  spaths :: "(byte \<times> pathState) list"
  lastSeen :: int
  sGlobalSeq :: u32
  sRtSeq :: u32
  sPathSeq :: "byte \<Rightarrow> u32"
  sReorder :: "Packet buffer"
  sWsched :: credits
  sFecEnc :: "encoder option"
  sFecDec :: "decoder option"

record Server = Engine +
  sessions :: "(u32 \<times> Session) list"

text \<open>
  What the machine answers, beside \<open>env\<close>: the later readings of the clock in the same call,
  whether the socket accepts a datagram for an address, the order of the \<open>n\<close>-th iteration over
  a session's paths, and the order in which the sessions are visited. An iteration yields a key
  at most once, and only keys of the map.
\<close>

record senv = env +
  now_at :: "nat \<Rightarrow> timestamp"
  net_to :: "AddrPort \<Rightarrow> bytes \<Rightarrow> bool"
  path_ord :: "nat \<Rightarrow> byte list \<Rightarrow> byte list"
  sess_ord :: "u32 list \<Rightarrow> u32 list"

text \<open>The client's part of the engine is not used.\<close>

definition NewServer :: "MAC \<Rightarrow> Rule list option \<Rightarrow> bool \<Rightarrow> Params \<Rightarrow> Server" where
  "NewServer mc rs disabled force =
     Engine.Engine.extend ((NewClient mc 0 0 rs disabled force)\<lparr>fecEnc := None, fecDec := None\<rparr>)
       \<lparr>sessions = []\<rparr>"

definition upd_session :: "u32 \<Rightarrow> (Session \<Rightarrow> Session) \<Rightarrow> Server \<Rightarrow> Server" where
  "upd_session sid f sv = sv\<lparr>sessions := AList.map_entry sid f (sessions sv)\<rparr>"

definition lookupSession :: "u32 \<Rightarrow> Server \<Rightarrow> Session option" where
  "lookupSession sid sv = map_of (sessions sv) sid"

definition allSessions :: "senv \<Rightarrow> Server \<Rightarrow> u32 list" where
  "allSessions en sv = filter (\<lambda>sid. sid \<in> fst ` set (sessions sv)) (remdups (sess_ord en (map fst (sessions sv))))"

section \<open>Paths of a session\<close>

definition path_of :: "byte \<Rightarrow> Session \<Rightarrow> pathState option" where
  "path_of i s = map_of (spaths s) i"

definition upd_ps :: "byte \<Rightarrow> (pathState \<Rightarrow> pathState) \<Rightarrow> Session \<Rightarrow> Session" where
  "upd_ps i f s = s\<lparr>spaths := AList.map_entry i f (spaths s)\<rparr>"

definition touchPath :: "byte \<Rightarrow> AddrPort \<Rightarrow> int \<Rightarrow> Session \<Rightarrow> Session" where
  "touchPath pathID a t s =
     (let ps = (case path_of pathID s of
            Some ps \<Rightarrow> ps
          | None \<Rightarrow> \<lparr>ps_id = pathID, addr = (NoAddr, 0), lastRx = 0, sLink = NewLink, sRx = NewRxStats\<rparr>)
      in s\<lparr>spaths := AList.update pathID (ps\<lparr>addr := a, lastRx := t\<rparr>) (spaths s)\<rparr>)"

text \<open>The path with a key that an iteration has yielded.\<close>

definition ps_at :: "Session \<Rightarrow> byte \<Rightarrow> pathState" where
  "ps_at s i = the (path_of i s)"

text \<open>The keys of the recently active paths, in the order of iteration \<open>k\<close> of the call.\<close>

definition alivePaths :: "senv \<Rightarrow> nat \<Rightarrow> int \<Rightarrow> Session \<Rightarrow> byte list" where
  "alivePaths en k t s =
     (let cutoff = i64 (t - pathStaleAfter) in
      filter (\<lambda>i. case path_of i s of None \<Rightarrow> False | Some ps \<Rightarrow> lastRx ps \<ge> cutoff)
        (remdups (path_ord en k (map fst (spaths s)))))"

definition write_to :: "senv \<Rightarrow> AddrPort \<Rightarrow> bytes \<Rightarrow> Server \<Rightarrow> Server \<times> bool" where
  "write_to en a d sv =
     (if net_to en a d then (sv\<lparr>sent := sent sv @ [TxTo a d]\<rparr>, True) else (sv, False))"

section \<open>Receiving\<close>

definition sess_push :: "timestamp \<Rightarrow> u32 \<Rightarrow> u32 \<Rightarrow> Packet \<Rightarrow> Server \<Rightarrow> Server option" where
  "sess_push t sid seq pkt sv =
     (case lookupSession sid sv of
        None \<Rightarrow> None
      | Some s \<Rightarrow>
          (let (b, os) = Push t seq pkt (sReorder s)
           in run_outs sid os (upd_session sid (\<lambda>s. s\<lparr>sReorder := b\<rparr>) sv)))"

fun sess_recovered :: "senv \<Rightarrow> u32 \<Rightarrow> (u32 \<times> bytes) list \<Rightarrow> Server \<Rightarrow> Server option" where
  "sess_recovered en sid [] sv = Some sv"
| "sess_recovered en sid ((seq, ct) # rs) sv =
     (let (sv, l) = take_slab sv;
          pkt = \<lparr>Slab = Some (l, fill_slab (dirty en) ct), Off = 0, Len = min SlabSize (length ct)\<rparr>
      in Option.bind (sess_push (now en) sid seq pkt sv) (sess_recovered en sid rs))"

definition server_data :: "lib \<Rightarrow> senv \<Rightarrow> loan \<Rightarrow> bytes \<Rightarrow> nat \<Rightarrow> bytes \<Rightarrow> AddrPort \<Rightarrow> Server \<Rightarrow> Server option" where
  "server_data lb en l slab n dgram a sv = do {
     r \<leftarrow> ParseDataHeader dgram;
     case r of
       Inl _ \<Rightarrow> Some (give_back [l] (bump (\<lambda>s. s\<lparr>RxDropMalformed := RxDropMalformed s + 1\<rparr>) sv))
     | Inr (d, pay) \<Rightarrow>
         (case lookupSession (Wire.Session d) sv of
            None \<Rightarrow> Some (give_back [l] (bump (\<lambda>s. s\<lparr>RxDropUnknown := RxDropUnknown s + 1\<rparr>) sv))
          | Some s \<Rightarrow> (
              let sid = Wire.Session d;
                  i = PathID (DHeader d);
                  sv = upd_session sid (\<lambda>s. (upd_ps i
                         (\<lambda>ps. ps\<lparr>sRx := OnData (PathSeq d) (int n) (ucast (us en) - TxTS d) (now en) (sRx ps)\<rparr>)
                         (touchPath i a (now en) s))\<lparr>lastSeen := now en\<rparr>) sv;
                  sv = bump (\<lambda>s. s\<lparr>RxPackets := RxPackets s + 1, RxBytesC := RxBytesC s + of_nat n\<rparr>) sv;
                  pkt = \<lparr>Slab = Some (l, slab), Off = DataLen d, Len = length pay\<rparr> in
              if Class (DHeader d) = ClassBulk then do {
                sv \<leftarrow> (case sFecDec s of
                        Some dec \<Rightarrow>
                          if Flags (DHeader d) AND FlagFECInfo \<noteq> 0
                          then (let (dec, rs) = AddData (group_ord lb) (rs_rec lb) (FECGroup d) (FECIndex d) (GlobalSeq d) pay (now en) dec
                                in sess_recovered en sid rs (upd_session sid (\<lambda>s. s\<lparr>sFecDec := Some dec\<rparr>) sv))
                          else Some sv
                      | None \<Rightarrow> Some sv);
                sess_push (now en) sid (GlobalSeq d) pkt sv
              }
              else deliver_up pkt sid sv))
   }"

definition server_fec :: "lib \<Rightarrow> senv \<Rightarrow> nat \<Rightarrow> bytes \<Rightarrow> Server \<Rightarrow> Server option" where
  "server_fec lb en n dgram sv = do {
     r \<leftarrow> ParseFEC dgram;
     case r of
       Inl _ \<Rightarrow> Some sv
     | Inr (f, shard) \<Rightarrow>
         (case lookupSession (FSession f) sv of
            None \<Rightarrow> Some sv
          | Some s \<Rightarrow>
              (case sFecDec s of
                 None \<Rightarrow> Some sv
               | Some dec \<Rightarrow>
                   (let sv = bump (\<lambda>s. s\<lparr>RxPackets := RxPackets s + 1, RxBytesC := RxBytesC s + of_nat n\<rparr>) sv;
                        (dec, rs) = AddParity (group_ord lb) (rs_rec lb) (FGroup f) (FIndex f) (FK f) (FM f) shard (now en) dec
                    in sess_recovered en (FSession f) rs (upd_session (FSession f) (\<lambda>s. s\<lparr>sFecDec := Some dec\<rparr>) sv))))
   }"

definition server_probe :: "lib \<Rightarrow> senv \<Rightarrow> bytes \<Rightarrow> AddrPort \<Rightarrow> Server \<Rightarrow> Server option" where
  "server_probe lb en dgram a sv = do {
     r \<leftarrow> ParseProbe (blake_of lb) dgram (mac sv);
     case r of
       None \<Rightarrow> Some sv
     | Some (hh, pr) \<Rightarrow>
         (case lookupSession (PSession pr) sv of
            None \<Rightarrow> Some sv
          | Some s \<Rightarrow> do {
              let sv = upd_session (PSession pr) (touchPath (PathID hh) a (now en)) sv;
              ack \<leftarrow> EncodeProbeAck (blake_of lb) \<lparr>Type = 0, Flags = 0, PathID = PathID hh, Epoch = 0\<rparr>
                       \<lparr>ASession = PSession pr, ASeq = PSeq pr, ATxTS = PTxTS pr, HoldUS = 0\<rparr> (mac sv);
              Some (fst (write_to en a ack sv))
            })
   }"

definition server_probe_ack :: "lib \<Rightarrow> senv \<Rightarrow> bytes \<Rightarrow> Server \<Rightarrow> Server option" where
  "server_probe_ack lb en dgram sv = do {
     r \<leftarrow> ParseProbeAck (blake_of lb) dgram (mac sv);
     case r of
       None \<Rightarrow> Some sv
     | Some (hh, k) \<Rightarrow>
         Some (upd_session (ASession k)
           (upd_ps (PathID hh) (\<lambda>ps. ps\<lparr>sLink := fst (OnProbeAck (ASeq k) (rtt_of (us en) k) (sLink ps))\<rparr>)) sv)
   }"

fun onServerCtrl :: "timestamp \<Rightarrow> PathStats list \<Rightarrow> Session \<Rightarrow> Session" where
  "onServerCtrl t [] s = s"
| "onServerCtrl t (st # sts) s =
     onServerCtrl t sts
       (upd_ps (SPathID st)
          (\<lambda>ps. ps\<lparr>sLink := OnCtrl (Highest st) (RxPkts st) (RxBytes st) (OwdMinUS st) (OwdAvgUS st) t (sLink ps)\<rparr>) s)"

definition server_ctrl :: "lib \<Rightarrow> senv \<Rightarrow> bytes \<Rightarrow> Server \<Rightarrow> Server option" where
  "server_ctrl lb en dgram sv = do {
     r \<leftarrow> ParseCtrl (blake_of lb) dgram (mac sv);
     case r of
       None \<Rightarrow> Some sv
     | Some (_, c) \<Rightarrow> Some (upd_session (CSession c) (onServerCtrl (now en) (Control.Paths c)) sv)
   }"

definition new_session :: "u32 \<Rightarrow> u64 \<Rightarrow> Server \<Rightarrow> Session" where
  "new_session sid cid sv =
     \<lparr>SID = sid, SClientID = cid, spaths = [], lastSeen = 0, sGlobalSeq = 0, sRtSeq = 0, sPathSeq = (\<lambda>_. 0),
      sReorder = Reorder.New, sWsched = NewWeighted,
      sFecEnc = (if fecDisabled sv then None else Some (SetParams (fecForce sv) NewEncoder)),
      sFecDec = (if fecDisabled sv then None else Some NewDecoder)\<rparr>"

definition handleHello :: "lib \<Rightarrow> senv \<Rightarrow> bytes \<Rightarrow> AddrPort \<Rightarrow> Server \<Rightarrow> Server option" where
  "handleHello lb en dgram a sv = (
     let malformed = bump (\<lambda>s. s\<lparr>RxDropMalformed := RxDropMalformed s + 1\<rparr>) sv in do {
     r \<leftarrow> ParseHello (blake_of lb) dgram (mac sv);
     case r of
       None \<Rightarrow> Some malformed
     | Some (hh, m) \<Rightarrow>
         if Type hh \<noteq> TypeHello \<or> \<not> FreshTS (UnixTS m) (Unix (now en)) then Some malformed
         else (
           let (sv, s) = (case lookupSession (HSession m) sv of
                   Some s \<Rightarrow> (sv, s)
                 | None \<Rightarrow> (let s = new_session (HSession m) (ClientID m) sv
                            in (sv\<lparr>sessions := (HSession m, s) # sessions sv\<rparr>, s))) in
           if SClientID s \<noteq> ClientID m
           then Some (bump (\<lambda>s. s\<lparr>RxDropUnknown := RxDropUnknown s + 1\<rparr>) sv)
           else do {
             let sv = upd_session (HSession m) (\<lambda>s. (touchPath (PathID hh) a (now_at en 1) s)\<lparr>lastSeen := now_at en 1\<rparr>) sv;
             ack \<leftarrow> EncodeHello (blake_of lb) \<lparr>Type = 0, Flags = 0, PathID = PathID hh, Epoch = 0\<rparr>
                      \<lparr>HSession = HSession m, ClientID = ClientID m, Features = 0, UnixTS = Unix (now_at en 2)\<rparr> (mac sv) True;
             Some (fst (write_to en a ack sv))
           })
   })"

text \<open>Closing the reorder buffer of a session that left the table releases what it holds.\<close>

definition close_session :: "Session \<Rightarrow> Server \<Rightarrow> Server option" where
  "close_session s sv = run_outs (SID s) (snd (Reorder.Close (sReorder s))) sv"

definition removeSessionPath :: "u32 \<Rightarrow> byte \<Rightarrow> Server \<Rightarrow> Server option" where
  "removeSessionPath sid i sv =
     (case lookupSession sid sv of
        None \<Rightarrow> Some sv
      | Some s \<Rightarrow>
          (let s = s\<lparr>spaths := AList.delete i (spaths s)\<rparr> in
           if spaths s = [] then close_session s (sv\<lparr>sessions := AList.delete sid (sessions sv)\<rparr>)
           else Some (upd_session sid (\<lambda>_. s) sv)))"

definition server_bye :: "lib \<Rightarrow> senv \<Rightarrow> bytes \<Rightarrow> Server \<Rightarrow> Server option" where
  "server_bye lb en dgram sv = do {
     r \<leftarrow> ParseBye (blake_of lb) dgram (mac sv);
     case r of
       None \<Rightarrow> Some sv
     | Some (hb, m) \<Rightarrow>
         if FreshTS (BUnixTS m) (Unix (now en)) then removeSessionPath (BSession m) (PathID hb) sv else Some sv
   }"

definition handleServerDatagram :: "lib \<Rightarrow> senv \<Rightarrow> loan \<Rightarrow> bytes \<Rightarrow> nat \<Rightarrow> AddrPort \<Rightarrow> Server \<Rightarrow> Server option" where
  "handleServerDatagram lb en l slab n a sv = do {
     dgram \<leftarrow> slice slab 0 n;
     r \<leftarrow> ParseHeader dgram;
     case r of
       Inl _ \<Rightarrow> Some (give_back [l] (bump (\<lambda>s. s\<lparr>RxDropMalformed := RxDropMalformed s + 1\<rparr>) sv))
     | Inr h \<Rightarrow>
         if Type h = TypeData then server_data lb en l slab n dgram a sv
         else do {
           sv \<leftarrow> (if Type h = TypeFEC then server_fec lb en n dgram sv
                 else if Type h = TypeProbe then server_probe lb en dgram a sv
                 else if Type h = TypeProbeAck then server_probe_ack lb en dgram sv
                 else if Type h = TypeCtrl then server_ctrl lb en dgram sv
                 else if Type h = TypeHello then handleHello lb en dgram a sv
                 else if Type h = TypeBye then server_bye lb en dgram sv
                 else Some sv);
           Some (give_back [l] sv)
         }
   }"

text \<open>One turn of the receive loop.\<close>

definition serverRx :: "lib \<Rightarrow> senv \<Rightarrow> (bytes \<times> AddrPort) option \<Rightarrow> Server \<Rightarrow> Server option" where
  "serverRx lb en dgram sv =
     (let (sv, l) = take_slab sv in
      case dgram of
        None \<Rightarrow> Some (give_back [l] sv)
      | Some (d, a) \<Rightarrow> handleServerDatagram lb en l (fill_slab (dirty en) d) (min SlabSize (length d)) a sv)"

section \<open>Sending\<close>

text \<open>The weighted choice among usable paths, as on the client.\<close>

definition sess_weighted :: "byte list \<Rightarrow> Session \<Rightarrow> (credits \<times> byte) option" where
  "sess_weighted cs s =
     (if length cs > 1 then do {
        (m, best) \<leftarrow> Pick (map (\<lambda>i. ps_id (ps_at s i)) cs) (map (\<lambda>i. Weight (sLink (ps_at s i))) cs) (sWsched s);
        i \<leftarrow> (if best < 0 then None else idx cs (nat best));
        Some (m, i)
      }
      else do {
        i \<leftarrow> idx cs 0;
        Some (sWsched s, i)
      })"

definition sess_header :: "Session \<Rightarrow> pathState \<Rightarrow> byte \<Rightarrow> bool \<Rightarrow> u32 \<Rightarrow> u32 \<Rightarrow> fecTag \<Rightarrow> DataHeader" where
  "sess_header s ps class dup seq ts tag =
     (let fl = ClassFlags class;
          fl = (if dup then fl OR FlagDup else fl);
          fl = (if tag_on tag then fl OR FlagFECInfo else fl)
      in \<lparr>DHeader = \<lparr>Type = TypeData, Flags = fl, PathID = ps_id ps, Epoch = 0\<rparr>, Session = SID s,
          GlobalSeq = seq, PathSeq = sPathSeq s (ps_id ps) + 1, TxTS = ts,
          FECGroup = tag_group tag, FECIndex = tag_index tag\<rparr>)"

definition serverSendData :: "senv \<Rightarrow> u32 \<Rightarrow> byte \<Rightarrow> byte \<Rightarrow> bool \<Rightarrow> u32 \<Rightarrow> u64 \<Rightarrow> fecTag \<Rightarrow> bytes \<Rightarrow> Server \<Rightarrow> Server option" where
  "serverSendData en sid i class dup seq clock tag ct sv = do {
     s \<leftarrow> lookupSession sid sv;
     let (sv, l) = take_slab sv;
         ps = ps_at s i;
         d = sess_header s ps class dup seq (ucast clock) tag;
         sv = upd_session sid (\<lambda>s. s\<lparr>sPathSeq := (sPathSeq s)(ps_id ps := sPathSeq s (ps_id ps) + 1)\<rparr>) sv in do {
       (b, n) \<leftarrow> PutDataHeader (Get (dirty en)) d;
       if n + length ct > SlabSize then Some (give_back [l] sv)
       else (let (sv, ok) = write_to en (addr ps) (take n b @ ct) sv in
         Some (give_back [l] (if ok then sent_ok (n + length ct) sv else sv)))
     }
   }"

text \<open>The \<open>k\<close>-th parity shard of a call.\<close>

definition serverEmitParity :: "senv \<Rightarrow> nat \<Rightarrow> u32 \<Rightarrow> parity \<Rightarrow> Server \<Rightarrow> Server option" where
  "serverEmitParity en k sid q sv = do {
     s \<leftarrow> lookupSession sid sv;
     let alive = alivePaths en (k + 1) (now_at en (k + 2)) s in
     if alive = [] then Some sv
     else do {
       (m, i) \<leftarrow> sess_weighted alive s;
       let sv = upd_session sid (\<lambda>s. s\<lparr>sWsched := m\<rparr>) sv;
           (sv, l) = take_slab sv;
           f = \<lparr>FHeader = \<lparr>Type = 0, Flags = 0, PathID = ps_id (ps_at s i), Epoch = 0\<rparr>, FSession = SID s,
                FGroup = p_group q, FIndex = p_index q, FK = p_k q, FM = p_m q,
                ShardLen = of_nat (length (p_shard q))\<rparr> in do {
         (b, n) \<leftarrow> PutFECHeader (Get (dirty en)) f;
         if n + length (p_shard q) > SlabSize then Some (give_back [l] sv)
         else (let (sv, ok) = write_to en (addr (ps_at s i)) (take n b @ p_shard q) sv in
           Some (give_back [l] (if ok then sent_ok (n + length (p_shard q)) sv else sv)))
       }
     }
   }"

fun sess_parity :: "senv \<Rightarrow> nat \<Rightarrow> u32 \<Rightarrow> parity list \<Rightarrow> Server \<Rightarrow> Server option" where
  "sess_parity en k sid [] sv = Some sv"
| "sess_parity en k sid (q # qs) sv = Option.bind (serverEmitParity en k sid q sv) (sess_parity en (Suc k) sid qs)"

definition sess_bulk :: "lib \<Rightarrow> senv \<Rightarrow> byte list \<Rightarrow> bytes \<Rightarrow> u32 \<Rightarrow> Server \<Rightarrow> Server option" where
  "sess_bulk lb en usable ct sid sv = do {
     s \<leftarrow> lookupSession sid sv;
     (m, i) \<leftarrow> sess_weighted usable s;
     let sv = upd_session sid (\<lambda>s. s\<lparr>sWsched := m\<rparr>) sv;
         prob = DropProb (sLink (ps_at s i)) in
     if prob > 0 \<and> dice en < prob then Some (bump (\<lambda>s. s\<lparr>AQMDrops := AQMDrops s + 1\<rparr>) sv)
     else (let seq = sGlobalSeq s + 1;
               sv = upd_session sid (\<lambda>s. s\<lparr>sGlobalSeq := seq\<rparr>) sv in
       case sFecEnc s of
         None \<Rightarrow> serverSendData en sid i ClassBulk False seq (us en) noTag ct sv
       | Some enc \<Rightarrow>
           (let (enc, tg, qs) = Add (rs_enc lb) seq ct (now_at en 1) enc;
                tag = (case tg of None \<Rightarrow> noTag | Some (g, x) \<Rightarrow> \<lparr>tag_on = True, tag_group = g, tag_index = x\<rparr>) in do {
              sv \<leftarrow> sess_parity en 0 sid qs (upd_session sid (\<lambda>s. s\<lparr>sFecEnc := Some enc\<rparr>) sv);
              serverSendData en sid i ClassBulk False seq (us en) tag ct sv
            }))
   }"

definition server_send_one :: "lib \<Rightarrow> senv \<Rightarrow> bytes \<Rightarrow> u32 \<Rightarrow> Server \<Rightarrow> Server option" where
  "server_send_one lb en ct sid sv = do {
     s \<leftarrow> lookupSession sid sv;
     let alive = alivePaths en 0 (now en) s;
         live = filter (\<lambda>i. up (sLink (ps_at s i))) alive;
         usable = (if live = [] then alive else live) in
     if usable = [] then Some (bump (\<lambda>s. s\<lparr>TxDropNoPath := TxDropNoPath s + 1\<rparr>) sv)
     else do {
       (sv, class) \<leftarrow> classifyCt ct sv;
       let seq = sRtSeq s + 1;
           counted = upd_session sid (\<lambda>s. s\<lparr>sRtSeq := seq\<rparr>) sv in
       if length usable = 1 \<and> class \<noteq> ClassBulk
       then serverSendData en sid (usable ! 0) class False seq (us en) noTag ct counted
       else if class = ClassRealtime \<or> class = ClassInteractive then
         (let (first, second) = BestPair (map (\<lambda>i. Link.Snapshot (sLink (ps_at s i))) usable) in
          if first < 0 then sess_bulk lb en usable ct sid sv
          else do {
            i \<leftarrow> idx usable (nat first);
            sv \<leftarrow> serverSendData en sid i class False seq (us en) noTag ct counted;
            if class = ClassRealtime \<and> second \<ge> 0
            then do {
              j \<leftarrow> idx usable (nat second);
              serverSendData en sid j class True seq (us_at en 1) noTag ct sv
            }
            else Some sv
          })
       else sess_bulk lb en usable ct sid sv
     }
   }"

fun server_batch :: "lib \<Rightarrow> (bytes \<times> senv) list \<Rightarrow> u32 \<Rightarrow> Server \<Rightarrow> Server option" where
  "server_batch lb [] sid sv = Some sv"
| "server_batch lb ((ct, en) # bufs) sid sv = Option.bind (server_send_one lb en ct sid sv) (server_batch lb bufs sid)"

definition serverSend :: "lib \<Rightarrow> (bytes \<times> senv) list \<Rightarrow> SessionEndpoint \<Rightarrow> Server \<Rightarrow> Server option" where
  "serverSend lb bufs ep sv =
     (case lookupSession ep sv of
        None \<Rightarrow> Some (bump (\<lambda>s. s\<lparr>TxDropNoPath := TxDropNoPath s + of_nat (length bufs)\<rparr>) sv)
      | Some _ \<Rightarrow> server_batch lb bufs ep sv)"

section \<open>Ticker loops\<close>

fun each_session :: "(u32 \<Rightarrow> Server \<Rightarrow> Server option) \<Rightarrow> u32 list \<Rightarrow> Server \<Rightarrow> Server option" where
  "each_session f [] sv = Some sv"
| "each_session f (sid # sids) sv = Option.bind (f sid sv) (each_session f sids)"

definition flush_session :: "lib \<Rightarrow> senv \<Rightarrow> (u32 \<Rightarrow> senv) \<Rightarrow> u32 \<Rightarrow> Server \<Rightarrow> Server option" where
  "flush_session lb en ens sid sv = do {
     s \<leftarrow> lookupSession sid sv;
     case sFecEnc s of
       None \<Rightarrow> Some sv
     | Some enc \<Rightarrow>
         (let (enc, qs) = Flush (rs_enc lb) (now en) enc
          in sess_parity (ens sid) 0 sid qs (upd_session sid (\<lambda>s. s\<lparr>sFecEnc := Some enc\<rparr>) sv))
   }"

definition server_flush_tick :: "lib \<Rightarrow> senv \<Rightarrow> (u32 \<Rightarrow> senv) \<Rightarrow> Server \<Rightarrow> Server option" where
  "server_flush_tick lb en ens sv = each_session (flush_session lb en ens) (allSessions en sv) sv"

definition reap_session :: "senv \<Rightarrow> u32 \<Rightarrow> Server \<Rightarrow> Server option" where
  "reap_session en sid sv = do {
     s \<leftarrow> lookupSession sid sv;
     if lastSeen s < i64 (now en - sessionTimeout)
     then close_session s (sv\<lparr>sessions := AList.delete sid (sessions sv)\<rparr>)
     else Some sv
   }"

definition reaper_tick :: "senv \<Rightarrow> Server \<Rightarrow> Server option" where
  "reaper_tick en sv = each_session (reap_session en) (allSessions en sv) sv"

definition probe_alive :: "lib \<Rightarrow> timestamp \<Rightarrow> senv \<Rightarrow> int \<Rightarrow> u32 \<Rightarrow> byte \<Rightarrow> Server \<Rightarrow> Server option" where
  "probe_alive lb t en tick sid i sv = do {
     s \<leftarrow> lookupSession sid sv;
     let ps = ps_at s i in
     if \<not> up (sLink ps) \<and> remq tick 10 \<noteq> 0 then Some sv
     else (let (l, seq, wentDown) = OnProbeSent t (sLink ps);
               sv = upd_session sid (upd_ps i (\<lambda>ps. ps\<lparr>sLink := l\<rparr>)) sv in do {
       d \<leftarrow> EncodeProbe (blake_of lb) \<lparr>Type = 0, Flags = 0, PathID = ps_id ps, Epoch = 0\<rparr>
              \<lparr>PSession = SID s, PSeq = seq, PTxTS = us_at en (unat i)\<rparr> (mac sv);
       Some (fst (write_to en (addr ps) d sv))
     })
   }"

fun probe_all :: "lib \<Rightarrow> timestamp \<Rightarrow> senv \<Rightarrow> int \<Rightarrow> u32 \<Rightarrow> byte list \<Rightarrow> Server \<Rightarrow> Server option" where
  "probe_all lb t en tick sid [] sv = Some sv"
| "probe_all lb t en tick sid (i # is') sv =
     Option.bind (probe_alive lb t en tick sid i sv) (probe_all lb t en tick sid is')"

definition sess_stats :: "pathState \<Rightarrow> rx_report \<Rightarrow> PathStats" where
  "sess_stats ps r = \<lparr>SPathID = ps_id ps, Highest = rep_highest r, RxPkts = rep_pkts r, RxBytes = rep_bytes r,
     OwdMinUS = rep_owdMin r, OwdAvgUS = rep_owdAvg r\<rparr>"

fun report_alive :: "byte list \<Rightarrow> Session \<Rightarrow> Session \<times> PathStats list" where
  "report_alive [] s = (s, [])"
| "report_alive (i # is') s =
     (let (rx, r) = Report (sRx (ps_at s i));
          (s', rs) = report_alive is' (upd_ps i (\<lambda>ps. ps\<lparr>sRx := rx\<rparr>) s)
      in (s', (case r of None \<Rightarrow> rs | Some r \<Rightarrow> sess_stats (ps_at s i) r # rs)))"

definition best_scan :: "Session \<Rightarrow> byte option \<times> duration \<Rightarrow> byte \<Rightarrow> byte option \<times> duration" where
  "best_scan s = (\<lambda>(best, bestSRTT) i.
     let sn = Link.Snapshot (sLink (ps_at s i)) in
     if \<not> Up sn then (best, bestSRTT)
     else if best = None \<or> (SRTT sn > 0 \<and> SRTT sn < bestSRTT) then (Some i, SRTT sn) else (best, bestSRTT))"

definition newest_scan :: "Session \<Rightarrow> byte option \<Rightarrow> byte \<Rightarrow> byte option" where
  "newest_scan s newest i =
     (case newest of
        None \<Rightarrow> Some i
      | Some j \<Rightarrow> if lastRx (ps_at s i) > lastRx (ps_at s j) then Some i else newest)"

definition bestServerCtrlPath :: "Session \<Rightarrow> byte list \<Rightarrow> byte option" where
  "bestServerCtrlPath s alive =
     (case fst (foldl (best_scan s) (None, 0) alive) of
        Some i \<Rightarrow> Some i
      | None \<Rightarrow> foldl (newest_scan s) None alive)"

definition sess_retune :: "Params \<Rightarrow> timestamp \<Rightarrow> int \<Rightarrow> byte list \<Rightarrow> Session \<Rightarrow> Session" where
  "sess_retune force t tick alive s =
     (let s = (if remq tick 5 = 0
               then (let h = ComputeHold (List.map_filter (\<lambda>i. OwdView t (3 * Second) (sRx (ps_at s i))) alive)
                     in if h > 0 then s\<lparr>sReorder := SetHold h (sReorder s)\<rparr> else s)
               else s)
      in if remq tick 20 = 0
         then s\<lparr>sFecEnc := retuneFEC force (map (\<lambda>i. Link.Snapshot (sLink (ps_at s i))) alive) (sFecEnc s)\<rparr>
         else s)"

text \<open>The receiver report of a session, with the packet totals last reported.\<close>

definition report_session :: "lib \<Rightarrow> timestamp \<Rightarrow> senv \<Rightarrow> int \<Rightarrow> byte list \<Rightarrow> u32 \<Rightarrow> (u32 \<Rightarrow> u32) \<times> Server \<Rightarrow>
    ((u32 \<Rightarrow> u32) \<times> Server) option" where
  "report_session lb t en tick alive sid = (\<lambda>(last, sv). do {
     s \<leftarrow> lookupSession sid sv;
     let (s, recs) = report_alive alive s;
         sv = upd_session sid (\<lambda>_. s) sv;
         total = sum_list (map RxPkts recs) in
     if recs = [] then Some (last, sv)
     else if total = last (SID s) \<and> remq tick 5 \<noteq> 0 then Some (last, sv)
     else (let last = last(SID s := total) in
       case bestServerCtrlPath s alive of
         None \<Rightarrow> Some (last, sv)
       | Some best \<Rightarrow> do {
           d \<leftarrow> EncodeCtrl (blake_of lb) \<lparr>Type = 0, Flags = 0, PathID = ps_id (ps_at s best), Epoch = 0\<rparr>
                  \<lparr>CSession = SID s, Paths = recs\<rparr> (mac sv);
           let sv = fst (write_to en (addr (ps_at s best)) d sv);
               sv = upd_session sid (sess_retune (fecForce sv) t tick alive) sv in
           Some (last, sv)
         })
   })"

definition control_session :: "lib \<Rightarrow> timestamp \<Rightarrow> (u32 \<Rightarrow> senv) \<Rightarrow> int \<Rightarrow> u32 \<Rightarrow> (u32 \<Rightarrow> u32) \<times> Server \<Rightarrow>
    ((u32 \<Rightarrow> u32) \<times> Server) option" where
  "control_session lb t ens tick sid = (\<lambda>(last, sv). do {
     s \<leftarrow> lookupSession sid sv;
     let alive = alivePaths (ens sid) 0 t s in
     if alive = [] then Some (last, sv)
     else do {
       sv \<leftarrow> (if remq tick 2 = 0 then probe_all lb t (ens sid) tick sid alive sv else Some sv);
       report_session lb t (ens sid) tick alive sid (last, sv)
     }
   })"

fun control_sessions :: "lib \<Rightarrow> timestamp \<Rightarrow> (u32 \<Rightarrow> senv) \<Rightarrow> int \<Rightarrow> u32 list \<Rightarrow> (u32 \<Rightarrow> u32) \<times> Server \<Rightarrow>
    ((u32 \<Rightarrow> u32) \<times> Server) option" where
  "control_sessions lb t ens tick [] r = Some r"
| "control_sessions lb t ens tick (sid # sids) r =
     Option.bind (control_session lb t ens tick sid r) (control_sessions lb t ens tick sids)"

record server_vars =
  stick :: int
  lastRxOf :: "u32 \<Rightarrow> u32"

definition server_control_tick :: "lib \<Rightarrow> senv \<Rightarrow> (u32 \<Rightarrow> senv) \<Rightarrow> server_vars \<Rightarrow> Server \<Rightarrow> (server_vars \<times> Server) option" where
  "server_control_tick lb en ens v sv =
     (let tick = i64 (stick v + 1) in do {
        (last, sv) \<leftarrow> control_sessions lb (now en) ens tick (allSessions en sv) (lastRxOf v, sv);
        Some (\<lparr>stick = tick, lastRxOf = last\<rparr>, sv)
      })"

section \<open>Timers and shutdown\<close>

definition sess_timer :: "senv \<Rightarrow> u32 \<Rightarrow> Server \<Rightarrow> Server option" where
  "sess_timer en sid sv =
     (case lookupSession sid sv of
        None \<Rightarrow> Some sv
      | Some s \<Rightarrow> do {
          (b, os) \<leftarrow> onTimer (now en) (sReorder s);
          run_outs sid os (upd_session sid (\<lambda>s. s\<lparr>sReorder := b\<rparr>) sv)
        })"

definition stop_session :: "u32 \<Rightarrow> Server \<Rightarrow> Server option" where
  "stop_session sid sv = do {
     s \<leftarrow> lookupSession sid sv;
     let (b, os) = Reorder.Close (sReorder s) in
     run_outs sid os (upd_session sid (\<lambda>s. s\<lparr>sReorder := b\<rparr>) sv)
   }"

definition CloseServer :: "senv \<Rightarrow> Server \<Rightarrow> Server option" where
  "CloseServer en sv = each_session stop_session (allSessions en sv) sv"

end
