(* ===== verification/ServerSafety.thy ===== *)
theory ServerSafety
  imports ClientSafety Server
begin

text \<open>
  No handler of the server panics, and no slab is lost or given back twice. The books of
  \<open>ClientSafety\<close> are kept with the packets in the reorder buffers of all sessions.
\<close>

section \<open>Calls that return\<close>

definition yields :: "('a \<Rightarrow> bool) \<Rightarrow> 'a option \<Rightarrow> bool" where
  "yields P r \<longleftrightarrow> (\<exists>x. r = Some x \<and> P x)"

lemma yields_simps [simp]: "yields P (Some x) = P x" "\<not> yields P None"
  by (simp_all add: yields_def)

lemma yields_bind: "yields P r \<Longrightarrow> (\<And>x. P x \<Longrightarrow> yields Q (f x)) \<Longrightarrow> yields Q (Option.bind r f)"
  by (auto simp: yields_def)

section \<open>The invariant of the server\<close>

definition sess_loans :: "(u32 \<times> Session) list \<Rightarrow> loan multiset" where
  "sess_loans ss = sum_list (map (\<lambda>(_, s). loans_of (held (sReorder s))) ss)"

lemma sess_loans_simps [simp]:
  "sess_loans [] = {#}" "sess_loans (p # ss) = loans_of (held (sReorder (snd p))) + sess_loans ss"
  by (simp_all add: sess_loans_def split: prod.split)

definition session_ok :: "u32 \<Rightarrow> Session \<Rightarrow> bool" where
  "session_ok sid s \<longleftrightarrow> SID s = sid \<and> reorder_inv (sReorder s) \<and> (\<forall>p \<in># held (sReorder s). packet_ok p)"

definition server_inv :: "nat \<Rightarrow> loan multiset \<Rightarrow> Server \<Rightarrow> bool" where
  "server_inv insp X sv \<longleftrightarrow> distinct (map fst (sessions sv)) \<and> (\<forall>(sid, s) \<in> set (sessions sv). session_ok sid s) \<and>
     inspected_below insp sv \<and> balanced (sess_loans (sessions sv) + X) sv"

abbreviation ids :: "Server \<Rightarrow> u32 set" where
  "ids sv \<equiv> fst ` set (sessions sv)"

text \<open>A state with the invariant that has the sessions \<open>ks\<close>.\<close>

definition good :: "nat \<Rightarrow> loan multiset \<Rightarrow> u32 set \<Rightarrow> Server \<Rightarrow> bool" where
  "good insp X ks sv \<longleftrightarrow> server_inv insp X sv \<and> ids sv = ks"

lemma lookup_iff: "(\<exists>s. lookupSession sid sv = Some s) \<longleftrightarrow> sid \<in> ids sv"
  by (metis lookupSession_def map_of_eq_None_iff not_None_eq)

lemma good_lookup:
  assumes "good insp X ks sv" "sid \<in> ks"
  obtains s where "lookupSession sid sv = Some s" "session_ok sid s"
  using assms lookup_iff [of sid sv] by (fastforce simp: good_def server_inv_def lookupSession_def dest: map_of_SomeD)

lemma lookup_ok: "good insp X ks sv \<Longrightarrow> lookupSession sid sv = Some s \<Longrightarrow> session_ok sid s \<and> sid \<in> ks"
  by (force simp: good_def server_inv_def lookupSession_def dest: map_of_SomeD)

lemma ids_map_entry [simp]: "map fst (AList.map_entry k f xs) = map fst xs"
  by (induction xs) auto

lemma upd_session_ids [simp]: "ids (upd_session sid f sv) = ids sv"
  by (simp add: upd_session_def flip: set_map)

text \<open>Fields outside the invariant.\<close>

lemma good_frame [simp]:
  "good insp X ks (bump f sv) = good insp X ks sv"
  "good insp X ks (sv\<lparr>sent := ss\<rparr>) = good insp X ks sv"
  "good insp X ks (sv\<lparr>correlator := co\<rparr>) = good insp X ks sv"
  by (simp_all add: good_def server_inv_def balanced_def inspected_below_def bump_def)

lemma write_to_frame: "write_to en a d sv = (sv', ok) \<Longrightarrow> good insp X ks sv' = good insp X ks sv"
  by (auto simp: write_to_def split: if_splits)

lemma write_to_fst [simp]: "good insp X ks (fst (write_to en a d sv)) = good insp X ks sv"
  by (simp add: write_to_def)

definition quiet :: "(Session \<Rightarrow> Session) \<Rightarrow> bool" where
  "quiet f \<longleftrightarrow> (\<forall>s. SID (f s) = SID s \<and> sReorder (f s) = sReorder s)"

lemma map_entry_const: "map_of ss sid = Some s \<Longrightarrow> AList.map_entry sid (\<lambda>_. f s) ss = AList.map_entry sid f ss"
  by (induction ss) (auto split: if_splits)

lemma upd_session_const: "lookupSession sid sv = Some s \<Longrightarrow> upd_session sid (\<lambda>_. f s) sv = upd_session sid f sv"
  by (simp add: lookupSession_def upd_session_def map_entry_const)

lemma quiet_map_entry:
  "quiet f \<Longrightarrow> sess_loans (AList.map_entry sid f ss) = sess_loans ss"
  "quiet f \<Longrightarrow> (\<forall>(sid, s) \<in> set (AList.map_entry sid' f ss). session_ok sid s) = (\<forall>(sid, s) \<in> set ss. session_ok sid s)"
  by (induction ss) (auto simp: quiet_def session_ok_def)

lemma good_quiet [simp]: "quiet f \<Longrightarrow> good insp X ks (upd_session sid f sv) = good insp X ks sv"
  using quiet_map_entry [of f] upd_session_ids [of sid f sv]
  by (auto simp: good_def server_inv_def upd_session_def balanced_def inspected_below_def)

lemma quiet_updates [simp]:
  "quiet (\<lambda>s. s\<lparr>sWsched := m\<rparr>)" "quiet (\<lambda>s. s\<lparr>sGlobalSeq := n\<rparr>)" "quiet (\<lambda>s. s\<lparr>sRtSeq := n\<rparr>)"
  "quiet (\<lambda>s. s\<lparr>sPathSeq := g s\<rparr>)" "quiet (\<lambda>s. s\<lparr>sFecEnc := enc\<rparr>)" "quiet (\<lambda>s. s\<lparr>sFecDec := dec\<rparr>)"
  "quiet (upd_ps i f)" "quiet (touchPath i a t)"
  "quiet (\<lambda>s. (touchPath i a t s)\<lparr>lastSeen := z\<rparr>)"
  "quiet (\<lambda>s. (upd_ps i f (touchPath i a t s))\<lparr>lastSeen := z\<rparr>)"
  by (simp_all add: quiet_def upd_ps_def touchPath_def Let_def)

lemma quiet_ctrl [simp]: "quiet (onServerCtrl t sts)"
proof -
  have "SID (onServerCtrl t sts s) = SID s \<and> sReorder (onServerCtrl t sts s) = sReorder s" for s
    by (induction t sts s rule: onServerCtrl.induct) (simp_all add: upd_ps_def)
  then show ?thesis by (simp add: quiet_def)
qed

lemma good_take: "good insp X ks sv \<Longrightarrow> take_slab sv = (sv', l) \<Longrightarrow> good insp (add_mset l X) ks sv'"
  by (auto simp: take_slab_def good_def server_inv_def inspected_below_def dest: balanced_take)

lemma good_give: "good insp (mset ls + X) ks sv \<Longrightarrow> good insp X ks (give_back ls sv)"
  using balanced_give [of ls "sess_loans (sessions sv) + X" sv]
  by (simp add: good_def server_inv_def inspected_below_def give_back_def ac_simps)

lemma good_give_one: "good insp (add_mset l X) ks sv \<Longrightarrow> good insp X ks (give_back [l] sv)"
  by (rule good_give) simp

lemma only_up_sessions: "only_up sv sv' \<Longrightarrow> sessions sv' = sessions sv \<and> classifier sv' = classifier sv \<and> mac sv' = mac sv"
  by (cases sv, cases sv') (simp add: only_up_def)

lemma good_only_up:
  assumes "good insp Y ks sv" "balanced (sess_loans (sessions sv) + X) sv'" "only_up sv sv'"
  shows "good insp X ks sv'"
  using assms only_up_sessions [OF assms(3)] by (simp add: good_def server_inv_def inspected_below_def)

section \<open>Reorder buffers of the sessions\<close>

lemma sess_loans_update:
  "map_of ss sid = Some s \<Longrightarrow>
   sess_loans (AList.map_entry sid f ss) + loans_of (held (sReorder s)) = sess_loans ss + loans_of (held (sReorder (f s)))"
  by (induction ss) (auto simp: ac_simps split: if_splits)

lemma sess_loans_delete:
  "map_of ss sid = Some s \<Longrightarrow> distinct (map fst ss) \<Longrightarrow>
   sess_loans (AList.delete sid ss) + loans_of (held (sReorder s)) = sess_loans ss"
proof (induction ss)
  case (Cons p ss)
  show ?case
  proof (cases "fst p = sid")
    case True
    then have "sid \<notin> fst ` set ss" using Cons.prems(2) by auto
    then show ?thesis
      using True Cons.prems by (simp add: ac_simps)
  qed (use Cons in \<open>auto simp: ac_simps\<close>)
qed simp

lemma set_delete: "set (AList.delete k xs) = {p \<in> set xs. fst p \<noteq> k}"
  by (auto simp: AList.delete_eq)

lemma map_entry_ok:
  "\<forall>(sid, s) \<in> set ss. session_ok sid s \<Longrightarrow> map_of ss sid = Some s \<Longrightarrow> session_ok sid (f s) \<Longrightarrow>
   \<forall>(sid, s) \<in> set (AList.map_entry sid f ss). session_ok sid s"
  by (induction ss) (auto split: if_splits)

text \<open>An operation of a session's buffer followed by its callbacks.\<close>

lemma sess_call:
  assumes g: "good insp (loans_of V + X) ks sv" and s: "lookupSession sid sv = Some s"
    and st: "step_ok V (sReorder s) b os" and V: "\<forall>p \<in># V. packet_ok p"
  shows "yields (good insp X ks) (run_outs ep os (upd_session sid (\<lambda>s. s\<lparr>sReorder := b\<rparr>) sv))"
proof -
  let ?f = "\<lambda>s::Session. s\<lparr>sReorder := b\<rparr>"
  let ?sv = "upd_session sid ?f sv"
  have b: "reorder_inv b" "V + held (sReorder s) = out_vals os + held b"
    using st by (simp_all add: step_ok_def)
  have so: "session_ok sid s" using lookup_ok [OF g s] by simp
  then have p: "\<forall>p \<in># out_vals os + held b. packet_ok p"
    using V b(2) by (metis session_ok_def union_iff)
  have m: "map_of (sessions sv) sid = Some s" using s by (simp add: lookupSession_def)
  have l: "loans_of V + loans_of (held (sReorder s)) = loans_of (out_vals os) + loans_of (held b)"
    using arg_cong [OF b(2), of loans_of] by simp
  have "sess_loans (sessions ?sv) + loans_of (held (sReorder s)) = sess_loans (sessions sv) + loans_of (held b)"
    using sess_loans_update [OF m, of ?f] by (simp add: upd_session_def)
  with l have "loans_of V + sess_loans (sessions sv) + (loans_of (held (sReorder s)) + loans_of (held b)) =
      loans_of (out_vals os) + sess_loans (sessions ?sv) + (loans_of (held (sReorder s)) + loans_of (held b))"
    by (metis (no_types, lifting) add.assoc add.commute)
  then have "loans_of V + sess_loans (sessions sv) = loans_of (out_vals os) + sess_loans (sessions ?sv)"
    by simp
  then have "balanced (loans_of (out_vals os) + (sess_loans (sessions ?sv) + X)) ?sv"
    using g by (simp add: good_def server_inv_def balanced_def upd_session_def ac_simps)
  then obtain sv' where r: "run_outs ep os ?sv = Some sv'" "balanced (sess_loans (sessions ?sv) + X) sv'" "only_up ?sv sv'"
    using run_outs_ok p by (metis union_iff)
  have "session_ok sid (?f s)"
    using so b(1) p by (simp add: session_ok_def)
  then have "\<forall>(sid, s) \<in> set (sessions ?sv). session_ok sid s"
    using map_entry_ok [OF _ m, of ?f] g by (simp add: good_def server_inv_def upd_session_def)
  then show ?thesis
    using r only_up_sessions [OF r(3)] upd_session_ids [of sid ?f sv] g
    by (auto simp: good_def server_inv_def inspected_below_def upd_session_def)
qed

lemma sess_push_ok:
  assumes "good insp (mset (Release pkt) + X) ks sv" "packet_ok pkt" "sid \<in> ks"
  shows "yields (good insp X ks) (sess_push t sid seq pkt sv)"
proof -
  obtain s where s: "lookupSession sid sv = Some s" "session_ok sid s"
    using good_lookup [OF assms(1,3)] .
  obtain b os where p: "Push t seq pkt (sReorder s) = (b, os)" by fastforce
  have "step_ok {#pkt#} (sReorder s) b os"
    using Push_ok(1) [OF _ p] s(2) by (simp add: session_ok_def)
  with sess_call [of insp "{#pkt#}" X ks sv sid s b os sid] assms s(1) p show ?thesis
    by (simp add: sess_push_def)
qed

lemma sess_recovered_ok:
  "good insp X ks sv \<Longrightarrow> sid \<in> ks \<Longrightarrow> yields (good insp X ks) (sess_recovered en sid rs sv)"
proof (induction rs arbitrary: sv)
  case (Cons r rs)
  obtain seq ct where r: "r = (seq, ct)" by (cases r)
  obtain sv1 l where t: "take_slab sv = (sv1, l)" by fastforce
  let ?pkt = "\<lparr>Slab = Some (l, fill_slab (dirty en) ct), Off = 0, Len = min SlabSize (length ct)\<rparr>"
  have "good insp (mset (Release ?pkt) + X) ks sv1"
    using good_take [OF Cons.prems(1) t] by (simp add: Release_def)
  then have "yields (good insp X ks) (sess_push (now en) sid seq ?pkt sv1)"
    using Cons.prems(2) by (intro sess_push_ok) (simp_all add: packet_ok_def)
  then have "yields (good insp X ks) (Option.bind (sess_push (now en) sid seq ?pkt sv1) (sess_recovered en sid rs))"
    by (rule yields_bind) (rule Cons.IH [OF _ Cons.prems(2)])
  then show ?case
    by (simp add: r t)
qed simp

lemma close_session_ok:
  assumes g: "good insp X ks sv" and s: "lookupSession sid sv = Some s"
    and s': "SID s' = SID s" "sReorder s' = sReorder s"
  shows "yields (good insp X (ks - {sid})) (close_session s' (sv\<lparr>sessions := AList.delete sid (sessions sv)\<rparr>))"
proof -
  let ?sv = "sv\<lparr>sessions := AList.delete sid (sessions sv)\<rparr>"
  obtain b os where o: "Reorder.Close (sReorder s) = (b, os)" by fastforce
  have so: "session_ok sid s" using lookup_ok [OF g s] by simp
  have st: "step_ok {#} (sReorder s) b os" and e: "held b = {#}"
    using Close_ok [OF _ o] so by (simp_all add: session_ok_def)
  have v: "held (sReorder s) = out_vals os"
    using st e by (simp add: step_ok_def)
  have m: "map_of (sessions sv) sid = Some s" using s by (simp add: lookupSession_def)
  have "balanced (loans_of (out_vals os) + (sess_loans (sessions ?sv) + X)) ?sv"
    using g sess_loans_delete [OF m] v by (simp add: good_def server_inv_def balanced_def ac_simps)
  moreover have "\<forall>p \<in># out_vals os. packet_ok p"
    using so v by (simp add: session_ok_def)
  ultimately obtain sv' where r: "run_outs (SID s) os ?sv = Some sv'"
      "balanced (sess_loans (sessions ?sv) + X) sv'" "only_up ?sv sv'"
    using run_outs_ok by blast
  then show ?thesis
    using only_up_sessions [OF r(3)] g s'
    by (auto simp: close_session_def o good_def server_inv_def inspected_below_def distinct_delete set_delete)
qed

section \<open>Sending\<close>

lemma sess_weighted_ok:
  assumes "cs \<noteq> []"
  shows "\<exists>m i. sess_weighted cs s = Some (m, i) \<and> i \<in> set cs"
proof (cases "length cs > 1")
  case True
  then show ?thesis
    using Pick_range [of "map (\<lambda>i. Weight (sLink (ps_at s i))) cs" "map (\<lambda>i. ps_id (ps_at s i)) cs" "sWsched s"]
    by (auto simp: sess_weighted_def idx_def nat_less_iff)
qed (use assms in \<open>auto simp: sess_weighted_def idx_def\<close>)

lemma serverSendData_ok:
  assumes "good insp X ks sv" "sid \<in> ks"
  shows "yields (good insp X ks) (serverSendData en sid i class dup seq clock tag ct sv)"
proof -
  obtain s where s: "lookupSession sid sv = Some s" using good_lookup [OF assms] .
  obtain sv1 l where t: "take_slab sv = (sv1, l)" by fastforce
  let ?d = "sess_header s (ps_at s i) class dup seq (ucast clock) tag"
  let ?sv = "upd_session sid (\<lambda>s'. s'\<lparr>sPathSeq := (sPathSeq s')(ps_id (ps_at s i) := sPathSeq s' (ps_id (ps_at s i)) + 1)\<rparr>) sv1"
  have put: "PutDataHeader (Get (dirty en)) ?d = Some (data_layout ?d @ drop (DataLen ?d) (Get (dirty en)), DataLen ?d)"
    using DataLen_le [of ?d] by (intro PutDataHeader_layout) simp
  obtain sv2 ok where w: "write_to en (addr (ps_at s i)) (data_layout ?d @ ct) ?sv = (sv2, ok)" by fastforce
  have "good insp (add_mset l X) ks sv2"
    using write_to_frame [OF w, of insp "add_mset l X" ks] good_take [OF assms(1) t] by simp
  then show ?thesis
    using good_take [OF assms(1) t]
    by (auto simp: serverSendData_def Let_def s t put w sent_ok_def intro!: good_give_one)
qed

lemma serverEmitParity_ok:
  assumes "good insp X ks sv" "sid \<in> ks"
  shows "yields (good insp X ks) (serverEmitParity en k sid q sv)"
proof -
  obtain s where s: "lookupSession sid sv = Some s" using good_lookup [OF assms] .
  let ?alive = "alivePaths en (Suc k) (now_at en (Suc (Suc k))) s"
  show ?thesis
  proof (cases "?alive = []")
    case False
    obtain m i where w: "sess_weighted ?alive s = Some (m, i)"
      using sess_weighted_ok [OF False] by blast
    obtain sv1 l where t: "take_slab (upd_session sid (\<lambda>s. s\<lparr>sWsched := m\<rparr>) sv) = (sv1, l)" by fastforce
    have k: "good insp (add_mset l X) ks sv1"
      using good_take [OF _ t] assms(1) by simp
    let ?f = "\<lparr>FHeader = \<lparr>Type = 0, Flags = 0, PathID = ps_id (ps_at s i), Epoch = 0\<rparr>, FSession = SID s,
                FGroup = p_group q, FIndex = p_index q, FK = p_k q, FM = p_m q,
                ShardLen = of_nat (length (p_shard q))\<rparr>"
    obtain b where put: "PutFECHeader (Get (dirty en)) ?f = Some (b, 16)"
      using PutFECHeader_layout [of "Get (dirty en)" ?f] by simp
    obtain sv2 ok where x: "write_to en (addr (ps_at s i)) (take 16 b @ p_shard q) sv1 = (sv2, ok)" by fastforce
    show ?thesis
      using k write_to_frame [OF x, of insp "add_mset l X" ks] False
      by (auto simp: serverEmitParity_def Let_def s w t put x sent_ok_def intro!: good_give_one)
  qed (use assms s in \<open>simp add: serverEmitParity_def\<close>)
qed

lemma sess_parity_ok:
  "good insp X ks sv \<Longrightarrow> sid \<in> ks \<Longrightarrow> yields (good insp X ks) (sess_parity en k sid qs sv)"
proof (induction qs arbitrary: k sv)
  case (Cons q qs)
  show ?case
    using yields_bind [OF serverEmitParity_ok [OF Cons.prems] Cons.IH [OF _ Cons.prems(2)]] by simp
qed simp

lemma sess_bulk_ok:
  assumes "good insp X ks sv" "sid \<in> ks" "usable \<noteq> []"
  shows "yields (good insp X ks) (sess_bulk lb en usable ct sid sv)"
proof -
  obtain s where s: "lookupSession sid sv = Some s" using good_lookup [OF assms(1,2)] .
  obtain m i where w: "sess_weighted usable s = Some (m, i)"
    using sess_weighted_ok [OF assms(3)] by blast
  let ?sv = "upd_session sid (\<lambda>s'. s'\<lparr>sGlobalSeq := sGlobalSeq s + 1\<rparr>) (upd_session sid (\<lambda>s. s\<lparr>sWsched := m\<rparr>) sv)"
  have g: "good insp X ks ?sv" using assms(1) by simp
  have p: "yields (good insp X ks) (Option.bind (sess_parity en 0 sid qs (upd_session sid (\<lambda>s. s\<lparr>sFecEnc := enc\<rparr>) ?sv))
      (serverSendData en sid i ClassBulk False (sGlobalSeq s + 1) (us en) tag ct))" for qs enc tag
    using sess_parity_ok [of insp X ks "upd_session sid (\<lambda>s. s\<lparr>sFecEnc := enc\<rparr>) ?sv"] g assms(2)
    by (intro yields_bind [OF _ serverSendData_ok [OF _ assms(2)]]) simp_all
  show ?thesis
    using assms(1) serverSendData_ok [OF g assms(2)] p
    by (auto simp: sess_bulk_def s w Let_def split: option.split prod.split)
qed

lemma lookup_correlator [simp]: "lookupSession sid (sv\<lparr>correlator := co\<rparr>) = lookupSession sid sv"
  by (simp add: lookupSession_def)

lemma server_send_one_ok:
  assumes "good insp X ks sv" "sid \<in> ks"
  shows "yields (good insp X ks) (server_send_one lb en ct sid sv)"
proof -
  obtain s where s: "lookupSession sid sv = Some s" using good_lookup [OF assms] .
  let ?alive = "alivePaths en 0 (now en) s"
  let ?live = "filter (\<lambda>i. up (sLink (ps_at s i))) ?alive"
  let ?us = "if ?live = [] then ?alive else ?live"
  obtain co cl where c: "classifyCt ct sv = Some (sv\<lparr>correlator := co\<rparr>, cl)"
    using classifyCt_ok by blast
  let ?r = "upd_session sid (\<lambda>s'. s'\<lparr>sRtSeq := sRtSeq s + 1\<rparr>) (sv\<lparr>correlator := co\<rparr>)"
  have g: "good insp X ks (sv\<lparr>correlator := co\<rparr>)" "good insp X ks ?r" using assms(1) by simp_all
  let ?snaps = "map (\<lambda>i. Link.Snapshot (sLink (ps_at s i))) ?us"
  obtain f h where fg: "BestPair ?snaps = (f, h)" by fastforce
  have range: "0 \<le> f \<Longrightarrow> nat f < length ?us" "0 \<le> h \<Longrightarrow> nat h < length ?us"
    using best_up_range [OF BestPair_best(1) [of ?snaps]] best_up_range [OF BestPair_best(2) [of ?snaps]] fg by simp_all
  have two: "yields (good insp X ks) (Option.bind (serverSendData en sid a cl False seq (us en) noTag ct ?r)
      (serverSendData en sid b cl True seq (us_at en 1) noTag ct))" for a b seq
    using yields_bind [OF serverSendData_ok [OF g(2) assms(2)] serverSendData_ok [OF _ assms(2)]] by simp
  have one: "yields (good insp X ks) (serverSendData en sid a cl False seq (us en) noTag ct ?r)" for a seq
    using serverSendData_ok [OF g(2) assms(2)] by simp
  show ?thesis
  proof (cases "?us = []")
    case False
    note bulk = sess_bulk_ok [OF g(1) assms(2) False]
    have *: "server_send_one lb en ct sid sv =
      (if length ?us = 1 \<and> cl \<noteq> ClassBulk then serverSendData en sid (?us ! 0) cl False (sRtSeq s + 1) (us en) noTag ct ?r
       else if cl = ClassRealtime \<or> cl = ClassInteractive then
         (if f < 0 then sess_bulk lb en ?us ct sid (sv\<lparr>correlator := co\<rparr>)
          else Option.bind (idx ?us (nat f)) (\<lambda>i.
            Option.bind (serverSendData en sid i cl False (sRtSeq s + 1) (us en) noTag ct ?r) (\<lambda>sv.
              if cl = ClassRealtime \<and> h \<ge> 0
              then Option.bind (idx ?us (nat h)) (\<lambda>j. serverSendData en sid j cl True (sRtSeq s + 1) (us_at en 1) noTag ct sv)
              else Some sv)))
       else sess_bulk lb en ?us ct sid (sv\<lparr>correlator := co\<rparr>))"
      using False unfolding server_send_one_def s by (simp add: Let_def c fg)
    show ?thesis
      unfolding * using one two bulk range by (cases "0 \<le> h") (auto simp: idx_def)
  qed (use assms(1) s in \<open>auto simp: server_send_one_def Let_def split: if_splits\<close>)
qed

lemma serverSend_ok:
  assumes "good insp X ks sv"
  shows "yields (good insp X ks) (serverSend lb bufs ep sv)"
proof -
  have "good insp X ks sv \<Longrightarrow> ep \<in> ks \<Longrightarrow> yields (good insp X ks) (server_batch lb bufs ep sv)"
  proof (induction bufs arbitrary: sv)
    case (Cons x bufs)
    obtain ct en where x: "x = (ct, en)" by (cases x)
    show ?case
      using yields_bind [OF server_send_one_ok [OF Cons.prems] Cons.IH [OF _ Cons.prems(2)]] by (simp add: x)
  qed simp
  then show ?thesis
    using assms lookup_ok [OF assms] by (auto simp: serverSend_def split: option.split)
qed

section \<open>Receiving\<close>

lemma good_ids: "server_inv insp X sv \<Longrightarrow> good insp X (ids sv) sv"
  by (simp add: good_def)

lemma inv_frame [simp]:
  "server_inv insp X (bump f sv) = server_inv insp X sv"
  "server_inv insp X (fst (write_to en a d sv)) = server_inv insp X sv"
  "quiet g \<Longrightarrow> server_inv insp X (upd_session sid g sv) = server_inv insp X sv"
  using good_frame(1,2) [of insp X "ids sv" _ sv] good_quiet [of g insp X "ids sv" sid sv]
  by (simp_all add: good_def bump_def write_to_def)

lemma inv_give_loan: "server_inv insp (add_mset l X) sv \<Longrightarrow> server_inv insp X (give_back [l] sv)"
  using good_give_one [OF good_ids] by (simp add: good_def)

lemma yields_inv: "yields (good insp X ks) r \<Longrightarrow> yields (server_inv insp X) r"
  by (auto simp: yields_def good_def)

lemma server_data_ok:
  assumes g: "good insp (add_mset l X) ks sv" and slab: "length slab = 2048" "n \<le> 2048" "dgram = take n slab"
  shows "yields (good insp X ks) (server_data lb en l slab n dgram a sv)"
proof -
  obtain r where r: "ParseDataHeader dgram = Some r"
    using ParseDataHeader_no_panic by blast
  show ?thesis
  proof (cases r)
    case (Inl x)
    then show ?thesis
      using g by (auto simp: server_data_def r intro!: good_give_one)
  next
    case (Inr x)
    obtain d pay where x: "x = (d, pay)" by (cases x)
    let ?sid = "Wire.Session d"
    show ?thesis
    proof (cases "lookupSession ?sid sv")
      case None
      then show ?thesis
        using g by (auto simp: server_data_def r Inr x intro!: good_give_one)
    next
      case (Some s)
      let ?pkt = "\<lparr>Slab = Some (l, slab), Off = DataLen d, Len = length pay\<rparr>"
      let ?sv = "bump (\<lambda>s. s\<lparr>RxPackets := RxPackets s + 1, RxBytesC := RxBytesC s + of_nat n\<rparr>)
        (upd_session ?sid (\<lambda>s. (upd_ps (PathID (DHeader d))
           (\<lambda>ps. ps\<lparr>sRx := OnData (PathSeq d) (int n) (ucast (us en) - TxTS d) (now en) (sRx ps)\<rparr>)
           (touchPath (PathID (DHeader d)) a (now en) s))\<lparr>lastSeen := now en\<rparr>) sv)"
      have fits: "packet_ok ?pkt"
        using parsed_packet_fits [of dgram d pay] r Inr x slab by (simp add: packet_ok_def)
      have k: "?sid \<in> ks" using lookup_ok [OF g Some] by simp
      have inv: "good insp (mset (Release ?pkt) + X) ks ?sv"
        using g by (simp add: Release_def)
      have push: "yields (good insp X ks) (sess_push (now en) ?sid (GlobalSeq d) ?pkt ?sv)"
        by (rule sess_push_ok [OF inv fits k])
      have rec: "yields (good insp X ks) (Option.bind (sess_recovered en ?sid rs (upd_session ?sid (\<lambda>s. s\<lparr>sFecDec := dec\<rparr>) ?sv))
          (sess_push (now en) ?sid (GlobalSeq d) ?pkt))" for rs dec
        using inv by (intro yields_bind [OF sess_recovered_ok [OF _ k] sess_push_ok [OF _ fits k]]) simp_all
      have "balanced (mset (Release ?pkt) + (sess_loans (sessions ?sv) + X)) ?sv"
        using inv by (simp add: good_def server_inv_def ac_simps)
      then have up: "yields (good insp X ks) (deliver_up ?pkt ?sid ?sv)"
        using deliver_up_ok [OF _ fits, of _ ?sv ?sid] good_only_up [OF inv] by (fastforce simp: yields_def)
      show ?thesis
        using push rec up by (auto simp: server_data_def r Inr x Some Let_def split: option.split prod.split)
    qed
  qed
qed

lemma server_fec_ok:
  assumes "good insp X ks sv"
  shows "yields (good insp X ks) (server_fec lb en n dgram sv)"
proof -
  obtain r where r: "ParseFEC dgram = Some r"
    using ParseFEC_no_panic by blast
  have p: "yields (good insp X ks) (sess_recovered en sid rs (upd_session sid (\<lambda>s. s\<lparr>sFecDec := dec\<rparr>) (bump g sv)))"
    if "lookupSession sid sv = Some s" for sid s rs dec g
    using assms lookup_ok [OF assms that] by (intro sess_recovered_ok) simp_all
  show ?thesis
    using assms p by (auto simp: server_fec_def r Let_def split: sum.split option.split prod.split)
qed

lemma server_probe_ok: "good insp X ks sv \<Longrightarrow> yields (good insp X ks) (server_probe lb en dgram a sv)"
  using control_total(1) [of "blake_of lb" dgram "mac sv"]
  by (auto simp: server_probe_def EncodeProbeAck_layout Let_def split: option.split)

lemma server_probe_ack_ok: "good insp X ks sv \<Longrightarrow> yields (good insp X ks) (server_probe_ack lb en dgram sv)"
  using control_total(2) [of "blake_of lb" dgram "mac sv"]
  by (auto simp: server_probe_ack_def split: option.split)

lemma server_ctrl_ok: "good insp X ks sv \<Longrightarrow> yields (good insp X ks) (server_ctrl lb en dgram sv)"
  using control_total(3) [of "blake_of lb" dgram "mac sv"]
  by (auto simp: server_ctrl_def split: option.split)

lemma new_session_ok: "session_ok sid (new_session sid cid sv)" "held (sReorder (new_session sid cid sv)) = {#}"
  using New_inv [where 'a = Packet]
  by (simp_all add: session_ok_def new_session_def held_def waiting_def Reorder.New_def)

lemma add_session_ok:
  assumes "server_inv insp X sv" "lookupSession sid sv = None"
  shows "server_inv insp X (sv\<lparr>sessions := (sid, new_session sid cid sv) # sessions sv\<rparr>)"
  using assms new_session_ok [of sid cid sv]
  by (auto simp: server_inv_def lookupSession_def map_of_eq_None_iff balanced_def inspected_below_def)

lemma handleHello_ok:
  assumes "server_inv insp X sv"
  shows "yields (server_inv insp X) (handleHello lb en dgram a sv)"
proof -
  obtain r where r: "ParseHello (blake_of lb) dgram (mac sv) = Some r"
    using control_total(4) by blast
  show ?thesis
    using assms add_session_ok [OF assms]
    by (auto simp: handleHello_def r EncodeHello_layout Let_def split: option.split)
qed

lemma removeSessionPath_ok:
  assumes "server_inv insp X sv"
  shows "yields (server_inv insp X) (removeSessionPath sid i sv)"
proof (cases "lookupSession sid sv")
  case (Some s)
  note g = good_ids [OF assms]
  have c: "yields (server_inv insp X) (close_session (s\<lparr>spaths := p\<rparr>) (sv\<lparr>sessions := AList.delete sid (sessions sv)\<rparr>))" for p
    using close_session_ok [OF g Some, of "s\<lparr>spaths := p\<rparr>"] by (simp add: yields_inv)
  have "server_inv insp X (upd_session sid (\<lambda>_. s\<lparr>spaths := p\<rparr>) sv)" for p
    using upd_session_const [OF Some, of "\<lambda>s. s\<lparr>spaths := p\<rparr>"] assms by (simp add: quiet_def)
  with c show ?thesis by (simp add: removeSessionPath_def Some Let_def)
qed (use assms in \<open>simp add: removeSessionPath_def\<close>)

lemma server_bye_ok: "server_inv insp X sv \<Longrightarrow> yields (server_inv insp X) (server_bye lb en dgram sv)"
  using control_total(5) [of "blake_of lb" dgram "mac sv"] removeSessionPath_ok
  by (auto simp: server_bye_def split: option.split)

lemma handleServerDatagram_ok:
  assumes "server_inv insp (add_mset l X) sv" "length slab = 2048" "n \<le> 2048"
  shows "yields (server_inv insp X) (handleServerDatagram lb en l slab n a sv)"
proof -
  note g = good_ids [OF assms(1)]
  have s: "slice slab 0 n = Some (take n slab)"
    using assms(2,3) by (simp add: slice_ok)
  obtain r where r: "ParseHeader (take n slab) = Some r"
    using ParseHeader_no_panic by blast
  have bd: "yields (server_inv insp X) (Option.bind q (\<lambda>sv. Some (give_back [l] sv)))" if "yields (server_inv insp (add_mset l X)) q" for q
    using that by (rule yields_bind) (simp add: inv_give_loan)
  let ?d = "take n slab"
  note ok = yields_inv [OF server_fec_ok [OF g, of lb en n ?d]] yields_inv [OF server_probe_ok [OF g, of lb en ?d a]]
    yields_inv [OF server_probe_ack_ok [OF g, of lb en ?d]] yields_inv [OF server_ctrl_ok [OF g, of lb en ?d]]
    handleHello_ok [OF assms(1), of lb en ?d a] server_bye_ok [OF assms(1), of lb en ?d]
  show ?thesis
  proof (cases r)
    case (Inl x)
    then show ?thesis
      using assms(1) by (auto simp: handleServerDatagram_def s r intro!: inv_give_loan)
  next
    case (Inr h)
    have "yields (server_inv insp X) (server_data lb en l slab n (take n slab) a sv)"
      by (rule yields_inv [OF server_data_ok [OF g assms(2,3) refl]])
    then show ?thesis
      using bd [OF ok(1)] bd [OF ok(2)] bd [OF ok(3)] bd [OF ok(4)] bd [OF ok(5)] bd [OF ok(6)] inv_give_loan [OF assms(1)]
      by (simp add: handleServerDatagram_def s r Inr)
  qed
qed

lemma serverRx_ok:
  assumes "server_inv insp X sv"
  shows "yields (server_inv insp X) (serverRx lb en dgram sv)"
proof -
  obtain sv1 l where t: "take_slab sv = (sv1, l)" by fastforce
  note k = good_take [OF good_ids [OF assms] t]
  have "server_inv insp X (give_back [l] sv1)"
    using good_give_one [OF k] by (simp add: good_def)
  then show ?thesis
    using k handleServerDatagram_ok [of insp l X sv1]
    by (auto simp: serverRx_def t good_def split: option.split)
qed

section \<open>Ticker loops, timers and shutdown\<close>

lemma each_session_ok:
  assumes "\<And>sid sv. good insp X ks sv \<Longrightarrow> sid \<in> ks \<Longrightarrow> yields (good insp X ks) (f sid sv)"
  shows "good insp X ks sv \<Longrightarrow> set sids \<subseteq> ks \<Longrightarrow> yields (good insp X ks) (each_session f sids sv)"
proof (induction sids arbitrary: sv)
  case (Cons sid sids)
  have "yields (good insp X ks) (Option.bind (f sid sv) (each_session f sids))"
    using Cons.prems by (intro yields_bind [OF assms Cons.IH]) simp_all
  then show ?case by simp
qed simp

lemma allSessions_ids: "set (allSessions en sv) \<subseteq> ids sv" "distinct (allSessions en sv)"
  by (auto simp: allSessions_def)

lemma flush_session_ok:
  assumes "good insp X ks sv" "sid \<in> ks"
  shows "yields (good insp X ks) (flush_session lb en ens sid sv)"
proof -
  obtain s where s: "lookupSession sid sv = Some s" using good_lookup [OF assms] .
  show ?thesis
    using assms sess_parity_ok [of insp X ks "upd_session sid (\<lambda>s. s\<lparr>sFecEnc := e\<rparr>) sv" for e]
    by (auto simp: flush_session_def s split: option.split prod.split)
qed

lemma reap_all_ok:
  "good insp X ks sv \<Longrightarrow> set sids \<subseteq> ks \<Longrightarrow> distinct sids \<Longrightarrow> yields (server_inv insp X) (each_session (reap_session en) sids sv)"
proof (induction sids arbitrary: ks sv)
  case (Cons sid sids)
  obtain s where s: "lookupSession sid sv = Some s"
    using good_lookup [OF Cons.prems(1), of sid] Cons.prems(2) by auto
  have "yields (\<lambda>sv. good insp X ks sv \<or> good insp X (ks - {sid}) sv) (reap_session en sid sv)"
    using close_session_ok [OF Cons.prems(1) s refl refl] Cons.prems(1)
    by (auto simp: reap_session_def s yields_def)
  then have "yields (server_inv insp X) (Option.bind (reap_session en sid sv) (each_session (reap_session en) sids))"
    by (rule yields_bind) (use Cons.IH Cons.prems in fastforce)
  then show ?case by simp
qed (simp add: good_def)

lemma probe_alive_ok:
  assumes "good insp X ks sv" "sid \<in> ks"
  shows "yields (good insp X ks) (probe_alive lb t en tick sid i sv)"
proof -
  obtain s where s: "lookupSession sid sv = Some s" using good_lookup [OF assms] .
  show ?thesis
    using assms by (auto simp: probe_alive_def s Let_def EncodeProbe_layout split: prod.split)
qed

lemma probe_all_ok:
  "good insp X ks sv \<Longrightarrow> sid \<in> ks \<Longrightarrow> yields (good insp X ks) (probe_all lb t en tick sid alive sv)"
proof (induction alive arbitrary: sv)
  case (Cons i alive)
  show ?case
    using yields_bind [OF probe_alive_ok [OF Cons.prems] Cons.IH [OF _ Cons.prems(2)]] by simp
qed simp

lemma report_alive_quiet:
  "SID (fst (report_alive alive s)) = SID s \<and> sReorder (fst (report_alive alive s)) = sReorder s"
proof (induction alive arbitrary: s)
  case (Cons i alive)
  then show ?case by (simp add: Let_def split_beta) (simp add: upd_ps_def)
qed simp

lemma sess_retune_ok:
  assumes "good insp X ks sv" "sid \<in> ks"
  shows "good insp X ks (upd_session sid (sess_retune force t tick alive) sv)"
proof -
  obtain s where s: "lookupSession sid sv = Some s" "session_ok sid s" using good_lookup [OF assms] .
  let ?f = "sess_retune force t tick alive"
  have m: "map_of (sessions sv) sid = Some s" using s(1) by (simp add: lookupSession_def)
  have f: "session_ok sid (?f s)" "held (sReorder (?f s)) = held (sReorder s)"
    using s(2) SetHold_ok [of "sReorder s"]
    by (auto simp: sess_retune_def Let_def session_ok_def step_ok_def)
  have "\<forall>(sid, s) \<in> set (AList.map_entry sid ?f (sessions sv)). session_ok sid s"
    using map_entry_ok [OF _ m, of ?f] f(1) assms(1) by (simp add: good_def server_inv_def)
  moreover have "sess_loans (AList.map_entry sid ?f (sessions sv)) = sess_loans (sessions sv)"
    using sess_loans_update [OF m, of ?f] f(2) by simp
  ultimately show ?thesis
    using assms(1) upd_session_ids [of sid ?f sv]
    by (auto simp: good_def server_inv_def upd_session_def inspected_below_def balanced_def)
qed

lemma report_session_ok:
  assumes "good insp X ks sv" "sid \<in> ks"
  shows "yields (\<lambda>(_, sv). good insp X ks sv) (report_session lb t en tick alive sid (old, sv))"
proof -
  obtain s where s: "lookupSession sid sv = Some s" using good_lookup [OF assms] .
  obtain s' recs where r: "report_alive alive s = (s', recs)" by fastforce
  have "good insp X ks (upd_session sid (\<lambda>_. s') sv)"
    using upd_session_const [OF s, of "\<lambda>s. fst (report_alive alive s)"] r assms(1) report_alive_quiet
    by (simp add: quiet_def)
  then show ?thesis
    using sess_retune_ok [OF _ assms(2)]
    by (auto simp: report_session_def s r Let_def EncodeCtrl_layout split: option.split)
qed

lemma control_session_ok:
  assumes "good insp X ks sv" "sid \<in> ks"
  shows "yields (\<lambda>(_, sv). good insp X ks sv) (control_session lb t ens tick sid (old, sv))"
proof -
  obtain s where s: "lookupSession sid sv = Some s" using good_lookup [OF assms] .
  have "yields (good insp X ks) (if c then probe_all lb t (ens sid) tick sid alive sv else Some sv)" for c alive
    using probe_all_ok [OF assms] assms(1) by simp
  then have "yields (\<lambda>(_, sv). good insp X ks sv)
      (Option.bind (if c then probe_all lb t (ens sid) tick sid alive sv else Some sv)
        (\<lambda>sv. report_session lb t (ens sid) tick alive sid (old, sv)))" for c alive
    by (rule yields_bind) (rule report_session_ok [OF _ assms(2)])
  then show ?thesis
    using assms(1) by (simp add: control_session_def s Let_def)
qed

lemma control_sessions_ok:
  "good insp X ks (snd r) \<Longrightarrow> set sids \<subseteq> ks \<Longrightarrow>
   yields (\<lambda>(_, sv). good insp X ks sv) (control_sessions lb t ens tick sids r)"
proof (induction sids arbitrary: r)
  case (Cons sid sids)
  have "yields (\<lambda>(_, sv). good insp X ks sv) (control_session lb t ens tick sid r)"
    using control_session_ok [of insp X ks "snd r" sid lb t ens tick "fst r"] Cons.prems by simp
  then have "yields (\<lambda>(_, sv). good insp X ks sv)
      (Option.bind (control_session lb t ens tick sid r) (control_sessions lb t ens tick sids))"
    by (rule yields_bind) (use Cons in auto)
  then show ?case by simp
qed (simp add: split_beta)

lemma server_control_tick_ok:
  assumes "server_inv insp X sv"
  shows "yields (\<lambda>(_, sv). server_inv insp X sv) (server_control_tick lb en ens v sv)"
  using control_sessions_ok [of insp X "ids sv" "(lastRxOf v, sv)" "allSessions en sv" lb "now en" ens "i64 (stick v + 1)"]
    allSessions_ids(1) [of en sv] good_ids [OF assms]
  by (fastforce simp: server_control_tick_def Let_def yields_def good_def)

lemma sess_timer_ok:
  assumes "server_inv insp X sv"
  shows "yields (server_inv insp X) (sess_timer en sid sv)"
proof (cases "lookupSession sid sv")
  case (Some s)
  note g = good_ids [OF assms]
  obtain b os where o: "onTimer (now en) (sReorder s) = Some (b, os)" "step_ok {#} (sReorder s) b os"
    using onTimer_ok [of "sReorder s" "now en"] lookup_ok [OF g Some] by (auto simp: session_ok_def)
  then show ?thesis
    using sess_call [of insp "{#}" X "ids sv" sv sid s b os sid] g Some
    by (simp add: sess_timer_def yields_inv)
qed (use assms in \<open>simp add: sess_timer_def\<close>)

lemma stop_session_ok:
  assumes "good insp X ks sv" "sid \<in> ks"
  shows "yields (good insp X ks) (stop_session sid sv)"
proof -
  obtain s where s: "lookupSession sid sv = Some s" "session_ok sid s" using good_lookup [OF assms] .
  obtain b os where o: "Reorder.Close (sReorder s) = (b, os)" by fastforce
  have "step_ok {#} (sReorder s) b os"
    using Close_ok(1) [OF _ o] s(2) by (simp add: session_ok_def)
  then show ?thesis
    using sess_call [of insp "{#}" X ks sv sid s b os sid] assms(1) s(1) o by (simp add: stop_session_def)
qed

section \<open>Runs of the server\<close>

text \<open>
  Everything that calls into a server: its socket, WireGuard, the timers of the sessions' reorder
  buffers, the ticker loops and the daemon that closes it.
\<close>

datatype server_op =
    SDatagram senv "(bytes \<times> AddrPort) option"
  | SSend "(bytes \<times> senv) list" SessionEndpoint
  | STimer senv u32
  | SWgRecv nat nat
  | SWgOpen
  | SWgClose
  | SInspect bytes
  | SControl senv "u32 \<Rightarrow> senv"
  | SFlush senv "u32 \<Rightarrow> senv"
  | SReap senv
  | SClose senv

fun server_step :: "lib \<Rightarrow> server_op \<Rightarrow> Server \<times> server_vars \<Rightarrow> (Server \<times> server_vars) option" where
  "server_step lb (SDatagram en d) (sv, v) = map_option (\<lambda>sv. (sv, v)) (serverRx lb en d sv)"
| "server_step lb (SSend bufs ep) (sv, v) = map_option (\<lambda>sv. (sv, v)) (serverSend lb bufs ep sv)"
| "server_step lb (STimer en sid) (sv, v) = map_option (\<lambda>sv. (sv, v)) (sess_timer en sid sv)"
| "server_step lb (SWgRecv ch cap) (sv, v) = map_option (\<lambda>(sv, _). (sv, v)) (wg_recv ch cap sv)"
| "server_step lb SWgOpen (sv, v) = Some (sv\<lparr>bind := fst (Open (bind sv))\<rparr>, v)"
| "server_step lb SWgClose (sv, v) = map_option (\<lambda>b. (sv\<lparr>bind := b\<rparr>, v)) (CloseBind (bind sv))"
| "server_step lb (SInspect pkt) (sv, v) = map_option (\<lambda>sv. (sv, v)) (Inspect pkt sv)"
| "server_step lb (SControl en ens) (sv, v) = map_option (\<lambda>(v, sv). (sv, v)) (server_control_tick lb en ens v sv)"
| "server_step lb (SFlush en ens) (sv, v) = map_option (\<lambda>sv. (sv, v)) (server_flush_tick lb en ens sv)"
| "server_step lb (SReap en) (sv, v) = map_option (\<lambda>sv. (sv, v)) (reaper_tick en sv)"
| "server_step lb (SClose en) (sv, v) = map_option (\<lambda>sv. (sv, v)) (CloseServer en sv)"

fun server_run :: "lib \<Rightarrow> server_op list \<Rightarrow> Server \<times> server_vars \<Rightarrow> (Server \<times> server_vars) option" where
  "server_run lb [] s = Some s"
| "server_run lb (x # xs) s = Option.bind (server_step lb x s) (server_run lb xs)"

lemma server_inspected_mono: "server_inv insp X sv \<Longrightarrow> server_inv (Suc insp) X sv"
  by (auto simp: server_inv_def inspected_below_def flows_below_def le_SucI)

lemma yields_step: "yields (server_inv insp X) r \<Longrightarrow> yields (\<lambda>(sv, _). server_inv (Suc insp) X sv) (map_option (\<lambda>sv. (sv, v)) r)"
  by (auto simp: yields_def server_inspected_mono)

lemma bind_calls_ok:
  assumes "server_inv insp X sv"
  shows "server_inv insp X (sv\<lparr>bind := fst (Open (bind sv))\<rparr>)"
    and "yields (\<lambda>b. server_inv insp X (sv\<lparr>bind := b\<rparr>)) (CloseBind (bind sv))"
    and "yields (\<lambda>(sv, _). server_inv insp X sv) (wg_recv ch cap sv)"
proof -
  have b: "balanced (sess_loans (sessions sv) + X) sv" "bind_inv (bind sv)"
    using assms by (simp_all add: server_inv_def balanced_def)
  show "server_inv insp X (sv\<lparr>bind := fst (Open (bind sv))\<rparr>)"
    using assms Open_inv [OF b(2)] by (simp add: server_inv_def inspected_below_def balanced_def)
  show "yields (\<lambda>b. server_inv insp X (sv\<lparr>bind := b\<rparr>)) (CloseBind (bind sv))"
    using assms CloseBind_inv [OF b(2)] by (auto simp: yields_def server_inv_def inspected_below_def balanced_def)
  show "yields (\<lambda>(sv, _). server_inv insp X sv) (wg_recv ch cap sv)"
    using wg_recv_ok [OF b(1), of ch cap] good_only_up [OF good_ids [OF assms]] by (fastforce simp: yields_def good_def)
qed

lemma server_step_ok:
  assumes "server_inv insp {#} sv" "Suc insp < 2 ^ 64"
  shows "yields (\<lambda>(sv, _). server_inv (Suc insp) {#} sv) (server_step lb x (sv, v))"
proof (cases x)
  case (SDatagram en d)
  then show ?thesis using yields_step [OF serverRx_ok [OF assms(1)]] by simp
next
  case (SSend bufs ep)
  then show ?thesis using yields_step [OF yields_inv [OF serverSend_ok [OF good_ids [OF assms(1)]]]] by simp
next
  case (STimer en sid)
  then show ?thesis using yields_step [OF sess_timer_ok [OF assms(1)]] by simp
next
  case (SWgRecv ch cap)
  then show ?thesis
    using bind_calls_ok(3) [OF assms(1), of ch cap] server_inspected_mono by (fastforce simp: yields_def)
next
  case SWgClose
  then show ?thesis
    using bind_calls_ok(2) [OF assms(1)] server_inspected_mono by (fastforce simp: yields_def)
next
  case (SInspect pkt)
  have "inspected_below insp sv" using assms(1) by (simp add: server_inv_def)
  from Inspect_total [OF this assms(2), of pkt] show ?thesis
    using assms(1) SInspect by (auto simp: yields_def server_inv_def balanced_def)
next
  case (SControl en ens)
  then show ?thesis
    using server_control_tick_ok [OF assms(1), of lb en ens v] server_inspected_mono by (fastforce simp: yields_def)
next
  case (SFlush en ens)
  then show ?thesis
    using yields_step [OF yields_inv [OF each_session_ok [OF flush_session_ok good_ids [OF assms(1)] allSessions_ids(1)]]]
    by (simp add: server_flush_tick_def)
next
  case (SReap en)
  then show ?thesis
    using yields_step [OF reap_all_ok [OF good_ids [OF assms(1)] allSessions_ids]] by (simp add: reaper_tick_def)
next
  case (SClose en)
  then show ?thesis
    using yields_step [OF yields_inv [OF each_session_ok [OF stop_session_ok good_ids [OF assms(1)] allSessions_ids(1)]]]
    by (simp add: CloseServer_def)
qed (use bind_calls_ok(1) [OF assms(1)] server_inspected_mono in auto)

lemma server_run_ok:
  assumes "server_inv insp {#} sv" "insp + length xs < 2 ^ 64"
  shows "yields (\<lambda>(sv, _). server_inv (insp + length xs) {#} sv) (server_run lb xs (sv, v))"
  using assms
proof (induction xs arbitrary: insp sv v)
  case (Cons x xs)
  have "yields (\<lambda>(sv, _). server_inv (Suc insp) {#} sv) (server_step lb x (sv, v))"
    using Cons.prems by (intro server_step_ok) simp_all
  moreover have "yields (\<lambda>(sv, _). server_inv (Suc insp + length xs) {#} sv) (server_run lb xs r)"
    if "case r of (sv, _) \<Rightarrow> server_inv (Suc insp) {#} sv" for r
    using Cons.IH [of "Suc insp" "fst r" "snd r"] that Cons.prems(2) by (cases r) simp
  ultimately have "yields (\<lambda>(sv, _). server_inv (Suc insp + length xs) {#} sv)
      (Option.bind (server_step lb x (sv, v)) (server_run lb xs))"
    by (rule yields_bind)
  then show ?case by simp
qed simp

lemma NewServer_inv: "server_inv 0 {#} (NewServer mc rs disabled force)"
proof -
  have "bind_inv NewEngineBind" "bind_holds NewEngineBind = {#}"
    by (simp_all add: NewEngineBind_def bind_inv_def bind_holds_def)
  moreover have "flows_below 0 (Classify.New x)" for x
    by (simp add: flows_below_def Classify.New_def)
  ultimately show ?thesis
    by (auto simp: server_inv_def NewServer_def NewClient_def balanced_def inspected_below_def Engine.Engine.extend_def)
qed

section \<open>Properties\<close>

text \<open>
  C13. The server never panics and never loses or doubly frees a slab: for every configuration,
  every choice of the linked libraries and every sequence of fewer than \<open>2^64\<close> calls in any
  order (datagrams of any content from any address, batches from WireGuard for any session,
  socket errors, timers, ticks, the reaper, opens and closes, shutdown), every call returns;
  the slabs taken from the pool are exactly those given back, once each, and those of the
  packets in the sessions' reorder buffers and in the bind's queues; and no two sessions share
  an id.
\<close>

theorem server_total_and_leak_free:
  assumes "length ops < 2 ^ 64"
  shows "\<exists>sv v. server_run lb ops (NewServer mc rs disabled force, v0) = Some (sv, v) \<and>
    mset [0..<next_loan sv] = mset (returned sv) + sess_loans (sessions sv) + loans_of (bind_holds (bind sv)) \<and>
    distinct (returned sv) \<and> distinct (map fst (sessions sv))"
proof -
  obtain sv v where r: "server_run lb ops (NewServer mc rs disabled force, v0) = Some (sv, v)"
      "server_inv (length ops) {#} sv"
    using server_run_ok [OF NewServer_inv [of mc rs disabled force], of ops lb v0] assms by (auto simp: yields_def)
  then have b: "mset [0..<next_loan sv] = mset (returned sv) + sess_loans (sessions sv) + loans_of (bind_holds (bind sv))"
    by (simp add: server_inv_def balanced_def ac_simps)
  then have "mset [0..<next_loan sv] = mset (returned sv) + (sess_loans (sessions sv) + loans_of (bind_holds (bind sv)))"
    by (simp add: add.assoc)
  then have "distinct (returned sv)"
    by (rule distinct_part) simp
  with r b show ?thesis by (simp add: server_inv_def)
qed

definition some_senv :: senv where
  "some_senv = env.extend some_env \<lparr>now_at = (\<lambda>_. 1000 * Second), net_to = (\<lambda>_ _. True),
     path_ord = (\<lambda>_ xs. xs), sess_ord = (\<lambda>ss. ss)\<rparr>"

theorem server_total_and_leak_free_witness:
  "\<exists>sv v. server_run no_lib [SWgOpen, SDatagram some_senv (Some ([0x10, 0], (NoAddr, 9))),
      SSend [([4, 0, 0, 0, 1], some_senv)] 7, SReap some_senv, SClose some_senv]
    (NewServer (NewMAC []) None True off, \<lparr>stick = 0, lastRxOf = (\<lambda>_. 0)\<rparr>) = Some (sv, v) \<and> distinct (returned sv)"
  using server_total_and_leak_free [of "[SWgOpen, SDatagram some_senv (Some ([0x10, 0], (NoAddr, 9))),
      SSend [([4, 0, 0, 0, 1], some_senv)] 7, SReap some_senv, SClose some_senv]" no_lib "NewMAC []" None True off
      "\<lparr>stick = 0, lastRxOf = (\<lambda>_. 0)\<rparr>"]
  by (auto simp del: server_run.simps)

end
