(* ===== verification/ServerProps.thy ===== *)
theory ServerProps
  imports ServerSafety
begin

text \<open>
  What the server lets a datagram change: the control plane acts only on authentic and fresh
  messages, a session belongs to the client that opened it, and a path follows the newest
  source address.
\<close>

section \<open>Lookups after the operations on the tables\<close>

lemma lookup_upd_session:
  "lookupSession sid' (upd_session sid f sv) =
     (if sid' = sid then map_option f (lookupSession sid sv) else lookupSession sid' sv)"
  by (auto simp: lookupSession_def upd_session_def map_of_map_entry split: option.split)

lemma lookup_frame [simp]:
  "lookupSession sid (bump f sv) = lookupSession sid sv"
  "lookupSession sid (give_back ls sv) = lookupSession sid sv"
  "lookupSession sid (fst (write_to en a d sv)) = lookupSession sid sv"
  "lookupSession sid (sv\<lparr>sent := ss\<rparr>) = lookupSession sid sv"
  "lookupSession sid (sv\<lparr>next_loan := n\<rparr>) = lookupSession sid sv"
  by (simp_all add: lookupSession_def bump_def give_back_def write_to_def)

lemma lookup_add: "lookupSession x (sv\<lparr>sessions := (sid, s) # sessions sv'\<rparr>) = (if x = sid then Some s else lookupSession x sv')"
  by (simp add: lookupSession_def)

lemma new_session_fields: "SClientID (new_session sid cid sv) = cid" "path_of i (new_session sid cid sv) = None"
  "sReorder (new_session sid cid sv) = Reorder.New"
  by (simp_all add: new_session_def path_of_def)

lemma path_of_touch:
  "path_of j (touchPath i a t s) =
     (if j = i then Some ((case path_of i s of Some ps \<Rightarrow> ps
        | None \<Rightarrow> \<lparr>ps_id = i, addr = (NoAddr, 0), lastRx = 0, sLink = NewLink, sRx = NewRxStats\<rparr>)\<lparr>addr := a, lastRx := t\<rparr>)
      else path_of j s)"
  by (simp add: touchPath_def Let_def path_of_def update_conv')

lemma path_of_upd_ps: "path_of j (upd_ps i f s) = (if j = i then map_option f (path_of i s) else path_of j s)"
  by (auto simp: path_of_def upd_ps_def map_of_map_entry split: option.split)

lemma path_of_lastSeen [simp]: "path_of j (s\<lparr>lastSeen := t\<rparr>) = path_of j s"
  by (simp add: path_of_def)

lemma touchPath_keeps [simp]:
  "SClientID (touchPath i a t s) = SClientID s" "SID (touchPath i a t s) = SID s"
  "sReorder (touchPath i a t s) = sReorder s"
  by (simp_all add: touchPath_def Let_def)

text \<open>The paths of every session are the same in both states.\<close>

definition same_paths :: "Server \<Rightarrow> Server \<Rightarrow> bool" where
  "same_paths sv sv' \<longleftrightarrow> (\<forall>sid. map_option spaths (lookupSession sid sv') = map_option spaths (lookupSession sid sv))"

lemma same_paths_refl [simp]: "same_paths sv sv"
  by (simp add: same_paths_def)

lemma same_paths_trans: "same_paths sv sv1 \<Longrightarrow> same_paths sv1 sv2 \<Longrightarrow> same_paths sv sv2"
  by (simp add: same_paths_def)

lemma deliver_up_only: "deliver_up pkt ep e = Some e' \<Longrightarrow> only_up e e'"
  by (auto simp: deliver_up_def only_up_def bump_def give_back_def Let_def split: bind_splits if_splits)

lemma run_outs_only: "run_outs ep os e = Some e' \<Longrightarrow> only_up e e'"
proof (induction ep os e rule: run_outs.induct)
  case (2 ep pkt l os e)
  then show ?case
    by (auto split: bind_splits intro: only_up_trans [OF deliver_up_only])
next
  case (3 ep pkt os e)
  then show ?case
    using only_up_trans [OF only_up_give] by fastforce
qed simp

lemma only_up_same_paths: "only_up sv sv' \<Longrightarrow> same_paths sv sv'"
  using only_up_sessions [of sv sv'] by (simp add: same_paths_def lookupSession_def)

lemma upd_same_paths: "(\<And>s. spaths (f s) = spaths s) \<Longrightarrow> same_paths sv (upd_session sid f sv)"
  by (simp add: same_paths_def lookup_upd_session option.map_comp comp_def)

lemma sess_push_same_paths: "sess_push t sid seq pkt sv = Some sv' \<Longrightarrow> same_paths sv sv'"
proof -
  assume "sess_push t sid seq pkt sv = Some sv'"
  then obtain b os where "run_outs sid os (upd_session sid (\<lambda>s. s\<lparr>sReorder := b\<rparr>) sv) = Some sv'"
    by (auto simp: sess_push_def split: option.splits prod.splits)
  then show "same_paths sv sv'"
    by (intro same_paths_trans [OF upd_same_paths only_up_same_paths [OF run_outs_only]]) auto
qed

lemma sess_recovered_same_paths: "sess_recovered en sid rs sv = Some sv' \<Longrightarrow> same_paths sv sv'"
proof (induction en sid rs sv rule: sess_recovered.induct)
  case (2 en sid seq ct rs sv)
  have "same_paths sv (sv\<lparr>next_loan := n\<rparr>)" for n by (simp add: same_paths_def)
  with 2 show ?case
    by (fastforce simp: take_slab_def split: bind_splits
        intro: same_paths_trans [OF same_paths_trans [OF _ sess_push_same_paths]])
qed simp

text \<open>A DATA datagram for a known session, after the path and the counters were updated.\<close>

definition accept_data :: "senv \<Rightarrow> DataHeader \<Rightarrow> nat \<Rightarrow> AddrPort \<Rightarrow> Server \<Rightarrow> Server" where
  "accept_data en d n a sv = bump (\<lambda>s. s\<lparr>RxPackets := RxPackets s + 1, RxBytesC := RxBytesC s + of_nat n\<rparr>)
     (upd_session (Wire.Session d) (\<lambda>s. (upd_ps (PathID (DHeader d))
        (\<lambda>ps. ps\<lparr>sRx := OnData (PathSeq d) (int n) (ucast (us en) - TxTS d) (now en) (sRx ps)\<rparr>)
        (touchPath (PathID (DHeader d)) a (now en) s))\<lparr>lastSeen := now en\<rparr>) sv)"

lemma server_data_known:
  assumes "ParseDataHeader dgram = Some (Inr (d, pay))" "lookupSession (Wire.Session d) sv = Some s"
  shows "server_data lb en l slab n dgram a sv =
    (let pkt = \<lparr>Slab = Some (l, slab), Off = DataLen d, Len = length pay\<rparr>; sv = accept_data en d n a sv in
     if Class (DHeader d) \<noteq> ClassBulk then deliver_up pkt (Wire.Session d) sv
     else if sFecDec s = None \<or> Flags (DHeader d) AND FlagFECInfo = 0
     then sess_push (now en) (Wire.Session d) (GlobalSeq d) pkt sv
     else (let (dec, rs) = AddData (group_ord lb) (rs_rec lb) (FECGroup d) (FECIndex d) (GlobalSeq d) pay (now en) (the (sFecDec s))
           in Option.bind (sess_recovered en (Wire.Session d) rs (upd_session (Wire.Session d) (\<lambda>s. s\<lparr>sFecDec := Some dec\<rparr>) sv))
                (sess_push (now en) (Wire.Session d) (GlobalSeq d) pkt)))"
  using assms by (auto simp: server_data_def accept_data_def Let_def split: option.split prod.split)

lemma server_data_same_paths:
  assumes "ParseDataHeader dgram = Some (Inr (d, pay))" "lookupSession (Wire.Session d) sv = Some s"
    and "server_data lb en l slab n dgram a sv = Some sv'"
  shows "same_paths (accept_data en d n a sv) sv'"
proof -
  have rec: "same_paths sv1 sv'" if b: "Option.bind (sess_recovered en sid rs (upd_session sid (\<lambda>s. s\<lparr>sFecDec := Some dec\<rparr>) sv1))
      (sess_push t sid seq pkt) = Some sv'" for sv1 sid rs dec t seq pkt
  proof -
    obtain sv2 where sv2: "sess_recovered en sid rs (upd_session sid (\<lambda>s. s\<lparr>sFecDec := Some dec\<rparr>) sv1) = Some sv2"
        "sess_push t sid seq pkt sv2 = Some sv'"
      using b unfolding bind_eq_Some_conv by blast
    have "same_paths sv1 (upd_session sid (\<lambda>s. s\<lparr>sFecDec := Some dec\<rparr>) sv1)"
      by (rule upd_same_paths) simp
    then show ?thesis
      using sess_recovered_same_paths [OF sv2(1)] sess_push_same_paths [OF sv2(2)] same_paths_trans by blast
  qed
  show ?thesis
    using assms(3)
    by (auto simp: server_data_known [OF assms(1,2)] Let_def split: if_splits prod.splits
        intro: sess_push_same_paths rec only_up_same_paths [OF deliver_up_only])
qed

text \<open>The parts of the state that a rejected datagram must not touch.\<close>

definition unmoved :: "Server \<Rightarrow> Server \<Rightarrow> bool" where
  "unmoved sv sv' \<longleftrightarrow> sessions sv' = sessions sv \<and> sent sv' = sent sv \<and> bind sv' = bind sv"

lemma unmoved_simps [simp]:
  "unmoved sv sv" "unmoved sv (bump f sv') = unmoved sv sv'" "unmoved sv (give_back ls sv') = unmoved sv sv'"
  "unmoved (sv\<lparr>next_loan := n\<rparr>) sv' = unmoved sv sv'"
  by (auto simp: unmoved_def bump_def give_back_def)

lemma forged_control:
  assumes "Verify (blake_of lb) (mac sv) d = None"
  shows "yields (unmoved sv) (server_probe lb en d a sv)" "yields (unmoved sv) (server_probe_ack lb en d sv)"
    "yields (unmoved sv) (server_ctrl lb en d sv)" "yields (unmoved sv) (handleHello lb en d a sv)"
    "yields (unmoved sv) (server_bye lb en d sv)"
  using probe_msg.forged_rejected [OF assms] probe_ack_msg.forged_rejected [OF assms] ctrl_msg.forged_rejected [OF assms]
    hello_msg.forged_rejected [OF assms] bye_msg.forged_rejected [OF assms]
  by (simp_all add: server_probe_def server_probe_ack_def server_ctrl_def handleHello_def server_bye_def Let_def)

lemma slice_fill_slab: "slice (fill_slab old d) 0 (min SlabSize (length d)) = Some (take 2048 d)"
  by (cases "length d \<le> 2048") (auto simp: slice_ok fill_slab_def)

lemma serverRx_control:
  assumes "ParseHeader (take 2048 d) = Some (Inr h)"
  shows "Type h = TypeHello \<Longrightarrow> serverRx lb en (Some (d, a)) sv =
      map_option (give_back [next_loan sv]) (handleHello lb en (take 2048 d) a (sv\<lparr>next_loan := next_loan sv + 1\<rparr>))"
    and "Type h = TypeData \<Longrightarrow> serverRx lb en (Some (d, a)) sv =
      server_data lb en (next_loan sv) (fill_slab (dirty en) d) (min SlabSize (length d)) (take 2048 d) a
        (sv\<lparr>next_loan := next_loan sv + 1\<rparr>)"
  using slice_fill_slab [of "dirty en" d] assms
  by (simp_all add: serverRx_def take_slab_def handleServerDatagram_def map_conv_bind_option comp_def
      del: SlabSize_def)

lemma NewServer_fields [simp]:
  "sessions (NewServer mc rs disabled force) = []" "mac (NewServer mc rs disabled force) = mc"
  by (simp_all add: NewServer_def NewClient_def Engine.Engine.extend_def)

text \<open>Registering path \<open>i\<close> of session \<open>sid\<close> at address \<open>a\<close>, with the acknowledgement \<open>ack\<close>.\<close>

definition register :: "senv \<Rightarrow> u32 \<Rightarrow> byte \<Rightarrow> AddrPort \<Rightarrow> bytes \<Rightarrow> Server \<Rightarrow> Server" where
  "register en sid i a ack sv = fst (write_to en a ack
     (upd_session sid (\<lambda>s. (touchPath i a (now_at en 1) s)\<lparr>lastSeen := now_at en 1\<rparr>) sv))"

lemma handleHello_eq:
  assumes "ParseHello (blake_of lb) d (mac sv) = Some (Some (h, m))" "Type h = 5"
  shows "handleHello lb en d a sv = Some (
    let ack = AppendTag (blake_of lb) (mac sv) (hello_layout \<lparr>Type = 6, Flags = 0, PathID = PathID h, Epoch = 0\<rparr>
            \<lparr>HSession = HSession m, ClientID = ClientID m, Features = 0, UnixTS = Unix (now_at en 2)\<rparr>) in
    if \<not> FreshTS (UnixTS m) (Unix (now en)) then bump (\<lambda>s. s\<lparr>RxDropMalformed := RxDropMalformed s + 1\<rparr>) sv
    else case lookupSession (HSession m) sv of
      None \<Rightarrow> register en (HSession m) (PathID h) a ack
        (sv\<lparr>sessions := (HSession m, new_session (HSession m) (ClientID m) sv) # sessions sv\<rparr>)
    | Some s \<Rightarrow>
        if SClientID s \<noteq> ClientID m then bump (\<lambda>s. s\<lparr>RxDropUnknown := RxDropUnknown s + 1\<rparr>) sv
        else register en (HSession m) (PathID h) a ack sv)"
  using assms
  by (auto simp: handleHello_def Let_def EncodeHello_layout register_def new_session_def upd_session_def split: option.split)

lemma register_lookup:
  "lookupSession sid' (register en sid i a ack sv) =
     (if sid' = sid then map_option (\<lambda>s. (touchPath i a (now_at en 1) s)\<lparr>lastSeen := now_at en 1\<rparr>) (lookupSession sid sv)
      else lookupSession sid' sv)"
  by (simp add: register_def lookup_upd_session)

lemma register_sent: "sent (register en sid i a ack sv) = sent sv @ (if net_to en a ack then [TxTo a ack] else [])"
  by (simp add: register_def write_to_def upd_session_def)

lemma bind_frame [simp]: "bind (bump f sv) = bind sv" "bind (give_back ls sv) = bind sv"
  by (simp_all add: bump_def give_back_def)

lemma register_bind: "bind (register en sid i a ack sv) = bind sv"
  by (simp add: register_def write_to_def upd_session_def)

lemma sent_frame [simp]: "sent (bump f sv) = sent sv" "sent (give_back ls sv) = sent sv"
  "sessions (bump f sv') = sessions sv'" "sessions (give_back ls sv') = sessions sv'"
  by (simp_all add: bump_def give_back_def)

lemma hello_effect:
  "serverRx lb en (Some (AppendTag (blake_of lb) (mac sv) (hello_layout (h\<lparr>Type := 5\<rparr>) m), a)) sv =
    Some (give_back [next_loan sv] (
      let ack = AppendTag (blake_of lb) (mac sv) (hello_layout \<lparr>Type = 6, Flags = 0, PathID = PathID h, Epoch = 0\<rparr>
              \<lparr>HSession = HSession m, ClientID = ClientID m, Features = 0, UnixTS = Unix (now_at en 2)\<rparr>);
          sv = sv\<lparr>next_loan := Suc (next_loan sv)\<rparr> in
      if \<not> FreshTS (UnixTS m) (Unix (now en)) then bump (\<lambda>s. s\<lparr>RxDropMalformed := RxDropMalformed s + 1\<rparr>) sv
      else case lookupSession (HSession m) sv of
        None \<Rightarrow> register en (HSession m) (PathID h) a ack
          (sv\<lparr>sessions := (HSession m, new_session (HSession m) (ClientID m) sv) # sessions sv\<rparr>)
      | Some s \<Rightarrow>
          if SClientID s \<noteq> ClientID m then bump (\<lambda>s. s\<lparr>RxDropUnknown := RxDropUnknown s + 1\<rparr>) sv
          else register en (HSession m) (PathID h) a ack sv))"
proof -
  let ?h = "h\<lparr>Type := 5\<rparr>"
  let ?d = "AppendTag (blake_of lb) (mac sv) (hello_layout ?h m)"
  let ?sv = "sv\<lparr>next_loan := Suc (next_loan sv)\<rparr>"
  have "length ?d = 44" by (simp add: AppendTag_def message_layouts)
  then have t: "take 2048 ?d = ?d" by simp
  have p: "ParseHeader (take 2048 ?d) = Some (Inr ?h)"
    unfolding t by (simp add: AppendTag_def hello_layout_def header_layout_parse)
  have m: "ParseHello (blake_of lb) ?d (mac ?sv) = Some (Some (?h, m))"
    using hello_msg.roundtrip [of ?h "blake_of lb" "mac sv" m] by simp
  have r: "serverRx lb en (Some (?d, a)) sv = map_option (give_back [next_loan sv]) (handleHello lb en ?d a ?sv)"
    using serverRx_control(1) [OF p, of lb en a sv] t by simp
  have "Type ?h = 5" by simp
  from handleHello_eq [OF m this, of en a] show ?thesis
    unfolding r by (simp add: Let_def split: option.split)
qed

lemma hello_admitted:
  "\<exists>sv'. serverRx lb en (Some (AppendTag (blake_of lb) (mac sv) (hello_layout (h\<lparr>Type := TypeHello\<rparr>) m), a)) sv = Some sv' \<and>
    (if FreshTS (UnixTS m) (Unix (now en)) \<and>
        (case lookupSession (HSession m) sv of None \<Rightarrow> True | Some s \<Rightarrow> SClientID s = ClientID m)
     then (\<exists>s ps. (\<lambda>sid. lookupSession sid sv') = (\<lambda>sid. lookupSession sid sv)(HSession m := Some s) \<and>
          SClientID s = ClientID m \<and> lastSeen s = now_at en 1 \<and>
          path_of (PathID h) s = Some ps \<and> addr ps = a \<and> lastRx ps = now_at en 1) \<and>
        sent sv' = sent sv @ (let ack = AppendTag (blake_of lb) (mac sv) (hello_layout
            \<lparr>Type = TypeHelloAck, Flags = 0, PathID = PathID h, Epoch = 0\<rparr>
            \<lparr>HSession = HSession m, ClientID = ClientID m, Features = 0, UnixTS = Unix (now_at en 2)\<rparr>)
          in if net_to en a ack then [TxTo a ack] else [])
     else sessions sv' = sessions sv \<and> sent sv' = sent sv)"
proof -
  show ?thesis
  proof (cases "lookupSession (HSession m) sv")
    case None
    then show ?thesis
      by (auto simp: hello_effect Let_def register_sent register_lookup fun_eq_iff path_of_touch new_session_fields
          lookup_add)
  next
    case (Some s)
    then show ?thesis
      by (auto simp: hello_effect Let_def register_sent register_lookup fun_eq_iff path_of_touch)
  qed
qed

text \<open>A new session starts with an empty reorder buffer, and nothing is delivered.\<close>

lemma hello_registers_new:
  assumes "FreshTS (UnixTS m) (Unix (now en))" "lookupSession (HSession m) sv = None"
  shows "\<exists>sv' s. serverRx lb en (Some (AppendTag (blake_of lb) (mac sv) (hello_layout (h\<lparr>Type := TypeHello\<rparr>) m), a)) sv = Some sv' \<and>
    lookupSession (HSession m) sv' = Some s \<and> sReorder s = Reorder.New \<and> bind sv' = bind sv \<and>
    sent sv' = sent sv @ (let ack = AppendTag (blake_of lb) (mac sv) (hello_layout
            \<lparr>Type = TypeHelloAck, Flags = 0, PathID = PathID h, Epoch = 0\<rparr>
            \<lparr>HSession = HSession m, ClientID = ClientID m, Features = 0, UnixTS = Unix (now_at en 2)\<rparr>)
          in if net_to en a ack then [TxTo a ack] else [])"
  using assms
  by (simp add: hello_effect Let_def register_sent register_lookup register_bind lookup_add new_session_fields)

section \<open>Properties\<close>

text \<open>
  C15. A datagram outside the data plane that does not carry a valid tag changes nothing: it is
  neither answered nor delivered, and the table of sessions, with the paths, addresses and
  estimators in it, stays as it is. (Only a drop counter may move.)
\<close>

theorem server_ignores_forgeries:
  assumes forged: "Verify (blake_of lb) (mac sv) (take 2048 d) = None"
    and control: "case ParseHeader (take 2048 d) of Some (Inr h) \<Rightarrow> Type h \<noteq> TypeData \<and> Type h \<noteq> TypeFEC | _ \<Rightarrow> True"
  shows "\<exists>sv'. serverRx lb en (Some (d, a)) sv = Some sv' \<and> sessions sv' = sessions sv \<and> sent sv' = sent sv \<and> bind sv' = bind sv"
proof -
  let ?sv = "sv\<lparr>next_loan := next_loan sv + 1\<rparr>" and ?slab = "fill_slab (dirty en) d"
  let ?n = "min SlabSize (length d)"
  note s = slice_fill_slab [of "dirty en" d]
  have f: "Verify (blake_of lb) (mac ?sv) (take 2048 d) = None" using forged by simp
  obtain r where r: "ParseHeader (take 2048 d) = Some r"
    using ParseHeader_no_panic by blast
  have bd: "yields (unmoved ?sv) (Option.bind q (\<lambda>sv. Some (give_back [l] sv)))" if "yields (unmoved ?sv) q" for q l
    using that by (rule yields_bind) simp
  have "yields (unmoved ?sv) (handleServerDatagram lb en (next_loan sv) ?slab ?n a ?sv)"
  proof (cases r)
    case (Inr h)
    with control r have "Type h \<noteq> 0" "Type h \<noteq> 4" by simp_all
    then show ?thesis
      using bd [OF forged_control(1) [OF f, of en a]] bd [OF forged_control(2) [OF f, of en]]
        bd [OF forged_control(3) [OF f, of en]] bd [OF forged_control(4) [OF f, of en a]]
        bd [OF forged_control(5) [OF f, of en]]
      by (simp add: handleServerDatagram_def s r Inr del: SlabSize_def)
  qed (simp add: handleServerDatagram_def s r del: SlabSize_def)
  then show ?thesis
    by (auto simp: serverRx_def take_slab_def yields_def unmoved_def)
qed

theorem server_ignores_forgeries_witness:
  "\<exists>sv'. serverRx no_lib some_senv (Some ([0x10, 5], (NoAddr, 9))) (NewServer (NewMAC []) None True off) = Some sv' \<and> sessions sv' = []"
proof -
  have "Verify (blake_of no_lib) (mac (NewServer (NewMAC []) None True off)) (take 2048 [0x10, 5]) = None"
    by (simp add: Verify_def)
  moreover have "case ParseHeader (take 2048 [0x10, 5]) of Some (Inr h) \<Rightarrow> Type h \<noteq> TypeData \<and> Type h \<noteq> TypeFEC | _ \<Rightarrow> True"
    by (simp add: ParseHeader_def)
  ultimately show ?thesis
    using server_ignores_forgeries [of no_lib "NewServer (NewMAC []) None True off" "[0x10, 5]" some_senv "(NoAddr, 9)"]
    by auto
qed

text \<open>
  C16. Admission. An authentic HELLO is accepted exactly when its timestamp is fresh and its
  session is new or was opened by the same client. Then the session exists under the client's
  id, the path has the source address of the datagram, only that session has changed and a
  fresh authentic HELLO\_ACK for the path goes back to the source. Otherwise nothing changes:
  a session cannot be taken over by another client, nor revived by a replayed HELLO.
\<close>

theorem server_hello_admission:
  "\<exists>sv'. serverRx lb en (Some (AppendTag (blake_of lb) (mac sv) (hello_layout (h\<lparr>Type := TypeHello\<rparr>) m), a)) sv = Some sv' \<and>
    (if FreshTS (UnixTS m) (Unix (now en)) \<and>
        (case lookupSession (HSession m) sv of None \<Rightarrow> True | Some s \<Rightarrow> SClientID s = ClientID m)
     then (\<exists>s ps. (\<lambda>sid. lookupSession sid sv') = (\<lambda>sid. lookupSession sid sv)(HSession m := Some s) \<and>
          SClientID s = ClientID m \<and> lastSeen s = now_at en 1 \<and>
          path_of (PathID h) s = Some ps \<and> addr ps = a \<and> lastRx ps = now_at en 1) \<and>
        sent sv' = sent sv @ (let ack = AppendTag (blake_of lb) (mac sv) (hello_layout
            \<lparr>Type = TypeHelloAck, Flags = 0, PathID = PathID h, Epoch = 0\<rparr>
            \<lparr>HSession = HSession m, ClientID = ClientID m, Features = 0, UnixTS = Unix (now_at en 2)\<rparr>)
          in if net_to en a ack then [TxTo a ack] else [])
     else sessions sv' = sessions sv \<and> sent sv' = sent sv)"
  by (rule hello_admitted)

text \<open>
  C18. Roaming. A DATA datagram for a known session moves its path to the source address of the
  datagram, whatever its payload: no tag is checked, the session id is enough. Return traffic
  of the path then goes to that address.
\<close>

theorem data_moves_path:
  assumes inv: "server_inv insp X sv" and known: "lookupSession (Wire.Session d) sv = Some s"
    and d: "data_carried d ct" "DataLen d + length ct \<le> 2048"
  shows "\<exists>sv' s' ps. serverRx lb en (Some (data_layout d @ ct, a)) sv = Some sv' \<and>
    lookupSession (Wire.Session d) sv' = Some s' \<and> path_of (PathID (DHeader d)) s' = Some ps \<and>
    addr ps = a \<and> lastRx ps = now en"
proof -
  let ?d = "data_layout d @ ct" and ?sv = "sv\<lparr>next_loan := Suc (next_loan sv)\<rparr>"
  let ?i = "PathID (DHeader d)"
  have t: "take 2048 ?d = ?d" using d(2) by simp
  have pd: "ParseDataHeader ?d = Some (Inr (d, ct))"
    by (rule data_framing.parse_layout [OF d(1)])
  have "ParseHeader ?d = Some (Inr (DHeader d))"
    using d(1) by (simp add: data_layout_def header_layout_parse data_carried_def)
  then have r: "serverRx lb en (Some (?d, a)) sv =
      server_data lb en (next_loan sv) (fill_slab (dirty en) ?d) (min SlabSize (length ?d)) ?d a ?sv"
    using serverRx_control(2) [of ?d "DHeader d" lb en a sv] d(1) t by (simp add: data_carried_def)
  obtain sv' where sv': "serverRx lb en (Some (?d, a)) sv = Some sv'"
    using serverRx_ok [OF inv] by (metis yields_def)
  let ?sv1 = "accept_data en d (min SlabSize (length ?d)) a ?sv"
  obtain s1 ps where s1: "lookupSession (Wire.Session d) ?sv1 = Some s1" "path_of ?i s1 = Some ps" "addr ps = a" "lastRx ps = now en"
    using known by (auto simp: accept_data_def lookup_upd_session path_of_upd_ps path_of_touch)
  have "same_paths ?sv1 sv'"
    using sv' known by (intro server_data_same_paths [OF pd, of ?sv s]) (simp_all add: r)
  then have "map_option spaths (lookupSession (Wire.Session d) sv') = Some (spaths s1)"
    using s1(1) by (simp add: same_paths_def)
  then obtain s' where "lookupSession (Wire.Session d) sv' = Some s'" "spaths s' = spaths s1"
    by auto
  then show ?thesis
    using sv' s1 by (auto simp: path_of_def)
qed

theorem data_moves_path_witness:
  "\<exists>sv' s' ps. serverRx no_lib some_senv (Some (data_layout
        \<lparr>DHeader = \<lparr>Type = 0, Flags = 0, PathID = 1, Epoch = 0\<rparr>, Session = 7, GlobalSeq = 1, PathSeq = 1, TxTS = 0, FECGroup = 0, FECIndex = 0\<rparr> @ [9], (NoAddr, 4)))
      ((NewServer (NewMAC []) None True off)\<lparr>sessions := [(7, new_session 7 9 (NewServer (NewMAC []) None True off))]\<rparr>) = Some sv' \<and>
    lookupSession 7 sv' = Some s' \<and> path_of 1 s' = Some ps \<and> addr ps = (NoAddr, 4)"
proof -
  let ?n = "NewServer (NewMAC []) None True off"
  let ?sv = "?n\<lparr>sessions := [(7, new_session 7 9 ?n)]\<rparr>"
  let ?d = "\<lparr>DHeader = \<lparr>Type = 0, Flags = 0, PathID = 1, Epoch = 0\<rparr>, Session = 7, GlobalSeq = 1, PathSeq = 1, TxTS = 0, FECGroup = 0, FECIndex = 0\<rparr>"
  have "server_inv 0 {#} ?sv"
    using add_session_ok [OF NewServer_inv, of 7 "NewMAC []" None True off 9] by (simp add: lookupSession_def)
  from data_moves_path [OF this, of ?d "new_session 7 9 ?n" "[9]" no_lib some_senv "(NoAddr, 4)"] show ?thesis
    by (auto simp: lookupSession_def [of _ ?sv] data_carried_def DataLen_def)
qed

end
