(* ===== verification/Window.thy ===== *)
theory Window
  imports Reorder
begin

text \<open>
  The purpose of the reorder buffer: packets of one stream that arrive in any order within a
  window leave it in sequence order. A stream is given by its first sequence number \<open>s\<close> and
  the values \<open>v j\<close> pushed with the numbers \<open>s + j\<close>; offsets are natural numbers, so the wrap
  of the 32-bit numbers is covered.
\<close>

section \<open>Buffers that hold part of a window\<close>

abbreviation slot_of :: "u32 \<Rightarrow> nat \<Rightarrow> nat" where
  "slot_of s j \<equiv> ring (s + of_nat j)"

text \<open>Of the offsets \<open>P\<close> pushed, those below \<open>k\<close> were released and the others wait.\<close>

definition in_window :: "u32 \<Rightarrow> (nat \<Rightarrow> 'a) \<Rightarrow> nat set \<Rightarrow> nat \<Rightarrow> 'a buffer \<Rightarrow> bool" where
  "in_window s v P k b \<longleftrightarrow> nextExpected b = s + of_nat k \<and> waiting b = slot_of s ` (P - {..<k}) \<and>
     (\<forall>j \<in> P - {..<k}. sseq (slots b (slot_of s j)) = s + of_nat j \<and> sval (slots b (slot_of s j)) = v j)"

lemma slot_of_inj: "j < 8192 \<Longrightarrow> k < 8192 \<Longrightarrow> slot_of s j = slot_of s k \<Longrightarrow> j = k"
  by (simp add: ring_add) (rule mod_shift_inj)

lemma slot_waiting:
  assumes "in_window s v P k b" "P \<subseteq> {..<8192}" "j < 8192"
  shows "slot_of s j \<in> waiting b \<longleftrightarrow> j \<in> P \<and> k \<le> j"
proof
  assume "slot_of s j \<in> waiting b"
  then have "slot_of s j \<in> slot_of s ` (P - {..<k})"
    using assms(1) by (simp only: in_window_def)
  then obtain i where i: "slot_of s j = slot_of s i" "i \<in> P - {..<k}"
    by (rule imageE)
  then have "j = i" using assms(2,3) slot_of_inj [of j i s] by auto
  with i(2) show "j \<in> P \<and> k \<le> j" by auto
next
  assume "j \<in> P \<and> k \<le> j"
  then show "slot_of s j \<in> waiting b" using assms(1) by (auto simp: in_window_def)
qed

lemma in_window_release:
  assumes "in_window s v P k b" "P \<subseteq> {..<8192}" "k \<in> P"
  shows "in_window s v P (Suc k) ((release (slot_of s k) b)\<lparr>nextExpected := s + of_nat k + 1\<rparr>)"
proof -
  have k: "k < 8192" using assms(2,3) by auto
  have P: "P - {..<Suc k} = (P - {..<k}) - {k}" by auto
  have inj: "slot_of s j \<noteq> slot_of s k" if "j \<in> P - {..<Suc k}" for j
    using that slot_of_inj [of j k s] k assms(2) by auto
  have "slot_of s ` (P - {..<k}) - {slot_of s k} = slot_of s ` (P - {..<Suc k})"
    using inj unfolding P by auto
  moreover have "slots (release (slot_of s k) b) (slot_of s j) = slots b (slot_of s j)" if "j \<in> P - {..<Suc k}" for j
    using inj [OF that] by (rule slots_release)
  ultimately show ?thesis
    using assms(1) by (auto simp: in_window_def waiting_release add.commute add.left_commute)
qed

lemma drain_window:
  assumes "in_window s v P k b" "P \<subseteq> {..<8192}" "ring_ok b"
  shows "\<exists>k' b'. drainLocked b = (b', map (\<lambda>j. Deliver (v j) False) [k..<k']) \<and> in_window s v P k' b' \<and>
    k \<le> k' \<and> {k..<k'} \<subseteq> P \<and> k' \<notin> P"
  using assms
proof (induction "8192 - k" arbitrary: k b rule: less_induct)
  case less
  have n: "nextExpected b = s + of_nat k" using less.prems(1) by (simp add: in_window_def)
  show ?case
  proof (cases "k \<in> P")
    case False
    have "slot_of s k \<notin> waiting b"
    proof (cases "k < 8192")
      case True
      with False slot_waiting [OF less.prems(1,2)] show ?thesis by blast
    next
      case False
      then have "P - {..<k} = {}" using less.prems(2) by auto
      then have "waiting b = {}" using less.prems(1) by (simp only: in_window_def image_empty)
      then show ?thesis by simp
    qed
    then have "drainLocked b = (b, [])"
      using less.prems(3) by (intro drain_stop) (simp_all add: n)
    with False less.prems(1) show ?thesis by (intro exI [of _ k] exI [of _ b]) simp
  next
    case True
    then have k: "k < 8192" using less.prems(2) by auto
    then have w: "ring (nextExpected b) \<in> waiting b"
      using slot_waiting [OF less.prems(1,2)] True by (simp add: n)
    let ?b = "(release (slot_of s k) b)\<lparr>nextExpected := s + of_nat k + 1\<rparr>"
    have r: "ring_ok ?b"
      using ring_ok_advance [OF less.prems(3)] by (simp add: n)
    obtain k' b' where d: "drainLocked ?b = (b', map (\<lambda>j. Deliver (v j) False) [Suc k..<k'])"
        "in_window s v P k' b'" "Suc k \<le> k'" "{Suc k..<k'} \<subseteq> P" "k' \<notin> P"
      using less.hyps [OF _ in_window_release [OF less.prems(1,2) True] less.prems(2) r] diff_less_mono2 [OF lessI k] by blast
    have "sval (slots b (slot_of s k)) = v k"
      using less.prems(1) True by (simp add: in_window_def)
    then have "drainLocked b = (b', map (\<lambda>j. Deliver (v j) False) [k..<k'])"
      using drain_step(1) [OF less.prems(3) w] d(1,3) by (simp add: n upt_conv_Cons)
    moreover have "{k..<k'} \<subseteq> P"
      using d(4) True atLeastLessThan_iff by (metis Suc_leI le_neq_implies_less subset_iff)
    ultimately show ?thesis
      using d(2,3,5) by (intro exI [of _ k'] exI [of _ b']) simp
  qed
qed

lemma push_into_window:
  assumes w: "in_window s v P k b" and P: "P \<subseteq> {..<8192}" "{..<k} \<subseteq> P"
    and j: "j \<notin> P" "j < 8192" and b: "ring_ok b" "count_ok b" "started b"
  shows "\<exists>k' b'. Push t (s + of_nat j) (v j) b = (b', map (\<lambda>j. Deliver (v j) False) [k..<k']) \<and>
    in_window s v (insert j P) k' b' \<and> started b' \<and> k \<le> k' \<and> {..<k'} \<subseteq> insert j P \<and> k' \<notin> insert j P"
proof -
  let ?q = "s + of_nat j"
  have kj: "k \<le> j" using P(2) j(1) by (meson lessThan_iff not_le subsetD)
  have n: "nextExpected b = s + of_nat k" using w by (simp add: in_window_def)
  have "?q - nextExpected b = of_nat (j - k)" using kj by (simp add: n)
  then have near: "unat (?q - nextExpected b) < 8192"
    using j(2) by (simp add: unat_of_nat take_bit_eq_mod)
  let ?b = "put_slot t ?q (v j) (b\<lparr>farLate := 0\<rparr>)"
  have free: "slot_of s j \<notin> waiting b" using slot_waiting [OF w P(1) j(2)] j(1) by simp
  then have ins: "insertLocked t ?q (v j) (b\<lparr>farLate := 0\<rparr>) = (?b, [])"
    by (intro insert_free) simp
  have other: "slot_of s i \<noteq> slot_of s j" if "i \<in> P" for i
    using that slot_of_inj [of i j s] j P(1) by auto
  have "insert j P - {..<k} = insert j (P - {..<k})" using kj by auto
  then have w1: "in_window s v (insert j P) k ?b"
    using w other by (auto simp: in_window_def put_slot_def waiting_def) 
  have r1: "ring_ok ?b" "count_ok ?b"
    using put_slot_ok(1,2) [of "b\<lparr>farLate := 0\<rparr>" ?q t "v j"] b free near by simp_all
  obtain k' b' where d: "drainLocked ?b = (b', map (\<lambda>j. Deliver (v j) False) [k..<k'])"
      "in_window s v (insert j P) k' b'" "k \<le> k'" "{k..<k'} \<subseteq> insert j P" "k' \<notin> insert j P"
    using drain_window [OF w1 _ r1(1)] P(1) j(2) by auto
  have "Push t ?q (v j) b = (armTimerLocked b', map (\<lambda>j. Deliver (v j) False) [k..<k'])"
    using Push_window [OF b(3) near, of t "v j"] by (simp add: push_window_def ins d(1) Let_def)
  moreover have "in_window s v (insert j P) k' (armTimerLocked b')"
    using d(2) by (simp add: in_window_def)
  moreover have "{..<k'} \<subseteq> insert j P"
    using P(2) d(4) by (auto simp: subset_iff) (metis not_le)
  moreover have "started (armTimerLocked b')"
    using drainLocked_drains [OF r1 d(1)] b(3) by (simp add: drains_def same_control_def put_slot_def)
  ultimately show ?thesis using d(3,5) by blast
qed

lemma push_all_window:
  assumes "in_window s v P k b" "reorder_inv b" "started b" "P \<subseteq> {..<8192}" "{..<k} \<subseteq> P" "k \<notin> P"
    and "distinct js" "set js \<inter> P = {}" "set js \<subseteq> {..<8192}"
  shows "\<exists>k' b'. run_ops reorder_step (map (\<lambda>j. OpPush (t j) (s + of_nat j) (v j)) js) b =
      Some (b', map (\<lambda>j. Deliver (v j) False) [k..<k']) \<and>
    in_window s v (set js \<union> P) k' b' \<and> reorder_inv b' \<and> started b' \<and> k \<le> k' \<and> {..<k'} \<subseteq> set js \<union> P \<and> k' \<notin> set js \<union> P"
  using assms
proof (induction js arbitrary: P k b)
  case Nil
  then show ?case by (intro exI [of _ k] exI [of _ b]) simp
next
  case (Cons j js)
  have inv: "ring_ok b" "count_ok b" using Cons.prems(2) by (simp_all add: reorder_inv_def)
  obtain k1 b1 where 1: "Push (t j) (s + of_nat j) (v j) b = (b1, map (\<lambda>j. Deliver (v j) False) [k..<k1])"
      "in_window s v (insert j P) k1 b1" "started b1" "k \<le> k1" "{..<k1} \<subseteq> insert j P" "k1 \<notin> insert j P"
    using push_into_window [OF Cons.prems(1,4,5) _ _ inv Cons.prems(3), of j "t j"] Cons.prems(8,9) by auto
  have i1: "reorder_inv b1"
    using Push_inv [OF Cons.prems(2), of "t j" "s + of_nat j" "v j"] 1(1) by simp
  obtain k2 b2 where 2: "run_ops reorder_step (map (\<lambda>j. OpPush (t j) (s + of_nat j) (v j)) js) b1 =
      Some (b2, map (\<lambda>j. Deliver (v j) False) [k1..<k2])"
      "in_window s v (set js \<union> insert j P) k2 b2" "reorder_inv b2" "started b2" "k1 \<le> k2"
      "{..<k2} \<subseteq> set js \<union> insert j P" "k2 \<notin> set js \<union> insert j P"
    using Cons.IH [OF 1(2) i1 1(3) _ 1(5,6)] Cons.prems(4,7,8,9) by auto
  have "map f [k..<k1] @ map f [k1..<k2] = map f [k..<k2]" for f :: "nat \<Rightarrow> 'a out"
    using 1(4) 2(5) by (metis le_add_diff_inverse map_append upt_add_eq_append)
  then show ?case
    using 1(1,4) 2 by (intro exI [of _ k2] exI [of _ b2]) auto
qed

lemma window_done:
  assumes "in_window s v {..<n} n b" "reorder_inv b"
  shows "nextExpected b = s + of_nat n" "occupied b = 0"
  using assms count_pos [of b] by (auto simp: in_window_def reorder_inv_def count_ok_def)

lemma window_run:
  assumes n: "n \<le> 8192" "mset js = mset [0..<n]" and b: "reorder_inv b" "started b" "occupied b = 0" "nextExpected b = s"
  shows "\<exists>b'. run_ops reorder_step (map (\<lambda>j. OpPush (t j) (s + of_nat j) (v j)) js) b =
      Some (b', map (\<lambda>j. Deliver (v j) False) [0..<n]) \<and> nextExpected b' = s + of_nat n \<and> occupied b' = 0 \<and> reorder_inv b'"
proof -
  have js: "distinct js" "set js = {..<n}"
    using mset_eq_imp_distinct_iff [OF n(2)] mset_eq_setD [OF n(2)] by (simp_all add: atLeast0LessThan)
  have "waiting b = {}"
    using b count_pos [of b] by (auto simp: reorder_inv_def)
  then have "in_window s v {} 0 b"
    using b(4) by (simp add: in_window_def)
  then obtain k b' where r: "run_ops reorder_step (map (\<lambda>j. OpPush (t j) (s + of_nat j) (v j)) js) b =
        Some (b', map (\<lambda>j. Deliver (v j) False) [0..<k])"
      "in_window s v {..<n} k b'" "reorder_inv b'" "{..<k} \<subseteq> {..<n}" "k \<notin> {..<n}"
    using push_all_window [of s v "{}" 0 b js t] b(1,2) js n(1) by auto
  then have "k = n" by auto
  with r window_done show ?thesis by blast
qed

lemma window_run_start:
  assumes "n \<le> 8192" "mset js = mset [0..<n]" "reorder_inv b" "occupied b = 0"
    and "started b \<and> nextExpected b = s \<or> \<not> started b \<and> js \<noteq> [] \<and> hd js = 0"
  shows "\<exists>b'. run_ops reorder_step (map (\<lambda>j. OpPush (t j) (s + of_nat j) (v j)) js) b =
      Some (b', map (\<lambda>j. Deliver (v j) False) [0..<n]) \<and> nextExpected b' = s + of_nat n \<and> occupied b' = 0"
proof (cases "started b")
  case True
  with window_run [OF assms(1-3) True assms(4)] assms(5) show ?thesis by blast
next
  case False
  then obtain js' where js: "js = 0 # js'" using assms(5) by (cases js) auto
  let ?b = "start s b"
  have b: "reorder_inv ?b" "started ?b" "occupied ?b = 0" "nextExpected ?b = s"
    using start_ok [OF assms(3), where seq = s] assms(4) False by (auto simp: reorder_inv_def hold_ok_def start_def)
  have "Push (t 0) s (v 0) b = Push (t 0) s (v 0) ?b"
    using False by (simp add: Push_def start_def Let_def)
  then have "run_ops reorder_step (map (\<lambda>j. OpPush (t j) (s + of_nat j) (v j)) js) b =
      run_ops reorder_step (map (\<lambda>j. OpPush (t j) (s + of_nat j) (v j)) js) ?b"
    by (simp add: js)
  with window_run [OF assms(1,2) b] show ?thesis by auto
qed

section \<open>Properties\<close>

text \<open>
  Resequencing: a block of up to 8192 packets with consecutive sequence numbers that
  arrives in any order at an empty buffer, waiting for its first number or not yet started
  and given that one first, is delivered complete and in sequence order, each packet once and
  none as late or dropped; the buffer is then empty and waits for the number behind the block.
\<close>

theorem window_resequenced:
  assumes "n \<le> 8192" "mset js = mset [0..<n]" "reorder_inv b" "occupied b = 0"
    and "started b \<and> nextExpected b = s \<or> \<not> started b \<and> js \<noteq> [] \<and> hd js = 0"
  shows "\<exists>b'. run_ops reorder_step (map (\<lambda>j. OpPush (t j) (s + of_nat j) (v j)) js) b =
      Some (b', map (\<lambda>j. Deliver (v j) False) [0..<n]) \<and> nextExpected b' = s + of_nat n \<and> occupied b' = 0"
  by (rule window_run_start [OF assms])

theorem window_resequenced_witness:
  "\<exists>b'. run_ops reorder_step [OpPush 5 0xFFFFFFFE 10, OpPush 6 1 13, OpPush 7 0 12, OpPush 8 0xFFFFFFFF (11 :: int)] New =
     Some (b', [Deliver 10 False, Deliver 11 False, Deliver 12 False, Deliver 13 False])"
proof -
  have "mset [0, 3, 2, 1 :: nat] = mset [0..<4]" by (simp add: upt_rec numeral_eq_Suc add_mset_commute)
  from window_resequenced [OF _ this New_inv, of "0xFFFFFFFE" "\<lambda>j. [5, 8, 7, 6] ! j" "\<lambda>j. 10 + int j"]
  moreover have "(0x100000000 :: u32) = 0" "(0x100000001 :: u32) = 1"
    by (subst word_uint_eq_iff; simp)+
  ultimately show ?thesis
    by (auto simp: New_def upt_rec numeral_3_eq_3 numeral_2_eq_2 simp del: run_ops.simps)
qed

end
