(* ===== verification/Receiving.thy ===== *)
theory Receiving
  imports ServerProps Window
begin

text \<open>
  What the receiving half of an engine does with a stream of bulk packets, up to the queue that
  WireGuard reads: the part that client and server have in common.
\<close>

section \<open>The way up to WireGuard when its queue has room\<close>

definition open_queue :: "EngineBind \<Rightarrow> Inbound list option" where
  "open_queue b = (case rx b of
     None \<Rightarrow> None
   | Some i \<Rightarrow> if \<not> closed b \<and> i < length (chans b) \<and> \<not> ch_closed (chans b ! i) then Some (queue (chans b ! i)) else None)"

lemma deliver_up_open:
  assumes "open_queue (bind e) = Some q" "length q < 1024"
  shows "\<exists>b'. deliver_up pkt ep e = Some (e\<lparr>bind := b'\<rparr>) \<and> open_queue b' = Some (q @ [\<lparr>Pkt = pkt, Ep = ep\<rparr>])"
proof -
  obtain i where i: "rx (bind e) = Some i" "\<not> closed (bind e)" "i < length (chans (bind e))"
      "\<not> ch_closed (chans (bind e) ! i)" "queue (chans (bind e) ! i) = q"
    using assms(1) by (auto simp: open_queue_def split: option.splits if_splits)
  let ?b = "upd_chan i (\<lambda>c. c\<lparr>queue := queue c @ [\<lparr>Pkt = pkt, Ep = ep\<rparr>]\<rparr>) (bind e)"
  have "deliver_up pkt ep e = Some (e\<lparr>bind := ?b\<rparr>)"
    using i assms(2) by (simp add: deliver_up_def Bridge.Deliver_def give_back_def)
  moreover have "open_queue ?b = Some (q @ [\<lparr>Pkt = pkt, Ep = ep\<rparr>])"
    using i by (simp add: open_queue_def upd_chan_def)
  ultimately show ?thesis by blast
qed

lemma run_outs_open:
  assumes "open_queue (bind e) = Some q" "length q + length vs \<le> 1024"
  shows "\<exists>b'. run_outs ep (map (\<lambda>v. out.Deliver v False) vs) e = Some (e\<lparr>bind := b'\<rparr>) \<and>
    open_queue b' = Some (q @ map (\<lambda>v. \<lparr>Pkt = v, Ep = ep\<rparr>) vs)"
  using assms
proof (induction vs arbitrary: e q)
  case Nil
  then show ?case by (intro exI [of _ "bind e"]) simp
next
  case (Cons v vs)
  obtain b1 where b1: "deliver_up v ep e = Some (e\<lparr>bind := b1\<rparr>)" "open_queue b1 = Some (q @ [\<lparr>Pkt = v, Ep = ep\<rparr>])"
    using deliver_up_open [OF Cons.prems(1), of v ep] Cons.prems(2) by auto
  then show ?case
    using Cons.IH [of "e\<lparr>bind := b1\<rparr>"] Cons.prems(2) by auto
qed

section \<open>Part of a stream\<close>

text \<open>
  Of a stream that starts at \<open>seq\<close> with ciphertexts \<open>ct j\<close>, the offsets \<open>P\<close> were pushed into the
  buffer: the unbroken prefix is in WireGuard's queue behind \<open>q\<close>, under the session \<open>sid\<close>, and the
  rest waits. A buffer that has not started yet has seen nothing.
\<close>

definition stream_in :: "u32 \<Rightarrow> u32 \<Rightarrow> (nat \<Rightarrow> bytes) \<Rightarrow> Inbound list \<Rightarrow> nat set \<Rightarrow> Packet buffer \<Rightarrow> EngineBind \<Rightarrow> bool" where
  "stream_in sid seq ct q P b bd \<longleftrightarrow> reorder_inv b \<and> (\<exists>v k q'.
     (if started b then in_window seq v P k b else P = {} \<and> k = 0 \<and> occupied b = 0) \<and>
     (\<forall>j \<in> P. Bytes (v j) = Some (ct j)) \<and> {..<k} \<subseteq> P \<and> k \<notin> P \<and>
     open_queue bd = Some (q @ q') \<and> map (\<lambda>x. (Ep x, Bytes (Pkt x))) q' = map (\<lambda>j. (sid, Some (ct j))) [0..<k])"

lemma empty_window:
  assumes "reorder_inv b" "occupied b = 0" "nextExpected b = seq"
  shows "in_window seq v {} 0 b"
  using assms count_pos [of b] by (auto simp: in_window_def reorder_inv_def)

lemma stream_start:
  assumes "reorder_inv b" "occupied b = 0" "started b \<longrightarrow> nextExpected b = seq" "open_queue bd = Some q"
  shows "stream_in sid seq ct q {} b bd"
  using assms empty_window [OF assms(1,2), of seq undefined] by (fastforce simp: stream_in_def)

lemma stream_done:
  assumes "stream_in sid seq ct q {..<n} b bd"
  shows "\<exists>q'. open_queue bd = Some (q @ q') \<and> map (\<lambda>x. (Ep x, Bytes (Pkt x))) q' = map (\<lambda>j. (sid, Some (ct j))) [0..<n]"
proof -
  obtain k q' where k: "{..<k} \<subseteq> {..<n}" "k \<notin> {..<n}" "open_queue bd = Some (q @ q')"
      "map (\<lambda>x. (Ep x, Bytes (Pkt x))) q' = map (\<lambda>j. (sid, Some (ct j))) [0..<k]"
    using assms unfolding stream_in_def by blast
  then have "k = n" by auto
  with k show ?thesis by blast
qed

lemma in_window_upd: "in_window s v P k b \<Longrightarrow> j \<notin> P \<Longrightarrow> in_window s (v(j := x)) P k b"
  by (auto simp: in_window_def)

lemma push_starts:
  assumes "reorder_inv b" "\<not> started b" "occupied b = 0"
  shows "Push t seq pkt b = Push t seq pkt (start seq b)" "reorder_inv (start seq b)" "started (start seq b)"
    "in_window seq v {} 0 (start seq b)"
proof -
  show s: "reorder_inv (start seq b)" "started (start seq b)"
    using start_ok [OF assms(1), where seq = seq] assms(2,3) by (auto simp: reorder_inv_def hold_ok_def start_def)
  show "Push t seq pkt b = Push t seq pkt (start seq b)"
    using assms(2) by (simp add: Push_def start_def Let_def)
  show "in_window seq v {} 0 (start seq b)"
    by (rule empty_window [OF s(1)]) (use assms(2,3) in \<open>simp_all add: start_def\<close>)
qed

text \<open>One more packet of the stream, at the offset \<open>j\<close>.\<close>

lemma stream_push_started:
  assumes inv: "reorder_inv b" "started b" and w: "in_window seq v P k b" "\<forall>j \<in> P. Bytes (v j) = Some (ct j)" "{..<k} \<subseteq> P"
    and q: "open_queue (bind e) = Some (q @ q')" "map (\<lambda>x. (Ep x, Bytes (Pkt x))) q' = map (\<lambda>j. (sid, Some (ct j))) [0..<k]"
    and P: "P \<subseteq> {..<n}" "length q + n \<le> 1024" and j: "j < n" "j \<notin> P" and pkt: "Bytes pkt = Some (ct j)"
    and push: "Push t (seq + of_nat j) pkt b = (b', os)"
  shows "\<exists>bd. run_outs sid os e = Some (e\<lparr>bind := bd\<rparr>) \<and> stream_in sid seq ct q (insert j P) b' bd \<and> started b'"
proof -
  let ?v = "v(j := pkt)"
  have ok: "ring_ok b" "count_ok b" using inv by (simp_all add: reorder_inv_def)
  have big: "P \<subseteq> {..<8192}" "j < 8192" using P j(1) by auto
  obtain k' where 1: "os = map (\<lambda>j. out.Deliver (?v j) False) [k..<k']"
      "in_window seq ?v (insert j P) k' b'" "started b'" "k \<le> k'" "{..<k'} \<subseteq> insert j P" "k' \<notin> insert j P"
    using push_into_window [OF in_window_upd [OF w(1) j(2), of pkt] big(1) w(3) j(2) big(2) ok inv(2), of t] push by auto
  have b: "reorder_inv b'" using Push_inv [OF inv(1), of t "seq + of_nat j" pkt] push by simp
  have bytes: "\<forall>i \<in> insert j P. Bytes (?v i) = Some (ct i)" using w(2) pkt by simp
  have out: "\<forall>i \<in> set [k..<k']. Bytes (?v i) = Some (ct i)"
    using bytes 1(5) by (metis atLeastLessThan_iff lessThan_iff set_upt subsetD)
  have "insert j P \<subseteq> {..<n}" using P(1) j(1) by simp
  with 1(5) have "{..<k'} \<subseteq> {..<n}" by (rule order_trans)
  then have k': "k' \<le> n" by simp
  have "length q' = k" using arg_cong [OF q(2), of length] by simp
  then have room: "length (q @ q') + length (map ?v [k..<k']) \<le> 1024" using k' P(2) 1(4) by simp
  let ?new = "map (\<lambda>v. \<lparr>Pkt = v, Ep = sid\<rparr>) (map ?v [k..<k'])"
  obtain bd where bd: "run_outs sid (map (\<lambda>v. out.Deliver v False) (map ?v [k..<k'])) e = Some (e\<lparr>bind := bd\<rparr>)"
      "open_queue bd = Some ((q @ q') @ ?new)"
    using run_outs_open [OF q(1) room] by blast
  have "map (\<lambda>x. (Ep x, Bytes (Pkt x))) (q' @ ?new) = map (\<lambda>j. (sid, Some (ct j))) ([0..<k] @ [k..<k'])"
    unfolding map_append q(2) using out by simp
  also have "[0..<k] @ [k..<k'] = [0..<k']" using 1(4) by (metis le_add_diff_inverse upt_add_eq_append zero_le)
  finally have new: "map (\<lambda>x. (Ep x, Bytes (Pkt x))) (q' @ ?new) = map (\<lambda>j. (sid, Some (ct j))) [0..<k']" .
  have "stream_in sid seq ct q (insert j P) b' bd"
    unfolding stream_in_def using b 1(2,3,5,6) bytes bd(2) new
    by (intro conjI exI [of _ ?v] exI [of _ k'] exI [of _ "q' @ ?new"]) simp_all
  moreover have "run_outs sid os e = Some (e\<lparr>bind := bd\<rparr>)" using bd(1) by (simp add: 1(1) comp_def)
  ultimately show ?thesis using 1(3) by blast
qed

lemma stream_push:
  assumes s: "stream_in sid seq ct q P b (bind e)" "P \<subseteq> {..<n}" "length q + n \<le> 1024"
    and j: "j < n" "j \<notin> P" "started b \<or> j = 0" and pkt: "Bytes pkt = Some (ct j)"
    and push: "Push t (seq + of_nat j) pkt b = (b', os)"
  shows "\<exists>bd. run_outs sid os e = Some (e\<lparr>bind := bd\<rparr>) \<and> stream_in sid seq ct q (insert j P) b' bd \<and> started b'"
proof -
  obtain v k q' where 0: "reorder_inv b" "if started b then in_window seq v P k b else P = {} \<and> k = 0 \<and> occupied b = 0"
      "\<forall>j \<in> P. Bytes (v j) = Some (ct j)" "{..<k} \<subseteq> P"
      "open_queue (bind e) = Some (q @ q')" "map (\<lambda>x. (Ep x, Bytes (Pkt x))) q' = map (\<lambda>j. (sid, Some (ct j))) [0..<k]"
    using s(1) unfolding stream_in_def by blast
  show ?thesis
  proof (cases "started b")
    case True
    with 0(2) have w: "in_window seq v P k b" by simp
    show ?thesis by (rule stream_push_started [OF 0(1) True w 0(3-6) s(2,3) j(1,2) pkt push])
  next
    case False
    then have f: "P = {}" "k = 0" "occupied b = 0" "j = 0" using 0(2) j(3) by simp_all
    note st = push_starts [OF 0(1) False f(3)]
    have "Push t (seq + of_nat j) pkt (start seq b) = (b', os)"
      using push st(1) [of t seq pkt] f(4) by simp
    from stream_push_started [OF st(2,3) st(4) _ _ 0(5,6) [unfolded f(2)] _ s(3) j(1) _ pkt this]
    show ?thesis by (simp add: f(1))
  qed
qed

section \<open>Receivers\<close>

fun feed :: "('x \<Rightarrow> 's \<Rightarrow> 's option) \<Rightarrow> 'x list \<Rightarrow> 's \<Rightarrow> 's option" where
  "feed step [] s = Some s"
| "feed step (x # xs) s = Option.bind (step x s) (feed step xs)"

text \<open>
  What a receiver promises: a datagram that carries an offset of the stream it has not seen yet
  takes the stream one offset further. Then it delivers a stream whatever the order of arrival.
\<close>

locale receiver =
  fixes step :: "'x \<Rightarrow> 's \<Rightarrow> 's option"
    and carries :: "u32 \<Rightarrow> u32 \<Rightarrow> (nat \<Rightarrow> bytes) \<Rightarrow> nat \<Rightarrow> 'x \<Rightarrow> bool"
    and streams :: "u32 \<Rightarrow> u32 \<Rightarrow> (nat \<Rightarrow> bytes) \<Rightarrow> Inbound list \<Rightarrow> nat set \<Rightarrow> 's \<Rightarrow> bool"
    and begun :: "u32 \<Rightarrow> 's \<Rightarrow> bool"
  assumes takes: "streams sid seq ct q P s \<Longrightarrow> P \<subseteq> {..<n} \<Longrightarrow> length q + n \<le> 1024 \<Longrightarrow> j < n \<Longrightarrow> j \<notin> P \<Longrightarrow>
      begun sid s \<or> j = 0 \<Longrightarrow> carries sid seq ct j x \<Longrightarrow>
      \<exists>s'. step x s = Some s' \<and> streams sid seq ct q (insert j P) s' \<and> begun sid s'"
begin

lemma takes_all:
  assumes "streams sid seq ct q P s" "P \<subseteq> {..<n}" "length q + n \<le> 1024" "distinct js" "set js \<subseteq> {..<n}" "set js \<inter> P = {}"
    and "begun sid s \<or> js = [] \<or> hd js = 0" "\<forall>j \<in> set js. carries sid seq ct j (x j)"
  shows "\<exists>s'. feed step (map x js) s = Some s' \<and> streams sid seq ct q (set js \<union> P) s'"
  using assms
proof (induction js arbitrary: s P)
  case (Cons j js)
  obtain s1 where 1: "step (x j) s = Some s1" "streams sid seq ct q (insert j P) s1" "begun sid s1"
    using takes [OF Cons.prems(1-3), of j "x j"] Cons.prems(4-8) by auto
  from Cons.IH [OF 1(2)] 1(1,3) Cons.prems(2-6,8) show ?case by auto
qed simp

lemma delivers:
  assumes "streams sid seq ct q {} s" "length q + n \<le> 1024" "mset js = mset [0..<n]"
    and "begun sid s \<or> js \<noteq> [] \<and> hd js = 0" "\<And>j. j < n \<Longrightarrow> carries sid seq ct j (x j)"
  shows "\<exists>s'. feed step (map x js) s = Some s' \<and> streams sid seq ct q {..<n} s'"
proof -
  have js: "distinct js" "set js = {..<n}"
    using mset_eq_imp_distinct_iff [OF assms(3)] mset_eq_setD [OF assms(3)] by (simp_all add: atLeast0LessThan)
  then show ?thesis
    using takes_all [OF assms(1) _ assms(2) js(1), of x] assms(4,5) by auto
qed

end

end
