(* ===== verification/Tunnel.thy ===== *)
theory Tunnel
  imports Receiving
begin

text \<open>
  Both ends together: what the client writes to its sockets is what the server takes apart.
  The network between them is any choice of which datagrams arrive, in which order and from
  which address.
\<close>

section \<open>The server takes a stream\<close>

fun payload_of :: "net_out \<Rightarrow> bytes" where
  "payload_of (Tx i d) = d"
| "payload_of (TxTo a d) = d"

fun server_feed :: "lib \<Rightarrow> (senv \<times> AddrPort \<times> bytes) list \<Rightarrow> Server \<Rightarrow> Server option" where
  "server_feed lb [] sv = Some sv"
| "server_feed lb ((en, a, d) # xs) sv = Option.bind (serverRx lb en (Some (d, a)) sv) (server_feed lb xs)"

lemma server_feed_feed: "server_feed lb xs sv = feed (\<lambda>(en, a, d). serverRx lb en (Some (d, a))) xs sv"
  by (induction lb xs sv rule: server_feed.induct) (auto split: bind_split)

text \<open>A DATA header of the bulk class without FEC information.\<close>

definition plain_bulk :: "u32 \<Rightarrow> DataHeader \<Rightarrow> bool" where
  "plain_bulk sid h \<longleftrightarrow> Wire.Session h = sid \<and> Type (DHeader h) = TypeData \<and> Flags (DHeader h) = 0 \<and> FECGroup h = 0 \<and> FECIndex h = 0"

lemma plain_bulk_facts:
  assumes "plain_bulk sid h"
  shows "data_carried h ct" "DataLen h = 20" "Class (DHeader h) = 0" "Flags (DHeader h) AND 2 = 0"
  using assms by (simp_all add: plain_bulk_def data_carried_def DataLen_def Class_def)

text \<open>The datagram that carries the offset \<open>j\<close> of a plain stream.\<close>

definition plain_dgram :: "u32 \<Rightarrow> u32 \<Rightarrow> (nat \<Rightarrow> bytes) \<Rightarrow> nat \<Rightarrow> bytes \<Rightarrow> bool" where
  "plain_dgram sid seq ct j d \<longleftrightarrow> (\<exists>h. d = data_layout h @ ct j \<and> plain_bulk sid h \<and> GlobalSeq h = seq + of_nat j) \<and> length (ct j) \<le> 2028"

lemma plain_dgram_parse:
  assumes "plain_dgram sid seq ct j d"
  obtains h where "plain_bulk sid h" "GlobalSeq h = seq + of_nat j" "take 2048 d = d" "ParseHeader d = Some (Inr (DHeader h))"
    "ParseDataHeader d = Some (Inr (h, ct j))"
    "\<And>l old. Bytes \<lparr>Slab = Some (l, fill_slab old d), Off = DataLen h, Len = length (ct j)\<rparr> = Some (ct j)"
proof -
  obtain h where h: "d = data_layout h @ ct j" "plain_bulk sid h" "GlobalSeq h = seq + of_nat j" "length (ct j) \<le> 2028"
    using assms by (auto simp: plain_dgram_def)
  note f = plain_bulk_facts [OF h(2)]
  have "ParseDataHeader d = Some (Inr (h, ct j))" unfolding h(1) by (rule data_framing.parse_layout [OF f(1)])
  moreover have "ParseHeader d = Some (Inr (DHeader h))"
    using h(2) by (simp add: h(1) data_layout_def header_layout_parse plain_bulk_def)
  moreover have "Bytes \<lparr>Slab = Some (l, fill_slab old d), Off = DataLen h, Len = length (ct j)\<rparr> = Some (ct j)" for l old
    using h(4) f(2) by (simp add: h(1) Bytes_def fill_slab_def slice_ok)
  ultimately show thesis using that h f(2) by simp
qed

lemma stream_frame [simp]:
  "bind (upd_session sid f sv) = bind sv" "bind (accept_data en h n a sv) = bind sv"
  by (simp_all add: upd_session_def accept_data_def bump_def)

definition sess_streams :: "u32 \<Rightarrow> u32 \<Rightarrow> (nat \<Rightarrow> bytes) \<Rightarrow> Inbound list \<Rightarrow> nat set \<Rightarrow> Server \<Rightarrow> bool" where
  "sess_streams sid seq ct q P sv \<longleftrightarrow> (\<exists>s. lookupSession sid sv = Some s \<and> stream_in sid seq ct q P (sReorder s) (bind sv))"

definition sess_begun :: "u32 \<Rightarrow> Server \<Rightarrow> bool" where
  "sess_begun sid sv \<longleftrightarrow> (\<exists>s. lookupSession sid sv = Some s \<and> started (sReorder s))"

text \<open>A push into the buffer of a session keeps the other fields of the session.\<close>

lemma sess_push_streams:
  assumes s: "lookupSession sid sv = Some s" "stream_in sid seq ct q P (sReorder s) (bind sv)" "P \<subseteq> {..<n}" "length q + n \<le> 1024"
    and j: "j < n" "j \<notin> P" "started (sReorder s) \<or> j = 0" and pkt: "Bytes pkt = Some (ct j)"
  shows "\<exists>sv' b. sess_push t sid (seq + of_nat j) pkt sv = Some sv' \<and> lookupSession sid sv' = Some (s\<lparr>sReorder := b\<rparr>) \<and>
    stream_in sid seq ct q (insert j P) b (bind sv') \<and> started b"
proof -
  obtain b os where p: "Push t (seq + of_nat j) pkt (sReorder s) = (b, os)" by fastforce
  let ?sv = "upd_session sid (\<lambda>s. s\<lparr>sReorder := b\<rparr>) sv"
  have "stream_in sid seq ct q P (sReorder s) (bind ?sv)" using s(2) by simp
  from stream_push [OF this s(3,4) j pkt p] obtain bd where bd: "run_outs sid os ?sv = Some (?sv\<lparr>bind := bd\<rparr>)"
      "stream_in sid seq ct q (insert j P) b bd" "started b"
    by blast
  have "lookupSession sid (?sv\<lparr>bind := bd\<rparr>) = Some (s\<lparr>sReorder := b\<rparr>)"
    using s(1) lookup_upd_session [of sid sid "\<lambda>s. s\<lparr>sReorder := b\<rparr>" sv] by (simp add: lookupSession_def)
  then show ?thesis
    using bd s(1) p by (intro exI [of _ "?sv\<lparr>bind := bd\<rparr>"] exI [of _ b]) (simp add: sess_push_def)
qed

lemma server_takes_plain:
  assumes s: "sess_streams sid seq ct q P sv" "P \<subseteq> {..<n}" "length q + n \<le> 1024"
    and j: "j < n" "j \<notin> P" "sess_begun sid sv \<or> j = 0" and d: "plain_dgram sid seq ct j d"
  shows "\<exists>sv'. serverRx lb en (Some (d, a)) sv = Some sv' \<and> sess_streams sid seq ct q (insert j P) sv' \<and> sess_begun sid sv'"
proof -
  obtain h where h: "plain_bulk sid h" "GlobalSeq h = seq + of_nat j" "take 2048 d = d" "ParseHeader d = Some (Inr (DHeader h))"
      "ParseDataHeader d = Some (Inr (h, ct j))"
      "\<And>l old. Bytes \<lparr>Slab = Some (l, fill_slab old d), Off = DataLen h, Len = length (ct j)\<rparr> = Some (ct j)"
    using plain_dgram_parse [OF d] by blast
  note f = plain_bulk_facts [OF h(1)]
  have sid: "Wire.Session h = sid" "Type (DHeader h) = TypeData" using h(1) by (simp_all add: plain_bulk_def)
  obtain s where s0: "lookupSession sid sv = Some s" "stream_in sid seq ct q P (sReorder s) (bind sv)"
    using s(1) by (auto simp: sess_streams_def)
  let ?sv = "sv\<lparr>next_loan := Suc (next_loan sv)\<rparr>" and ?n = "min SlabSize (length d)"
  let ?sv1 = "accept_data en h ?n a ?sv"
  let ?pkt = "\<lparr>Slab = Some (next_loan sv, fill_slab (dirty en) d), Off = DataLen h, Len = length (ct j)\<rparr>"
  have "serverRx lb en (Some (d, a)) sv = server_data lb en (next_loan sv) (fill_slab (dirty en) d) ?n d a ?sv"
    using serverRx_control(2) [of d "DHeader h" lb en a sv] sid(2) h(3,4) by simp
  also have "\<dots> = sess_push (now en) sid (seq + of_nat j) ?pkt ?sv1"
    using f s0(1) by (simp add: server_data_known [OF h(5), of ?sv s] sid h(2) Let_def)
  finally have r: "serverRx lb en (Some (d, a)) sv = \<dots>" .
  obtain s1 where s1: "lookupSession sid ?sv1 = Some s1" "sReorder s1 = sReorder s"
    using s0(1) by (simp add: accept_data_def lookup_upd_session sid upd_ps_def touchPath_def Let_def)
  have "started (sReorder s1) \<or> j = 0" using j(3) s0(1) s1(2) by (auto simp: sess_begun_def)
  moreover have "stream_in sid seq ct q P (sReorder s1) (bind ?sv1)" using s0(2) s1(2) by simp
  ultimately obtain sv' b where "sess_push (now en) sid (seq + of_nat j) ?pkt ?sv1 = Some sv'"
      "lookupSession sid sv' = Some (s1\<lparr>sReorder := b\<rparr>)" "stream_in sid seq ct q (insert j P) b (bind sv')" "started b"
    using sess_push_streams [where ct = ct and j = j and pkt = ?pkt, OF s1(1) _ s(2,3) j(1,2) _ h(6)] by blast
  then show ?thesis
    unfolding r by (intro exI [of _ sv']) (simp add: sess_streams_def sess_begun_def)
qed

interpretation up: receiver "\<lambda>(en, a, d). serverRx lb en (Some (d, a))" "\<lambda>sid seq ct j (en, a, d). plain_dgram sid seq ct j d"
    sess_streams sess_begun for lb
  by unfold_locales (auto intro: server_takes_plain)

section \<open>The client sends a stream\<close>

text \<open>
  A client that sends plain bulk: no classifier, no FEC, a usable path, every socket open and
  no path dropping early.
\<close>

definition bulk_ready :: "Engine \<Rightarrow> bool" where
  "bulk_ready e \<longleftrightarrow> classifier e = None \<and> fecEnc e = None \<and> sendablePaths e \<noteq> [] \<and>
     (\<forall>p \<in> set (paths e). conn p \<and> DropProb (pLink p) \<le> 0)"

text \<open>WireGuard transport data that is not a keepalive and fits a slab.\<close>

definition transport :: "bytes \<Rightarrow> bool" where
  "transport ct \<longleftrightarrow> 4 \<le> length ct \<and> length ct \<noteq> 32 \<and> ct ! 0 = 4 \<and> length ct \<le> 2028"

lemma sendable_cong:
  assumes "length (paths e') = length (paths e)"
    and "\<And>k. k < length (paths e) \<Longrightarrow> registered (paths e' ! k) = registered (paths e ! k)"
    and "\<And>k. k < length (paths e) \<Longrightarrow> up (pLink (paths e' ! k)) = up (pLink (paths e ! k))"
  shows "sendablePaths e' = sendablePaths e"
proof -
  have r: "filter (\<lambda>i. registered (paths e' ! i)) [0..<length (paths e')] = filter (\<lambda>i. registered (paths e ! i)) [0..<length (paths e)]"
    unfolding assms(1) by (rule filter_cong) (simp_all add: assms(2))
  have "filter (\<lambda>i. up (pLink (paths e' ! i))) (filter (\<lambda>i. registered (paths e ! i)) [0..<length (paths e)]) =
      filter (\<lambda>i. up (pLink (paths e ! i))) (filter (\<lambda>i. registered (paths e ! i)) [0..<length (paths e)])"
    by (rule filter_cong) (simp_all add: assms(3))
  then show ?thesis unfolding sendablePaths_def Let_def r by simp
qed

lemma bulk_header:
  "plain_bulk sess (data_header p ClassBulk False sess seq ts noTag)"
  "GlobalSeq (data_header p ClassBulk False sess seq ts noTag) = seq"
  by (simp_all add: plain_bulk_def data_header_def ClassFlags_def noTag_def)

text \<open>What sending needs of the client whatever its FEC does, and one datagram sent.\<close>

definition clear_to_send :: "Engine \<Rightarrow> bool" where
  "clear_to_send e \<longleftrightarrow> classifier e = None \<and> sendablePaths e \<noteq> [] \<and> (\<forall>p \<in> set (paths e). conn p \<and> DropProb (pLink p) \<le> 0)"

lemma bulk_ready_clear: "bulk_ready e \<longleftrightarrow> clear_to_send e \<and> fecEnc e = None"
  by (auto simp: bulk_ready_def clear_to_send_def)

lemma clear_cong:
  assumes "clear_to_send e" "classifier e' = classifier e" "length (paths e') = length (paths e)"
    and "\<And>k. k < length (paths e) \<Longrightarrow> registered (paths e' ! k) = registered (paths e ! k) \<and>
      pLink (paths e' ! k) = pLink (paths e ! k) \<and> conn (paths e' ! k) = conn (paths e ! k)"
  shows "clear_to_send e'"
proof -
  have "sendablePaths e' = sendablePaths e"
    using assms(3,4) by (intro sendable_cong) simp_all
  moreover have "conn p \<and> DropProb (pLink p) \<le> 0" if p: "p \<in> set (paths e')" for p
  proof -
    obtain k where "k < length (paths e)" "p = paths e' ! k"
      using p unfolding in_set_conv_nth assms(3) by blast
    then show ?thesis using assms(1,4) by (simp add: clear_to_send_def)
  qed
  ultimately show ?thesis using assms(1,2) by (simp add: clear_to_send_def)
qed

lemma clear_frame [simp]:
  "clear_to_send (e\<lparr>wsched := m\<rparr>) = clear_to_send e" "clear_to_send (e\<lparr>globalSeq := n\<rparr>) = clear_to_send e"
  "clear_to_send (e\<lparr>fecEnc := enc\<rparr>) = clear_to_send e" "clear_to_send (e\<lparr>next_loan := l\<rparr>) = clear_to_send e"
  "clear_to_send (e\<lparr>sent := ss\<rparr>) = clear_to_send e" "clear_to_send (give_back ls e) = clear_to_send e"
  "clear_to_send (sent_ok n' e) = clear_to_send e"
  by (simp_all add: clear_to_send_def sendablePaths_def give_back_def sent_ok_def bump_def)

lemma clear_path: "clear_to_send e \<Longrightarrow> i < length (paths e) \<Longrightarrow> conn (paths e ! i) \<and> \<not> DropProb (pLink (paths e ! i)) > 0"
  by (auto simp: clear_to_send_def dest!: bspec [of _ _ "paths e ! i"])

lemma write_clear:
  "clear_to_send e \<Longrightarrow> i < length (paths e) \<Longrightarrow> net en i d \<Longrightarrow> path_write en i d e = (e\<lparr>sent := sent e @ [Tx i d]\<rparr>, True)"
  using clear_path [of e i] by (simp add: path_write_def)

lemma sendDataOn_clear:
  assumes e: "clear_to_send e" "i < length (paths e)" and net: "\<And>i d. net en i d"
    and h: "h = data_header (paths e ! i) class dup (session e) seq (ucast clock) tag" "DataLen h + length ct \<le> 2048"
  shows "\<exists>e'. sendDataOn en i class dup seq clock tag ct e = Some e' \<and> clear_to_send e' \<and> session e' = session e \<and>
    globalSeq e' = globalSeq e \<and> fecEnc e' = fecEnc e \<and> sent e' = sent e @ [Tx i (data_layout h @ ct)]"
proof -
  have put: "PutDataHeader (Get (dirty en)) h = Some (data_layout h @ drop (DataLen h) (Get (dirty en)), DataLen h)"
    using h(2) by (intro PutDataHeader_layout) simp
  let ?e1 = "upd_path i (\<lambda>p. p\<lparr>pathSeq := pathSeq p + 1\<rparr>) (e\<lparr>next_loan := Suc (next_loan e)\<rparr>)"
  let ?d = "data_layout h @ ct"
  let ?e2 = "give_back [next_loan e] (sent_ok (DataLen h + length ct) (?e1\<lparr>sent := sent ?e1 @ [Tx i ?d]\<rparr>))"
  have "registered (paths ?e1 ! k) = registered (paths e ! k) \<and> pLink (paths ?e1 ! k) = pLink (paths e ! k) \<and>
      conn (paths ?e1 ! k) = conn (paths e ! k)" if "k < length (paths e)" for k
    using that by (cases "k = i") (simp_all add: upd_path_def)
  then have c: "clear_to_send ?e1"
    by (intro clear_cong [OF e(1)]) (simp_all add: upd_path_def)
  moreover have "i < length (paths ?e1)" using e(2) by (simp add: upd_path_def)
  ultimately have "path_write en i ?d ?e1 = (?e1\<lparr>sent := sent ?e1 @ [Tx i ?d]\<rparr>, True)"
    by (rule write_clear [OF _ _ net])
  then have r: "sendDataOn en i class dup seq clock tag ct e = Some ?e2"
    using h put by (simp add: sendDataOn_def take_slab_def Let_def)
  show ?thesis
    by (rule exI [of _ ?e2], intro conjI, rule r)
       (use c in \<open>simp_all, simp_all add: give_back_def sent_ok_def bump_def upd_path_def\<close>)
qed

lemma client_sends_bulk:
  assumes e: "bulk_ready e" and ct: "transport ct" and net: "\<And>i d. net en i d"
  shows "\<exists>e' i h. client_send_one lb en ct e = Some e' \<and> bulk_ready e' \<and> session e' = session e \<and>
    globalSeq e' = globalSeq e + 1 \<and> sent e' = sent e @ [Tx i (data_layout h @ ct)] \<and> i \<in> set (sendablePaths e) \<and>
    plain_bulk (session e) h \<and> GlobalSeq h = globalSeq e + 1"
proof -
  let ?ps = "sendablePaths e"
  have c: "classifyCt ct e = Some (e, ClassBulk)"
    using e ct by (auto simp: classifyCt_def bulk_ready_def transport_def idx_def)
  have ps: "?ps \<noteq> []" using e by (simp add: bulk_ready_def)
  obtain m i where w: "weighted_path ?ps e = Some (e\<lparr>wsched := m\<rparr>, i)" and i: "i \<in> set ?ps"
    using weighted_path_ok [OF ps] by blast
  have il: "i < length (paths e)" using sendable_range [OF i] by simp
  have cl: "clear_to_send e" "fecEnc e = None" using e by (simp_all add: bulk_ready_clear)
  let ?e = "e\<lparr>wsched := m, globalSeq := globalSeq e + 1\<rparr>"
  let ?h = "data_header (paths e ! i) ClassBulk False (session e) (globalSeq e + 1) (ucast (us en)) noTag"
  have bulk: "client_send_one lb en ct e = sendDataOn en i ClassBulk False (globalSeq e + 1) (us en) noTag ct ?e"
    using ps cl(2) clear_path [OF cl(1) il] by (simp add: client_send_one_def c send_bulk_def w Let_def)
  have "DataLen ?h = 20" by (rule plain_bulk_facts(2) [OF bulk_header(1)])
  then have "DataLen ?h + length ct \<le> 2048" using ct by (simp add: transport_def)
  then obtain e' where "client_send_one lb en ct e = Some e'" "clear_to_send e'" "session e' = session e"
      "globalSeq e' = globalSeq e + 1" "fecEnc e' = None" "sent e' = sent e @ [Tx i (data_layout ?h @ ct)]"
    using sendDataOn_clear [of ?e i en ?h ClassBulk False "globalSeq e + 1" "us en" noTag ct] cl il net bulk by auto
  then show ?thesis
    using i bulk_header [where sess = "session e" and p = "paths e ! i" and seq = "globalSeq e + 1" and ts = "ucast (us en)"]
    by (intro exI [of _ e'] exI [of _ i] exI [of _ ?h]) (simp add: bulk_ready_clear)
qed

text \<open>The datagrams of a batch from those of its tail.\<close>

lemma plain_dgram_list:
  assumes "plain_bulk sid h" "GlobalSeq h = seq \<and> length ct \<le> 2028 \<and> payload_of t = data_layout h @ ct"
    and tail: "\<forall>j < length bufs. plain_dgram sid (seq + 1) (\<lambda>j. fst (bufs ! j)) j (payload_of (ds ! j))"
    and j: "j < Suc (length bufs)"
  shows "plain_dgram sid seq (\<lambda>j. fst (((ct, en) # bufs) ! j)) j (payload_of ((t # ds) ! j))"
proof (cases j)
  case 0
  then show ?thesis using assms(1,2) by (auto simp: plain_dgram_def)
next
  case (Suc i)
  with tail j show ?thesis by (simp add: plain_dgram_def add.assoc)
qed

lemma client_sends_stream:
  assumes "bulk_ready e" "list_all (\<lambda>(ct, en). transport ct \<and> (\<forall>i d. net en i d)) bufs"
  shows "\<exists>e' ds. clientSend lb bufs e = Some e' \<and> sent e' = sent e @ ds \<and> length ds = length bufs \<and>
    (\<forall>j < length bufs. plain_dgram (session e) (globalSeq e + 1) (\<lambda>j. fst (bufs ! j)) j (payload_of (ds ! j)))"
  using assms
proof (induction bufs arbitrary: e)
  case (Cons x bufs)
  obtain ct en where x: "x = (ct, en)" by (cases x)
  obtain e1 i h where 1: "client_send_one lb en ct e = Some e1" "bulk_ready e1" "session e1 = session e"
      "globalSeq e1 = globalSeq e + 1" "sent e1 = sent e @ [Tx i (data_layout h @ ct)]"
      "plain_bulk (session e) h" "GlobalSeq h = globalSeq e + 1"
    using client_sends_bulk [OF Cons.prems(1), of ct en lb] Cons.prems(2) x by auto
  obtain e2 ds where 2: "clientSend lb bufs e1 = Some e2" "sent e2 = sent e1 @ ds" "length ds = length bufs"
      "\<forall>j < length bufs. plain_dgram (session e) (globalSeq e + 1 + 1) (\<lambda>j. fst (bufs ! j)) j (payload_of (ds ! j))"
    using Cons.IH [OF 1(2)] Cons.prems(2) 1(3,4) by auto
  have "plain_dgram (session e) (globalSeq e + 1) (\<lambda>j. fst (((ct, en) # bufs) ! j)) j (payload_of ((Tx i (data_layout h @ ct) # ds) ! j))"
    if "j < Suc (length bufs)" for j
    using that Cons.prems(2) 1(6,7) by (intro plain_dgram_list [OF _ _ 2(4)]) (simp_all add: x transport_def)
  then show ?case
    using 1(1,5) 2(1-3) by (intro exI [of _ e2] exI [of _ "Tx i (data_layout h @ ct) # ds"]) (simp add: x)
qed auto

section \<open>From one end to the other\<close>

lemma stream_arrives:
  assumes sess: "lookupSession sid sv = Some s" "reorder_inv (sReorder s)" "occupied (sReorder s) = 0"
    and sync: "started (sReorder s) \<and> nextExpected (sReorder s) = seq \<or> \<not> started (sReorder s) \<and> js \<noteq> [] \<and> hd js = 0"
    and room: "open_queue (bind sv) = Some q" "length q + n \<le> 1024" and js: "mset js = mset [0..<n]"
    and hs: "\<And>j. j < n \<Longrightarrow> plain_dgram sid seq ct j (dg j)"
  shows "\<exists>sv' q'. server_feed lb (map (\<lambda>j. (en j, a j, dg j)) js) sv = Some sv' \<and>
    open_queue (bind sv') = Some (q @ q') \<and> map (\<lambda>x. (Ep x, Bytes (Pkt x))) q' = map (\<lambda>j. (sid, Some (ct j))) [0..<n]"
proof -
  have "stream_in sid seq ct q {} (sReorder s) (bind sv)"
    using sess(2,3) sync room(1) by (intro stream_start) auto
  then have "sess_streams sid seq ct q {} sv" using sess(1) by (auto simp: sess_streams_def)
  moreover have "sess_begun sid sv \<or> js \<noteq> [] \<and> hd js = 0" using sess(1) sync by (auto simp: sess_begun_def)
  ultimately obtain sv' where "server_feed lb (map (\<lambda>j. (en j, a j, dg j)) js) sv = Some sv'" "sess_streams sid seq ct q {..<n} sv'"
    using up.delivers [OF _ room(2) js, where x = "\<lambda>j. (en j, a j, dg j)"] hs unfolding server_feed_feed by blast
  then show ?thesis using stream_done by (fastforce simp: sess_streams_def)
qed

text \<open>Both ends together: what the client sends arrives, in the order in which it was sent.\<close>

lemma stream_carried:
  assumes client: "bulk_ready e" "list_all (\<lambda>(ct, en). transport ct \<and> (\<forall>i d. net en i d)) bufs"
    and server: "lookupSession (session e) sv = Some s" "reorder_inv (sReorder s)" "occupied (sReorder s) = 0"
      "started (sReorder s) \<and> nextExpected (sReorder s) = globalSeq e + 1 \<or> \<not> started (sReorder s) \<and> js \<noteq> [] \<and> hd js = 0"
    and room: "open_queue (bind sv) = Some q" "length q + length bufs \<le> 1024"
    and arrival: "mset js = mset [0..<length bufs]"
  shows "\<exists>e' ds sv' q'. clientSend lb bufs e = Some e' \<and> sent e' = sent e @ ds \<and> length ds = length bufs \<and>
    server_feed lb (map (\<lambda>j. (ens j, addrs j, payload_of (ds ! j))) js) sv = Some sv' \<and>
    open_queue (bind sv') = Some (q @ q') \<and>
    map (\<lambda>x. (Ep x, Bytes (Pkt x))) q' = map (\<lambda>(ct, _). (session e, Some ct)) bufs"
proof -
  let ?ct = "\<lambda>j. fst (bufs ! j)"
  obtain e' ds where c: "clientSend lb bufs e = Some e'" "sent e' = sent e @ ds" "length ds = length bufs"
      "\<And>j. j < length bufs \<Longrightarrow> plain_dgram (session e) (globalSeq e + 1) ?ct j (payload_of (ds ! j))"
    using client_sends_stream [OF client, of lb] by auto
  obtain sv' q' where r: "server_feed lb (map (\<lambda>j. (ens j, addrs j, payload_of (ds ! j))) js) sv = Some sv'"
      "open_queue (bind sv') = Some (q @ q')"
      "map (\<lambda>x. (Ep x, Bytes (Pkt x))) q' = map (\<lambda>j. (session e, Some (?ct j))) [0..<length bufs]"
    using stream_arrives [OF server room arrival c(4), of lb ens addrs] by blast
  have "map (\<lambda>j. (session e, Some (?ct j))) [0..<length bufs] = map (\<lambda>(ct, _). (session e, Some ct)) bufs"
    by (rule nth_equalityI) (simp_all add: split_beta)
  with r c(1-3) show ?thesis by auto
qed

section \<open>Registering a path\<close>

text \<open>What sending does not change: the ids of the paths and which of them are registered.\<close>

definition regs :: "Engine \<Rightarrow> (byte \<times> bool) list" where
  "regs e = map (\<lambda>p. (pid p, registered p)) (paths e)"

lemma regs_upd: "(\<And>p. pid (f p) = pid p \<and> registered (f p) = registered p) \<Longrightarrow> regs (upd_path i f e) = regs e"
  by (cases "i < length (paths e)") (simp_all add: regs_def upd_path_def map_update list_update_same_conv list_update_beyond)

lemma regs_frame [simp]:
  "regs (bump f e) = regs e" "regs (give_back ls e) = regs e" "regs (e\<lparr>sent := ss\<rparr>) = regs e"
  "regs (e\<lparr>wsched := m\<rparr>) = regs e" "regs (e\<lparr>globalSeq := n\<rparr>) = regs e" "regs (e\<lparr>rtSeq := n\<rparr>) = regs e"
  "regs (e\<lparr>fecEnc := enc\<rparr>) = regs e" "regs (e\<lparr>correlator := co\<rparr>) = regs e" "regs (e\<lparr>pending := qs\<rparr>) = regs e"
  "regs (e\<lparr>next_loan := k\<rparr>) = regs e" "regs (sent_ok n' e) = regs e"
  by (simp_all add: regs_def bump_def give_back_def sent_ok_def)

lemma regs_write: "path_write en i d e = (e', ok) \<Longrightarrow> regs e' = regs e"
  by (auto simp: path_write_def split: if_splits)

lemma sendDataOn_regs:
  assumes "sendDataOn en i class dup seq clock tag ct e = Some e'"
  shows "regs e' = regs e"
proof -
  let ?e = "upd_path i (\<lambda>p. p\<lparr>pathSeq := pathSeq p + 1\<rparr>) (e\<lparr>next_loan := next_loan e + 1\<rparr>)"
  have r: "regs ?e = regs e" by (subst regs_upd) simp_all
  have m: "regs (upd_link i MarkDown e1) = regs e1" for e1 by (rule regs_upd) simp
  show ?thesis
    using assms r m
    by (auto simp: sendDataOn_def take_slab_def Let_def dest: regs_write split: bind_splits if_splits prod.splits)
qed

lemma weighted_path_regs: "weighted_path ps e = Some (e', i) \<Longrightarrow> regs e' = regs e"
  by (auto simp: weighted_path_def split: if_splits bind_splits)

lemma clientEmitParity_regs: "clientEmitParity en q e = Some e' \<Longrightarrow> regs e' = regs e"
  by (auto simp: clientEmitParity_def take_slab_def Let_def dest!: regs_write weighted_path_regs
      split: if_splits bind_splits prod.splits)

lemma emit_parity_regs: "emit_parity en qs e = Some e' \<Longrightarrow> regs e' = regs e"
  by (induction en qs e rule: emit_parity.induct) (auto dest!: clientEmitParity_regs split: bind_splits)

lemma send_bulk_regs: "send_bulk lb en ps ct e = Some e' \<Longrightarrow> regs e' = regs e"
  by (auto simp: send_bulk_def Let_def dest!: weighted_path_regs sendDataOn_regs emit_parity_regs
      split: if_splits bind_splits option.splits prod.splits)

lemma classifyCt_regs: "classifyCt ct e = Some (e', c) \<Longrightarrow> regs e' = regs e"
  by (auto simp: classifyCt_def split: if_splits bind_splits option.splits prod.splits)

lemma client_send_one_regs: "client_send_one lb en ct e = Some e' \<Longrightarrow> regs e' = regs e"
  by (auto simp: client_send_one_def holdPending_def Let_def dest!: classifyCt_regs sendDataOn_regs send_bulk_regs
      split: if_splits bind_splits prod.splits)

lemma clientSend_regs: "clientSend lb bufs e = Some e' \<Longrightarrow> regs e' = regs e"
  by (induction lb bufs e rule: clientSend.induct) (auto dest!: client_send_one_regs split: bind_splits)

lemma flushPending_regs: "flushPending lb ens e = Some e' \<Longrightarrow> regs e' = regs e"
  by (auto simp: flushPending_def Let_def dest!: clientSend_regs split: if_splits)

text \<open>While a path is registered, sending never puts a datagram back into the waiting queue.\<close>

lemma pending_frame [simp]:
  "pending (bump f e) = pending e" "pending (give_back ls e) = pending e" "pending (upd_path i g e) = pending e"
  "pending (sent_ok n' e) = pending e"
  by (simp_all add: bump_def give_back_def sent_ok_def upd_path_def)

lemma sendDataOn_pending: "sendDataOn en i class dup seq clock tag ct e = Some e' \<Longrightarrow> pending e' = pending e"
  by (auto simp: sendDataOn_def take_slab_def path_write_def Let_def split: bind_splits if_splits prod.splits)

lemma weighted_path_pending: "weighted_path ps e = Some (e', i) \<Longrightarrow> pending e' = pending e"
  by (auto simp: weighted_path_def split: if_splits bind_splits)

lemma emit_parity_pending: "emit_parity en qs e = Some e' \<Longrightarrow> pending e' = pending e"
proof (induction en qs e rule: emit_parity.induct)
  case (2 en q qs e)
  have "clientEmitParity en q e = Some e1 \<Longrightarrow> pending e1 = pending e" for e1
    by (auto simp: clientEmitParity_def take_slab_def path_write_def Let_def dest!: weighted_path_pending
        split: if_splits bind_splits prod.splits)
  with 2 show ?case by (auto split: bind_splits)
qed simp

lemma send_bulk_pending: "send_bulk lb en ps ct e = Some e' \<Longrightarrow> pending e' = pending e"
  by (auto simp: send_bulk_def Let_def dest!: weighted_path_pending sendDataOn_pending emit_parity_pending
      split: if_splits bind_splits option.splits prod.splits)

lemma classifyCt_pending: "classifyCt ct e = Some (e', c) \<Longrightarrow> pending e' = pending e"
  by (auto simp: classifyCt_def split: if_splits bind_splits option.splits prod.splits)

lemma sendable_of_regs: "(x, True) \<in> set (regs e) \<Longrightarrow> sendablePaths e \<noteq> []"
proof -
  assume "(x, True) \<in> set (regs e)"
  then obtain i where "i \<in> set [0..<length (paths e)]" "registered (paths e ! i)"
    by (auto simp: regs_def in_set_conv_nth)
  then have "filter (\<lambda>i. registered (paths e ! i)) [0..<length (paths e)] \<noteq> []"
    unfolding filter_empty_conv by blast
  then show ?thesis
    by (simp add: sendablePaths_def Let_def)
qed

lemma client_send_one_pending:
  "client_send_one lb en ct e = Some e' \<Longrightarrow> sendablePaths e \<noteq> [] \<Longrightarrow> pending e' = pending e"
  by (auto simp: client_send_one_def Let_def dest!: classifyCt_pending sendDataOn_pending send_bulk_pending
      split: if_splits bind_splits prod.splits)

lemma clientSend_pending:
  "clientSend lb bufs e = Some e' \<Longrightarrow> (x, True) \<in> set (regs e) \<Longrightarrow> pending e' = pending e"
  by (induction lb bufs e rule: clientSend.induct)
     (auto dest!: client_send_one_pending [OF _ sendable_of_regs] simp: client_send_one_regs split: bind_splits)

lemma flushPending_pending: "flushPending lb ens e = Some e' \<Longrightarrow> (x, True) \<in> set (regs e) \<Longrightarrow> pending e' = []"
  by (auto simp: flushPending_def Let_def dest!: clientSend_pending split: if_splits)

abbreviation hello_to :: "lib \<Rightarrow> Engine \<Rightarrow> byte \<Rightarrow> byte \<Rightarrow> u64 \<Rightarrow> bytes" where
  "hello_to lb e ty i ts \<equiv> AppendTag (blake_of lb) (mac e) (hello_layout \<lparr>Type = ty, Flags = 0, PathID = i, Epoch = 0\<rparr>
     \<lparr>HSession = session e, ClientID = clientID e, Features = 0, UnixTS = ts\<rparr>)"

lemma hello_goes_out:
  assumes "conn (paths e ! i)" "i < length (paths e)"
    and "(if registered (paths e ! i) then 15 * Second else Second) \<le> i64 (now en - lastHello (paths e ! i))"
    and "net en i (hello_to lb e 5 (pid (paths e ! i)) (Unix (now en)))"
  shows "hello_path lb en i e = Some ((upd_path i (\<lambda>p. p\<lparr>lastHello := now en\<rparr>) e)
    \<lparr>sent := sent e @ [Tx i (hello_to lb e 5 (pid (paths e ! i)) (Unix (now en)))]\<rparr>)"
proof -
  have "\<not> i64 (now en - lastHello (paths e ! i)) < (if \<not> registered (paths e ! i) then helloRetry else helloRefresh)"
    using assms(3) by (simp add: helloRetry_def helloRefresh_def split: if_splits)
  then show ?thesis
    using assms(1,2,4) by (simp add: hello_path_def EncodeHello_layout path_write_def Let_def) (simp add: upd_path_def)
qed

lemma hello_not_due:
  "i64 (now en - lastHello (paths e ! i)) < (if registered (paths e ! i) then 15 * Second else Second) \<Longrightarrow>
     hello_path lb en i e = Some e"
  by (simp add: hello_path_def helloRetry_def helloRefresh_def split: if_splits)

text \<open>What the client does with a fresh acknowledgement for path \<open>i\<close>.\<close>

lemma hello_ack_step:
  assumes "i < length (paths e)" "conn (paths e ! i)" "FreshTS ts (Unix (now en))"
  shows "clientRx lb en ens i (Some (hello_to lb e 6 (pid (paths e ! i)) ts)) e =
    (let e1 = upd_path i (\<lambda>p. p\<lparr>registered := True\<rparr>) (e\<lparr>next_loan := Suc (next_loan e)\<rparr>) in
     map_option (\<lambda>e2. give_back [next_loan e] (upd_path i (\<lambda>p. p\<lparr>lastRxNano := now en\<rparr>) e2))
       (if registered (paths e ! i) then Some e1 else flushPending lb ens e1))"
proof -
  let ?h = "\<lparr>Type = 6, Flags = 0, PathID = pid (paths e ! i), Epoch = 0\<rparr>"
  let ?m = "\<lparr>HSession = session e, ClientID = clientID e, Features = 0, UnixTS = ts\<rparr>"
  let ?d = "hello_to lb e 6 (pid (paths e ! i)) ts"
  have "length ?d = 44" by (simp add: AppendTag_def message_layouts)
  then have s: "slice (fill_slab (dirty en) ?d) 0 (min SlabSize (length ?d)) = Some ?d"
    using slice_fill_slab [of "dirty en" ?d] by simp
  have p: "ParseHeader ?d = Some (Inr ?h)"
    by (simp add: AppendTag_def hello_layout_def header_layout_parse)
  have m: "ParseHello (blake_of lb) ?d (mac e) = Some (Some (?h, ?m))"
    using hello_msg.roundtrip [of ?h "blake_of lb" "mac e" ?m] by simp
  show ?thesis
    using assms s p m
    by (simp add: clientRx_def take_slab_def handleClientDatagram_def client_hello_ack_def map_conv_bind_option comp_def
        Let_def del: SlabSize_def)
qed

lemma hello_ack_registers:
  assumes inv: "client_inv insp X e" and i: "i < length (paths e)" "conn (paths e ! i)"
    and fresh: "FreshTS ts (Unix (now en))"
  shows "\<exists>e'. clientRx lb en ens i (Some (hello_to lb e 6 (pid (paths e ! i)) ts)) e = Some e' \<and> registered (paths e' ! i) \<and>
    (\<not> registered (paths e ! i) \<longrightarrow> pending e' = [])"
proof -
  let ?d = "hello_to lb e 6 (pid (paths e ! i)) ts"
  let ?r = "upd_path i (\<lambda>p. p\<lparr>registered := True\<rparr>) (e\<lparr>next_loan := Suc (next_loan e)\<rparr>)"
  obtain e2 where e2: "clientRx lb en ens i (Some ?d) e = Some e2"
    using clientRx_ok [OF inv, of lb en ens i "Some ?d"] by (auto simp: returns_def)
  then obtain e3 where e3: "e2 = give_back [next_loan e] (upd_path i (\<lambda>p. p\<lparr>lastRxNano := now en\<rparr>) e3)"
      "if registered (paths e ! i) then e3 = ?r else flushPending lb ens ?r = Some e3"
    by (auto simp: hello_ack_step [OF i fresh] Let_def split: if_splits)
  have r: "regs ?r ! i = (pid (paths e ! i), True)" "length (regs ?r) = length (paths e)"
    using i(1) by (simp_all add: regs_def upd_path_def)
  have "regs e2 = regs e3" unfolding e3(1) regs_frame by (rule regs_upd) simp
  moreover have "regs e3 = regs ?r" using e3(2) flushPending_regs by (auto split: if_splits)
  ultimately have g: "regs e2 = regs ?r" by simp
  then have "length (paths e2) = length (paths e)"
    using r(2) by (metis length_map regs_def)
  moreover have "regs e2 ! i = (pid (paths e ! i), True)" using g r(1) by simp
  ultimately have "registered (paths e2 ! i)"
    using i(1) by (simp add: regs_def)
  moreover have "pending e2 = []" if "\<not> registered (paths e ! i)"
  proof -
    have "(pid (paths e ! i), True) \<in> set (regs ?r)"
      using r i(1) by (metis nth_mem)
    then show ?thesis
      using e3 that flushPending_pending by auto
  qed
  ultimately show ?thesis
    using e2 by blast
qed

lemma hello_answered:
  assumes "mac sv = mac e" "case lookupSession (session e) sv of None \<Rightarrow> True | Some s \<Rightarrow> SClientID s = clientID e"
    and "\<forall>d. net_to sen a d" "FreshTS ts (Unix (now sen))"
  shows "\<exists>sv1 s ps. serverRx lb sen (Some (hello_to lb e 5 i ts, a)) sv = Some sv1 \<and>
    sent sv1 = sent sv @ [TxTo a (hello_to lb e 6 i (Unix (now_at sen 2)))] \<and>
    (\<lambda>sid. lookupSession sid sv1) = (\<lambda>sid. lookupSession sid sv)(session e := Some s) \<and> path_of i s = Some ps \<and> addr ps = a"
proof -
  let ?h = "\<lparr>Type = 5, Flags = 0, PathID = i, Epoch = 0\<rparr>"
  let ?m = "\<lparr>HSession = session e, ClientID = clientID e, Features = 0, UnixTS = ts\<rparr>"
  show ?thesis
    using assms hello_admitted [of lb sen sv ?h ?m a]
    by (cases "lookupSession (session e) sv") (simp_all add: Let_def, blast+)
qed

text \<open>The first handshake of a client with nothing waiting: the exact states after it.\<close>

lemma flush_nothing: "pending e = [] \<Longrightarrow> flushPending lb ens e = Some e"
  by (simp add: flushPending_def)

lemma hello_ack_exact:
  assumes "i < length (paths e)" "conn (paths e ! i)" "pending e = []" "FreshTS ts (Unix (now en))"
  shows "clientRx lb en ens i (Some (hello_to lb e 6 (pid (paths e ! i)) ts)) e =
    Some (give_back [next_loan e] (upd_path i (\<lambda>p. p\<lparr>registered := True, lastRxNano := now en\<rparr>) (e\<lparr>next_loan := Suc (next_loan e)\<rparr>)))"
proof -
  let ?r = "upd_path i (\<lambda>p. p\<lparr>registered := True\<rparr>) (e\<lparr>next_loan := Suc (next_loan e)\<rparr>)"
  have "flushPending lb ens ?r = Some ?r"
    using assms(3) by (intro flush_nothing) (simp add: upd_path_def)
  then show ?thesis
    using assms(1) by (simp add: hello_ack_step [OF assms(1,2,4)] Let_def) (simp add: upd_path_def)
qed

lemma hello_answered_fresh:
  assumes "mac sv = mac e" "lookupSession (session e) sv = None" "\<forall>d. net_to sen a d" "FreshTS ts (Unix (now sen))"
  shows "\<exists>sv1 s. serverRx lb sen (Some (hello_to lb e 5 i ts, a)) sv = Some sv1 \<and>
    sent sv1 = sent sv @ [TxTo a (hello_to lb e 6 i (Unix (now_at sen 2)))] \<and>
    lookupSession (session e) sv1 = Some s \<and> sReorder s = Reorder.New \<and> bind sv1 = bind sv"
proof -
  let ?h = "\<lparr>Type = 5, Flags = 0, PathID = i, Epoch = 0\<rparr>"
  let ?m = "\<lparr>HSession = session e, ClientID = clientID e, Features = 0, UnixTS = ts\<rparr>"
  show ?thesis
    using assms hello_registers_new [of ?m sen sv lb ?h a] by (auto simp: Let_def)
qed

section \<open>One client and one server\<close>

text \<open>A client with one registered path and a server that knows its session.\<close>

definition one_path_client :: Engine where
  "one_path_client = (NewClient (NewMAC []) 7 9 None True off)\<lparr>paths :=
     [\<lparr>pid = 0, conn = True, pclosed = False, pathSeq = 0, registered = True, lastRxNano = 0, lastHello = 0,
       lastRedial = 0, pLink = NewLink, pRx = NewRxStats\<rparr>]\<rparr>"

definition one_session_server :: Server where
  "one_session_server = (NewServer (NewMAC []) None True off)
     \<lparr>bind := fst (Open NewEngineBind), sessions := [(7, new_session 7 9 (NewServer (NewMAC []) None True off))]\<rparr>"

lemma some_env_facts [simp]:
  "net some_env = (\<lambda>_ _. True)" "net_to some_senv = (\<lambda>_ _. True)" "now some_env = 1000 * Second" "now some_senv = 1000 * Second"
  "now_at some_senv k = 1000 * Second"
  by (simp_all add: some_env_def some_senv_def env.extend_def)

lemma one_path_client_facts:
  "bulk_ready one_path_client" "session one_path_client = 7" "sent one_path_client = []"
  "client_inv 0 {#} one_path_client" "0 < length (paths one_path_client)" "conn (paths one_path_client ! 0)"
proof -
  show "client_inv 0 {#} one_path_client"
    using NewClient_inv [of "NewMAC []" 7 9 None True off] by (simp add: one_path_client_def)
qed (simp_all add: one_path_client_def bulk_ready_def NewClient_def sendablePaths_def DropProb_def NewLink_def)

text \<open>The same client before its path is registered: one datagram waits, the last HELLO is a second old.\<close>

definition joining_client :: Engine where
  "joining_client = (NewClient (NewMAC []) 7 9 None True off)\<lparr>paths :=
     [\<lparr>pid = 0, conn = True, pclosed = False, pathSeq = 0, registered = False, lastRxNano = 0, lastHello = 999 * Second,
       lastRedial = 0, pLink = NewLink, pRx = NewRxStats\<rparr>], pending := [[4, 0, 0, 0, 1]]\<rparr>"

lemma joining_client_facts:
  "client_inv 0 {#} joining_client" "0 < length (paths joining_client)" "conn (paths joining_client ! 0)"
  "\<not> registered (paths joining_client ! 0)" "i64 (now some_env - lastHello (paths joining_client ! 0)) = Second"
  "mac joining_client = mac one_path_client" "session joining_client = session one_path_client"
  "clientID joining_client = clientID one_path_client" "sent joining_client = []"
proof -
  show "client_inv 0 {#} joining_client"
    using NewClient_inv [of "NewMAC []" 7 9 None True off] by (simp add: joining_client_def client_inv_def inspected_below_def balanced_def)
qed (simp_all add: joining_client_def one_path_client_def NewClient_def i64_def time_units)

lemma one_session_server_facts:
  "lookupSession (session one_path_client) one_session_server = Some (new_session 7 9 (NewServer (NewMAC []) None True off))"
  "reorder_inv (sReorder (new_session 7 9 (NewServer (NewMAC []) None True off)))"
  "occupied (sReorder (new_session 7 9 (NewServer (NewMAC []) None True off))) = 0"
  "\<not> started (sReorder (new_session 7 9 (NewServer (NewMAC []) None True off)))"
  "open_queue (bind one_session_server) = Some []" "mac one_session_server = mac one_path_client"
  "case lookupSession (session one_path_client) one_session_server of None \<Rightarrow> True | Some s \<Rightarrow> SClientID s = clientID one_path_client"
  "sent one_session_server = []"
  using New_inv [where 'a = Packet]
  by (simp_all add: one_session_server_def one_path_client_def NewServer_def NewClient_def lookupSession_def new_session_def
      Engine.Engine.extend_def open_queue_def Open_def NewEngineBind_def) (simp add: Reorder.New_def)+

end
