(* ===== verification/Netdev.thy ===== *)
theory Netdev
  imports Config
begin

text \<open>
  File \<^verbatim>\<open>netdev.go\<close> of \<^verbatim>\<open>internal/wgbridge\<close>: the tunnel interface gets its address, goes up and gets
  its routes. The netlink package and the kernel behind it are parameters: which interface a
  name means, how an address is read, and whether a request is granted after those granted
  before. \<^verbatim>\<open>net.ParseCIDR\<close> is Go's library. The result is the error, if any, and the requests that
  were granted, in order.
\<close>

section \<open>Definitions\<close>

text \<open>\<^verbatim>\<open>dtoi\<close> of package \<^verbatim>\<open>net\<close>: a decimal below \<open>0xFFFFFF\<close> and what follows it.\<close>

fun dtoi_from :: "nat \<Rightarrow> string \<Rightarrow> (nat \<times> string) option" where
  "dtoi_from v [] = Some (v, [])"
| "dtoi_from v (c # s) =
     (case digit_val c of
        None \<Rightarrow> Some (v, c # s)
      | Some d \<Rightarrow> if 10 * v + d \<ge> 0xFFFFFF then None else dtoi_from (10 * v + d) s)"

definition dtoi :: "string \<Rightarrow> (nat \<times> string) option" where
  "dtoi s = (if starts_digit s then dtoi_from 0 s else None)"

text \<open>\<^verbatim>\<open>IP.Mask\<close> with the mask of \<^verbatim>\<open>CIDRMask\<close>: the first \<open>n\<close> bits stay.\<close>

fun mask_bits :: "nat \<Rightarrow> bytes \<Rightarrow> bytes" where
  "mask_bits n [] = []"
| "mask_bits n (b # bs) = (if n \<ge> 8 then b else push_bit (8 - n) (drop_bit (8 - n) b)) # mask_bits (n - 8) bs"

fun mask_addr :: "nat \<Rightarrow> Addr \<Rightarrow> Addr" where
  "mask_addr n (Addr4 bs) = Addr4 (mask_bits n bs)"
| "mask_addr n (Addr6 bs) = Addr6 (mask_bits n bs)"
| "mask_addr n NoAddr = NoAddr"

fun addr_bits :: "Addr \<Rightarrow> nat" where
  "addr_bits (Addr6 _) = 128"
| "addr_bits _ = 32"

record IPNet =
  NetIP :: Addr
  NetBits :: nat

text \<open>\<^verbatim>\<open>net.ParseCIDR\<close>, split at the first slash.\<close>

definition ParseCIDR :: "string \<Rightarrow> IPNet option" where
  "ParseCIDR s =
     (if CHR ''/'' \<notin> set s then None
      else (let a = takeWhile (\<lambda>c. c \<noteq> CHR ''/'') s;
                m = drop (length a + 1) s
       in case ParseAddr a of
            None \<Rightarrow> None
          | Some (ip, z) \<Rightarrow>
              if z \<noteq> [] then None
              else (case dtoi m of
                None \<Rightarrow> None
              | Some (n, r) \<Rightarrow>
                  if r \<noteq> [] \<or> n > addr_bits ip then None
                  else Some \<lparr>NetIP = mask_addr n ip, NetBits = n\<rparr>)))"

datatype 'a netdev_op = AddrAdd nat 'a | LinkSetUp nat | RouteAdd nat IPNet

record 'a netlink =
  LinkByName :: "string \<Rightarrow> nat option"
  NlParseAddr :: "string \<Rightarrow> 'a option"
  grants :: "'a netdev_op list \<Rightarrow> 'a netdev_op \<Rightarrow> bool"

datatype netdev_error =
    NoLink
  | AddressUnread
  | AddressRefused
  | LinkUpRefused
  | RouteUnread string
  | RouteRefused string

fun add_routes :: "'a netlink \<Rightarrow> nat \<Rightarrow> string list \<Rightarrow> 'a netdev_op list \<Rightarrow> netdev_error option \<times> 'a netdev_op list" where
  "add_routes nl i [] ops = (None, ops)"
| "add_routes nl i (r # rs) ops =
     (case ParseCIDR r of
        None \<Rightarrow> (Some (RouteUnread r), ops)
      | Some p \<Rightarrow>
          if \<not> grants nl ops (RouteAdd i p) then (Some (RouteRefused r), ops)
          else add_routes nl i rs (ops @ [RouteAdd i p]))"

definition SetupNetdev :: "'a netlink \<Rightarrow> string \<Rightarrow> string \<Rightarrow> string list \<Rightarrow> netdev_error option \<times> 'a netdev_op list" where
  "SetupNetdev nl iface addrCIDR routes =
     (case LinkByName nl iface of
        None \<Rightarrow> (Some NoLink, [])
      | Some i \<Rightarrow>
          (case NlParseAddr nl addrCIDR of
             None \<Rightarrow> (Some AddressUnread, [])
           | Some a \<Rightarrow>
               if \<not> grants nl [] (AddrAdd i a) then (Some AddressRefused, [])
               else if \<not> grants nl [AddrAdd i a] (LinkSetUp i) then (Some LinkUpRefused, [AddrAdd i a])
               else add_routes nl i routes [AddrAdd i a, LinkSetUp i]))"

section \<open>What the configuration accepts, the library reads\<close>

lemma no_slash_digits: "digit_val c = Some d \<Longrightarrow> c \<noteq> CHR ''/''" "hex_val c = Some d \<Longrightarrow> c \<noteq> CHR ''/''"
  by (auto simp: digit_val_def hex_val_def Let_def split: if_splits)

lemma ipv4_no_slash: "ipv4_fields fs v n s = Some ip \<Longrightarrow> CHR ''/'' \<notin> set s"
  by (induction fs v n s rule: ipv4_fields.induct) (auto dest: no_slash_digits(1) split: option.splits if_splits)

lemma hex_field_split: "hex_field v n s = Some (v', n', r) \<Longrightarrow> CHR ''/'' \<in> set s \<Longrightarrow> CHR ''/'' \<in> set r"
  by (induction v n s rule: hex_field.induct) (auto dest: no_slash_digits(2) split: option.splits if_splits)

lemma ipv6_loop_no_slash: "ipv6_loop ip el s = Some (ip', el', r) \<Longrightarrow> CHR ''/'' \<in> set s \<Longrightarrow> CHR ''/'' \<in> set r"
proof (induction ip el s arbitrary: ip' el' r rule: ipv6_loop.induct)
  case (1 ip el s)
  note u = "1.prems"(1) [unfolded ipv6_loop.simps [of ip el s]]
  show ?case
  proof (cases "16 \<le> length ip")
    case True
    with u "1.prems"(2) show ?thesis by simp
  next
    case False
    obtain v n q where f: "hex_field 0 0 s = Some (v, n, q)" "n \<noteq> 0"
      using u False by (auto split: option.splits if_splits)
    have dot: "\<not> prefix ''.'' q"
      using u False f "1.prems"(2) by (auto dest: ipv4_no_slash split: if_splits)
    have "CHR ''/'' \<in> set q" using hex_field_split [OF f(1) "1.prems"(2)] .
    then obtain c t where q: "q = c # t" by (cases q) auto
    let ?ip = "ip @ [of_nat (v div 256), of_nat (v mod 256)]"
    have t: "c = CHR '':''" "t \<noteq> []" "CHR ''/'' \<in> set t"
      using u False f dot q \<open>CHR ''/'' \<in> set q\<close> by (auto simp: Let_def split: if_splits)
    show ?thesis
    proof (cases "hd t = CHR '':''")
      case True
      then have tl: "CHR ''/'' \<in> set (tl t)" "tl t \<noteq> []" using t(2,3) by (cases t; auto)+
      then have "el = None" "ipv6_loop ?ip (Some (length ?ip)) (tl t) = Some (ip', el', r)"
        using u False f dot q t True by (auto simp: Let_def split: if_splits)
      with tl t True show ?thesis using "1.IH"(1) [OF False f(1) refl refl f(2) dot refl q] by blast
    next
      case nc: False
      then have "ipv6_loop ?ip el t = Some (ip', el', r)"
        using u False f dot q t by (auto simp: Let_def split: if_splits)
      with t nc show ?thesis using "1.IH"(2) [OF False f(1) refl refl f(2) dot refl q] by blast
    qed
  qed
qed

lemma ParseAddr_no_slash:
  assumes "ParseAddr s = Some (ip, [])"
  shows "CHR ''/'' \<notin> set s"
proof -
  have 6: "CHR ''/'' \<notin> set a" if "ipv6_bytes a = Some b" for a b
  proof
    assume "CHR ''/'' \<in> set a"
    moreover from this have "CHR ''/'' \<in> set (drop 2 a)" if "prefix ''::'' a" using that by (auto simp: prefix_def)
    ultimately show False
      using that ipv6_loop_no_slash by (fastforce simp: ipv6_bytes_def Let_def split: if_splits option.splits)
  qed
  consider (v4) b where "ipv4_fields [] 0 0 s = Some b" | (v6) "parseIPv6 s = Some (ip, [])"
    using assms by (auto simp: ParseAddr_def split: option.splits if_splits)
  then show ?thesis
  proof cases
    case v4
    then show ?thesis by (rule ipv4_no_slash)
  next
    case v6
    let ?a = "takeWhile (\<lambda>c. c \<noteq> CHR ''%'') s"
    have d: "drop (length ?a) s = []"
      using v6 by (cases "drop (length ?a) s") (auto simp: parseIPv6_def Let_def split: if_splits)
    have "?a @ drop (length ?a) s = s" unfolding dropWhile_eq_drop [symmetric] by (rule takeWhile_dropWhile_id)
    then have a: "?a = s" unfolding d append_Nil2 .
    obtain b where "ipv6_bytes ?a = Some b"
      using v6 by (auto simp: parseIPv6_def Let_def split: if_splits)
    then show ?thesis unfolding a by (rule 6)
  qed
qed

text \<open>A decimal that \<^verbatim>\<open>Atoi\<close> reads as a small number is read by \<^verbatim>\<open>dtoi\<close> too.\<close>

lemma scan_digits_mono: "scan_digits v s = (n, r) \<Longrightarrow> v \<le> n"
proof (induction v s rule: scan_digits.induct)
  case (2 v c s)
  then show ?case by (cases "digit_val c") fastforce+
qed simp

lemma dtoi_from_scan: "scan_digits v s = (n, r) \<Longrightarrow> n < 0xFFFFFF \<Longrightarrow> dtoi_from v s = Some (n, r)"
proof (induction v s rule: scan_digits.induct)
  case (2 v c s)
  then show ?case using scan_digits_mono by (cases "digit_val c") fastforce+
qed simp

lemma dtoi_Atoi:
  assumes "Atoi s = Some n" "0 \<le> n" "n < 0xFFFFFF" "starts_digit s"
  shows "dtoi s = Some (nat n, [])"
proof -
  have sign: "\<not> prefix ''-'' s" "\<not> prefix ''+'' s"
    using assms(4) by (auto simp: starts_digit_def prefix_def digit_val_def)
  obtain v r where v: "scan_digits 0 s = (v, r)" by fastforce
  with assms sign have "r = []" "n = int v" by (auto simp: Atoi_def Let_def split: if_splits)
  with v assms(3,4) dtoi_from_scan [of 0 s v r] show ?thesis by (simp add: dtoi_def)
qed

text \<open>Every prefix that \<^verbatim>\<open>netip.ParsePrefix\<close> accepts is a network for \<^verbatim>\<open>net.ParseCIDR\<close>, with its host bits cleared.\<close>

lemma prefix_is_cidr:
  assumes "ParsePrefix s = Some (ip, n)"
  shows "ParseCIDR s = Some \<lparr>NetIP = mask_addr n ip, NetBits = n\<rparr>"
proof -
  let ?bs = "rev (takeWhile (\<lambda>c. c \<noteq> CHR ''/'') (rev s))"
  let ?a = "take (length s - length ?bs - 1) s"
  have sl: "CHR ''/'' \<in> set s" using assms by (auto simp: ParsePrefix_def split: if_splits)
  have a: "ParseAddr ?a = Some (ip, [])"
    using assms by (auto simp: ParsePrefix_def Let_def split: if_splits option.splits)
  obtain k where k: "Atoi ?bs = Some k" "0 \<le> k" "k \<le> int (addr_bits ip)" "n = nat k"
      "length ?bs > 1 \<longrightarrow> 49 \<le> (of_char (hd ?bs) :: nat) \<and> (of_char (hd ?bs) :: nat) \<le> 57"
    using assms by (cases ip) (auto simp: ParsePrefix_def Let_def not_less split: if_splits option.splits)
  have s: "s = ?a @ CHR ''/'' # ?bs"
  proof -
    obtain x y where xy: "rev s = x @ CHR ''/'' # y" "CHR ''/'' \<notin> set x"
      using split_list_first [of "CHR ''/''" "rev s"] sl by auto
    then have "takeWhile (\<lambda>c. c \<noteq> CHR ''/'') (rev s) = x" by (auto simp: takeWhile_tail)
    moreover have "s = rev y @ CHR ''/'' # rev x" using xy(1) by (metis rev_append rev_rev_ident rev.simps(2) append.assoc append_Cons append_Nil)
    ultimately show ?thesis by simp
  qed
  have "starts_digit ?bs"
  proof (cases ?bs)
    case Nil
    with k(1) show ?thesis by (simp add: Atoi_def starts_digit_def)
  next
    case (Cons c t)
    then show ?thesis
      using k(1,5) by (cases t) (auto simp: Atoi_def starts_digit_def digit_val_def Let_def split: if_splits)
  qed
  moreover have "addr_bits ip \<le> 128" by (cases ip) simp_all
  ultimately have d: "dtoi ?bs = Some (n, [])" using dtoi_Atoi [OF k(1,2)] k(3,4) by simp
  have "takeWhile (\<lambda>c. c \<noteq> CHR ''/'') (?a @ CHR ''/'' # ?bs) = ?a"
    using ParseAddr_no_slash [OF a] by (auto simp: takeWhile_tail)
  then have t: "takeWhile (\<lambda>c. c \<noteq> CHR ''/'') s = ?a" using s by (simp only: flip: s)
  have "drop (length ?a + 1) (?a @ CHR ''/'' # ?bs) = ?bs" by simp
  then have "drop (length ?a + 1) s = ?bs" using s by (simp only: flip: s)
  then show ?thesis
    using sl a d k(2-4) unfolding ParseCIDR_def Let_def t by (simp add: nat_le_iff)
qed

lemma mask_bits_idem: "mask_bits n (mask_bits n bs) = mask_bits n bs"
proof (induction n bs rule: mask_bits.induct)
  case (2 n b bs)
  have "push_bit k (drop_bit k (push_bit k (drop_bit k b))) = push_bit k (drop_bit k b)" for k
    by (rule bit_word_eqI) (auto simp: bit_push_bit_iff bit_drop_bit_eq)
  with 2 show ?case by simp
qed simp

lemma mask_addr_idem: "mask_addr n (mask_addr n a) = mask_addr n a"
  by (cases a) (simp_all add: mask_bits_idem)

section \<open>The plan\<close>

text \<open>What setting up the interface is meant to request, in order.\<close>

definition netdev_plan :: "nat \<Rightarrow> 'a \<Rightarrow> string list \<Rightarrow> 'a netdev_op list" where
  "netdev_plan i a rs = [AddrAdd i a, LinkSetUp i] @ map (\<lambda>r. RouteAdd i (the (ParseCIDR r))) rs"

definition refusal :: "string list \<Rightarrow> nat \<Rightarrow> netdev_error" where
  "refusal rs n = (if n = 0 then AddressRefused else if n = 1 then LinkUpRefused else RouteRefused (rs ! (n - 2)))"

lemma add_routes_plan:
  assumes "list_all (\<lambda>r. ParseCIDR r \<noteq> None) rs" "add_routes nl i rs ops = (err, ops')"
  defines "todo \<equiv> map (\<lambda>r. RouteAdd i (the (ParseCIDR r))) rs"
  shows "err = None \<and> ops' = ops @ todo \<or>
    (\<exists>n < length rs. ops' = ops @ take n todo \<and> \<not> grants nl ops' (todo ! n) \<and> err = Some (RouteRefused (rs ! n)))"
  using assms(1,2) unfolding todo_def
proof (induction nl i rs ops arbitrary: err ops' rule: add_routes.induct)
  case (2 nl i r rs ops)
  then obtain p where p: "ParseCIDR r = Some p" by auto
  show ?case
  proof (cases "grants nl ops (RouteAdd i p)")
    case True
    then have r: "add_routes nl i rs (ops @ [RouteAdd i p]) = (err, ops')" using "2.prems"(2) p by simp
    show ?thesis
      using "2.IH" [OF p _ _ r] True "2.prems"(1) p by fastforce
  next
    case False
    then have "ops' = ops" "err = Some (RouteRefused r)" using "2.prems"(2) p by simp_all
    then show ?thesis using False p by (intro disjI2 exI [of _ 0]) simp
  qed
qed simp

lemma SetupNetdev_plan:
  assumes "LinkByName nl iface = Some i" "NlParseAddr nl addr = Some a" "list_all (\<lambda>r. ParseCIDR r \<noteq> None) rs"
    and "SetupNetdev nl iface addr rs = (err, ops)"
  shows "err = None \<and> ops = netdev_plan i a rs \<or>
    (\<exists>n < length (netdev_plan i a rs). ops = take n (netdev_plan i a rs) \<and>
      \<not> grants nl ops (netdev_plan i a rs ! n) \<and> err = Some (refusal rs n))"
proof -
  note d = assms(4) [unfolded SetupNetdev_def assms(1,2) option.case]
  consider (addr) "\<not> grants nl [] (AddrAdd i a)"
    | (up) "grants nl [] (AddrAdd i a)" "\<not> grants nl [AddrAdd i a] (LinkSetUp i)"
    | (routes) "grants nl [] (AddrAdd i a)" "grants nl [AddrAdd i a] (LinkSetUp i)" by blast
  then show ?thesis
  proof cases
    case addr
    then have "err = Some AddressRefused" "ops = []" using d by simp_all
    with addr show ?thesis by (intro disjI2 exI [of _ 0]) (simp add: netdev_plan_def refusal_def)
  next
    case up
    then have "err = Some LinkUpRefused" "ops = [AddrAdd i a]" using d by simp_all
    with up show ?thesis by (intro disjI2 exI [of _ 1]) (simp add: netdev_plan_def refusal_def)
  next
    case routes
    then have "add_routes nl i rs [AddrAdd i a, LinkSetUp i] = (err, ops)" using d by simp
    from add_routes_plan [OF assms(3) this] show ?thesis
    proof (elim disjE exE conjE)
      fix n assume n: "n < length rs" "ops = [AddrAdd i a, LinkSetUp i] @ take n (map (\<lambda>r. RouteAdd i (the (ParseCIDR r))) rs)"
        "\<not> grants nl ops (map (\<lambda>r. RouteAdd i (the (ParseCIDR r))) rs ! n)" "err = Some (RouteRefused (rs ! n))"
      then show ?thesis by (intro disjI2 exI [of _ "n + 2"]) (simp add: netdev_plan_def refusal_def)
    qed (simp add: netdev_plan_def)
  qed
qed

lemma validated_routes:
  assumes "validate_tunnel t = None"
  shows "list_all (\<lambda>r. ParseCIDR r \<noteq> None) (Routes t)"
proof -
  have "find (\<lambda>r. ParsePrefix r = None) (Routes t) = None"
    using assms by (auto simp: validate_tunnel_def Let_def split: if_splits option.splits)
  then show ?thesis using prefix_is_cidr by (fastforce simp: find_None_iff list_all_iff)
qed

lemma ParseCIDR_masked: "ParseCIDR s = Some p \<Longrightarrow> mask_addr (NetBits p) (NetIP p) = NetIP p"
  by (auto simp: ParseCIDR_def Let_def mask_addr_idem split: if_splits option.splits)

section \<open>Properties\<close>

text \<open>
  Setting up the interface with a tunnel configuration that passed validation: the requests
  granted are an initial part of the plan (address, interface up, the routes in order, each with
  its host bits cleared). It is the whole plan exactly when there is no error, and otherwise the
  error names the next request of the plan, which the kernel refused: no route of an accepted
  file fails to parse, although validation and set-up use different parsers.
\<close>

theorem netdev_follows_plan:
  assumes "validate_tunnel t = None" "LinkByName nl iface = Some i" "NlParseAddr nl (Address t) = Some a"
    and "SetupNetdev nl iface (Address t) (Routes t) = (err, ops)"
  shows "(err = None \<and> ops = netdev_plan i a (Routes t) \<or>
      (\<exists>n < length (netdev_plan i a (Routes t)). ops = take n (netdev_plan i a (Routes t)) \<and>
        \<not> grants nl ops (netdev_plan i a (Routes t) ! n) \<and> err = Some (refusal (Routes t) n))) \<and>
    (\<forall>j p. RouteAdd j p \<in> set ops \<longrightarrow> j = i \<and> mask_addr (NetBits p) (NetIP p) = NetIP p)"
    (is "?plan \<and> ?masked")
proof
  show plan: ?plan by (rule SetupNetdev_plan [OF assms(2,3) validated_routes [OF assms(1)] assms(4)])
  have "set ops \<subseteq> set (netdev_plan i a (Routes t))" using plan by (auto dest: in_set_takeD)
  then show ?masked
    using validated_routes [OF assms(1)] ParseCIDR_masked by (fastforce simp: netdev_plan_def list_all_iff)
qed

definition sample_netlink :: "string netlink" where
  "sample_netlink = \<lparr>LinkByName = \<lambda>_. Some 3, NlParseAddr = Some, grants = \<lambda>ops op. op \<notin> set ops\<rparr>"

definition twice_routed :: TunnelConfig where
  "twice_routed = \<lparr>Interface = ''tr0'', MTU = 1380, Address = ''10.200.0.2/24'', PrivateKey = ''k'', PeerPublicKey = ''p'',
     Routes = [''10.200.0.2/24'', ''10.200.0.2/24'']\<rparr>"

theorem netdev_follows_plan_witness:
  "fst (SetupNetdev sample_netlink ''tr0'' (Address twice_routed) (Routes twice_routed)) = Some (RouteRefused ''10.200.0.2/24'') \<and>
   length (snd (SetupNetdev sample_netlink ''tr0'' (Address twice_routed) (Routes twice_routed))) = 3"
proof -
  let ?s = "SetupNetdev sample_netlink ''tr0'' (Address twice_routed) (Routes twice_routed)"
  let ?r = "Routes twice_routed"
  have v: "validate_tunnel twice_routed = None"
    by (simp add: validate_tunnel_def twice_routed_def sample_texts)
  have l: "LinkByName sample_netlink ''tr0'' = Some 3" "NlParseAddr sample_netlink (Address twice_routed) = Some (Address twice_routed)"
    by (simp_all add: sample_netlink_def)
  obtain p where p: "ParseCIDR ''10.200.0.2/24'' = Some p" using validated_routes [OF v] by (auto simp: twice_routed_def)
  have pl: "netdev_plan 3 (Address twice_routed) ?r = [AddrAdd 3 (Address twice_routed), LinkSetUp 3, RouteAdd 3 p, RouteAdd 3 p]"
    using p by (simp add: netdev_plan_def twice_routed_def)
  from netdev_follows_plan [OF v l, of "fst ?s" "snd ?s"]
  have "(fst ?s = None \<and> snd ?s = netdev_plan 3 (Address twice_routed) ?r \<or>
      (\<exists>n < length (netdev_plan 3 (Address twice_routed) ?r). snd ?s = take n (netdev_plan 3 (Address twice_routed) ?r) \<and>
        \<not> grants sample_netlink (snd ?s) (netdev_plan 3 (Address twice_routed) ?r ! n) \<and> fst ?s = Some (refusal ?r n)))" by simp
  moreover have "fst ?s \<noteq> None" using p by (simp add: SetupNetdev_def sample_netlink_def twice_routed_def)
  moreover have "n = 3" if "n < length (netdev_plan 3 (Address twice_routed) ?r)"
      "\<not> grants sample_netlink (take n (netdev_plan 3 (Address twice_routed) ?r)) (netdev_plan 3 (Address twice_routed) ?r ! n)" for n
    using that unfolding pl by (auto simp: sample_netlink_def less_Suc_eq)
  ultimately have "snd ?s = take 3 (netdev_plan 3 (Address twice_routed) ?r)" "fst ?s = Some (refusal ?r 3)" by metis+
  then show ?thesis by (simp add: pl refusal_def) (simp add: twice_routed_def)
qed

end
