(* ===== verification/Startup.thy ===== *)
theory Startup
  imports Keys Tunnel Netdev
begin

text \<open>
  The two commands, \<^verbatim>\<open>cmd/treccia-client/main.go\<close> and \<^verbatim>\<open>cmd/treccia-server/main.go\<close>, up to the
  point where the loops run: the configuration, the session's random numbers, the engine, the
  WireGuard device and the paths, with every \<^verbatim>\<open>os.Exit(1)\<close> as a value. Theory \<open>Lifecycle\<close> has the
  command line before and the rest after.
\<close>

datatype listen_error = ListenUnresolved | ListenRefused

datatype exit =
    ExitConfig config_error
  | ExitEntropy
  | ExitWG wg_error
  | ExitPath string
  | ExitNetdev netdev_error
  | ExitListen listen_error
  | ExitUp

definition str_bytes :: "string \<Rightarrow> bytes" where
  "str_bytes s = map (\<lambda>c. of_nat (of_char c)) s"

definition session_of :: "bytes \<Rightarrow> u32" where
  "session_of r = be32 (r ! 0) (r ! 1) (r ! 2) (r ! 3) OR 1"

definition client_id_of :: "bytes \<Rightarrow> u64" where
  "client_id_of r = be64 (r ! 4) (r ! 5) (r ! 6) (r ! 7) (r ! 8) (r ! 9) (r ! 10) (r ! 11)"

definition rules_of :: "ClassifyConfig \<Rightarrow> Rule list option" where
  "rules_of c = (if ClassifyDisabled c then None else Some (Rules c))"

text \<open>
  \<open>ask p server\<close> is what the machine answers to the call of \<^verbatim>\<open>AddPath\<close> for path \<open>p\<close> towards \<open>server\<close>.
\<close>

fun add_paths :: "(PathConfig \<Rightarrow> string \<Rightarrow> env) \<Rightarrow> string \<Rightarrow> PathConfig list \<Rightarrow> Engine \<Rightarrow> exit + Engine" where
  "add_paths ask srv [] e = Inr e"
| "add_paths ask srv (p # ps) e =
     (let server = (if ServerOverride p = '''' then srv else ServerOverride p);
          (e, ok) = AddPath (ask p server) e
      in if ok then add_paths ask srv ps e else Inl (ExitPath (Name p)))"

definition start_client ::
    "(bytes \<Rightarrow> bytes) \<Rightarrow> (bytes \<Rightarrow> ClientConfig option) \<Rightarrow> bytes option \<Rightarrow> bytes option \<Rightarrow> (string \<Rightarrow> int \<Rightarrow> bool) \<Rightarrow>
     (string \<Rightarrow> bool) \<Rightarrow> (PathConfig \<Rightarrow> string \<Rightarrow> env) \<Rightarrow> exit + Engine" where
  "start_client sum256 yaml file rand tun ipc ask =
     (case LoadClient yaml file of Inl x \<Rightarrow> Inl (ExitConfig x)
      | Inr cfg \<Rightarrow> (case rand of None \<Rightarrow> Inl ExitEntropy
        | Some r \<Rightarrow> (case fec_params (cFEC cfg) of Inl x \<Rightarrow> Inl (ExitConfig x)
          | Inr force \<Rightarrow>
              (let e = NewClient (NewMAC (DeriveKey sum256 (str_bytes (cControlPSK cfg)))) (session_of r) (client_id_of r)
                         (rules_of (cClassify cfg)) (FECDisabled (cFEC cfg)) force
               in case NewWG tun ipc (cTunnel cfg) True of Inl x \<Rightarrow> Inl (ExitWG x)
                  | Inr _ \<Rightarrow> add_paths ask (ServerAddr cfg) (cPaths cfg) e))))"

definition start_server ::
    "(bytes \<Rightarrow> bytes) \<Rightarrow> (bytes \<Rightarrow> ServerConfig option) \<Rightarrow> bytes option \<Rightarrow> (string \<Rightarrow> int \<Rightarrow> bool) \<Rightarrow> (string \<Rightarrow> bool) \<Rightarrow>
     exit + Server" where
  "start_server sum256 yaml file tun ipc =
     (case LoadServer yaml file of Inl x \<Rightarrow> Inl (ExitConfig x)
      | Inr cfg \<Rightarrow> (case fec_params (sFEC cfg) of Inl x \<Rightarrow> Inl (ExitConfig x)
        | Inr force \<Rightarrow>
            (let sv = NewServer (NewMAC (DeriveKey sum256 (str_bytes (sControlPSK cfg)))) (rules_of (sClassify cfg))
                        (FECDisabled (sFEC cfg)) force
             in case NewWG tun ipc (sTunnel cfg) False of Inl x \<Rightarrow> Inl (ExitWG x) | Inr _ \<Rightarrow> Inr sv)))"

section \<open>Lemmas\<close>

lemma session_of_nonzero: "session_of r \<noteq> 0"
proof
  assume "session_of r = 0"
  then have "bit (session_of r) 0 = bit (0 :: u32) 0" by simp
  then show False by (simp add: session_of_def bit_or_iff)
qed

text \<open>What starting a client fixes, and what adding a path keeps of it.\<close>

definition started_as :: "nat \<Rightarrow> Engine \<Rightarrow> Engine \<Rightarrow> bool" where
  "started_as n e0 e \<longleftrightarrow> client_inv 0 {#} e \<and> mac e = mac e0 \<and> session e = session e0 \<and> clientID e = clientID e0 \<and>
     classifier e = classifier e0 \<and> fecEnc e = fecEnc e0 \<and> globalSeq e = globalSeq e0 \<and> sent e = sent e0 \<and> pending e = pending e0 \<and>
     map pid (paths e) = map of_nat [0..<n] \<and>
     list_all (\<lambda>p. conn p \<and> \<not> registered p \<and> lastHello p = 0 \<and> pLink p = NewLink) (paths e)"

lemma AddPath_started:
  assumes "started_as n e0 e" "AddPath en e = (e', True)"
  shows "started_as (n + 1) e0 e'"
proof -
  have "client_inv 0 {#} e'"
    using AddPath_ok assms by (auto simp: started_as_def)
  moreover have n: "length (paths e) = n"
    using assms(1) by (metis diff_zero length_map length_upt started_as_def)
  ultimately show ?thesis
    using assms by (auto simp: started_as_def AddPath_def dial_def upd_path_def Let_def split: if_splits)
qed

lemma add_paths_started:
  "started_as n e0 e \<Longrightarrow> add_paths ask srv ps e = Inr e' \<Longrightarrow> started_as (n + length ps) e0 e'"
proof (induction ask srv ps e arbitrary: n rule: add_paths.induct)
  case (2 ask srv p ps e)
  let ?en = "ask p (if ServerOverride p = '''' then srv else ServerOverride p)"
  obtain e1 where "AddPath ?en e = (e1, True)" "add_paths ask srv ps e1 = Inr e'"
    using "2.prems"(2) by (auto simp: Let_def split: prod.splits if_splits)
  then show ?case
    using "2.IH" [of _ _ e1 True "n + 1"] AddPath_started [OF "2.prems"(1)] by simp
qed simp

lemma NewClient_started: "started_as 0 (NewClient mc sess cid rs disabled force) (NewClient mc sess cid rs disabled force)"
  using NewClient_inv by (simp add: started_as_def NewClient_def)

lemma start_client_as:
  assumes "start_client sum256 yaml file rand tun ipc ask = Inr e" "LoadClient yaml file = Inr cfg"
  shows "\<exists>r force. rand = Some r \<and> fec_params (cFEC cfg) = Inr force \<and>
    started_as (length (cPaths cfg)) (NewClient (NewMAC (DeriveKey sum256 (str_bytes (cControlPSK cfg)))) (session_of r) (client_id_of r)
       (rules_of (cClassify cfg)) (FECDisabled (cFEC cfg)) force) e"
proof -
  obtain r force where c: "rand = Some r" "fec_params (cFEC cfg) = Inr force"
      "add_paths ask (ServerAddr cfg) (cPaths cfg) (NewClient (NewMAC (DeriveKey sum256 (str_bytes (cControlPSK cfg))))
         (session_of r) (client_id_of r) (rules_of (cClassify cfg)) (FECDisabled (cFEC cfg)) force) = Inr e"
    using assms by (auto simp: start_client_def Let_def split: sum.splits option.splits)
  from add_paths_started [OF NewClient_started c(3)] c(1,2) show ?thesis by auto
qed

lemma start_server_as:
  assumes "start_server sum256 yaml file tun ipc = Inr sv" "LoadServer yaml file = Inr cfg"
  shows "\<exists>force. fec_params (sFEC cfg) = Inr force \<and>
    sv = NewServer (NewMAC (DeriveKey sum256 (str_bytes (sControlPSK cfg)))) (rules_of (sClassify cfg)) (FECDisabled (sFEC cfg)) force"
  using assms by (auto simp: start_server_def Let_def split: sum.splits)

lemma started_path:
  assumes "started_as n e0 e"
  shows "length (paths e) = n"
    and "i < n \<Longrightarrow> pid (paths e ! i) = of_nat i \<and> conn (paths e ! i) \<and> lastHello (paths e ! i) = 0 \<and> \<not> registered (paths e ! i)"
proof -
  show l: "length (paths e) = n"
    using assms by (metis diff_zero length_map length_upt started_as_def)
  assume i: "i < n"
  have "map pid (paths e) ! i = map of_nat [0..<n] ! i"
    using assms by (simp add: started_as_def)
  then have "pid (paths e ! i) = of_nat i" using i l by simp
  with i l assms show "pid (paths e ! i) = of_nat i \<and> conn (paths e ! i) \<and> lastHello (paths e ! i) = 0 \<and> \<not> registered (paths e ! i)"
    by (simp add: started_as_def list_all_length)
qed

text \<open>The client right after the first acknowledgement, with path \<open>i\<close> registered.\<close>

definition joined :: "nat \<Rightarrow> timestamp \<Rightarrow> timestamp \<Rightarrow> net_out list \<Rightarrow> Engine \<Rightarrow> Engine" where
  "joined i t t' ds e = give_back [next_loan e]
     (upd_path i (\<lambda>p. p\<lparr>lastHello := t, registered := True, lastRxNano := t'\<rparr>) (e\<lparr>sent := sent e @ ds, next_loan := Suc (next_loan e)\<rparr>))"

lemma joined_fields [simp]:
  "session (joined i t t' ds e) = session e" "globalSeq (joined i t t' ds e) = globalSeq e"
  by (simp_all add: joined_def give_back_def upd_path_def)

lemma joined_bulk_ready:
  assumes "started_as n e0 e" "classifier e0 = None" "fecEnc e0 = None" "i < n"
  shows "bulk_ready (joined i t t' ds e)"
proof -
  let ?e = "joined i t t' ds e"
  have ps: "paths ?e = (paths e)[i := (paths e ! i)\<lparr>lastHello := t, registered := True, lastRxNano := t'\<rparr>]"
    by (simp add: joined_def give_back_def upd_path_def)
  note l = started_path(1) [OF assms(1)]
  have "i \<in> set (filter (\<lambda>k. registered (paths ?e ! k)) [0..<length (paths ?e)])"
    using assms(4) l by (simp add: ps)
  then have "sendablePaths ?e \<noteq> []"
    by (auto simp: sendablePaths_def Let_def simp del: set_filter)
  moreover have "\<forall>p \<in> set (paths e). conn p \<and> DropProb (pLink p) \<le> 0"
    using assms(1) by (auto simp: started_as_def list_all_iff DropProb_def NewLink_def)
  then have "\<forall>p \<in> set (paths ?e). conn p \<and> DropProb (pLink p) \<le> 0"
    using assms(4) l unfolding ps by (auto dest!: set_update_subset_insert [THEN subsetD] nth_mem)
  moreover have "classifier ?e = None" "fecEnc ?e = None"
    using assms(1-3) by (simp_all add: started_as_def joined_def give_back_def upd_path_def)
  ultimately show ?thesis by (simp add: bulk_ready_def)
qed

lemma first_handshake:
  assumes client: "started_as n e0 e" "pending e0 = []" "i < n"
    and server: "mac sv = mac e" "lookupSession (session e) sv = None"
    and hello: "helloRefresh \<le> i64 (now en)" "\<forall>d. net en i d" "\<forall>d. net_to sen a d"
      "FreshTS (Unix (now en)) (Unix (now sen))" "FreshTS (Unix (now_at sen 2)) (Unix (now en2))"
  shows "\<exists>e1 d sv1 ack s. hello_path lb en i e = Some e1 \<and> sent e1 = sent e @ [Tx i d] \<and>
    serverRx lb sen (Some (d, a)) sv = Some sv1 \<and> sent sv1 = sent sv @ [TxTo a ack] \<and>
    clientRx lb en2 ens i (Some ack) e1 = Some (joined i (now en) (now en2) [Tx i d] e) \<and>
    lookupSession (session e) sv1 = Some s \<and> sReorder s = Reorder.New \<and> bind sv1 = bind sv"
proof -
  note p = started_path [OF client(1)]
  let ?i = "pid (paths e ! i)"
  let ?d = "hello_to lb e 5 ?i (Unix (now en))" and ?ack = "hello_to lb e 6 ?i (Unix (now_at sen 2))"
  let ?e1 = "(upd_path i (\<lambda>p. p\<lparr>lastHello := now en\<rparr>) e)\<lparr>sent := sent e @ [Tx i ?d]\<rparr>"
  have h: "hello_path lb en i e = Some ?e1"
    using p client(3) hello by (intro hello_goes_out) (simp_all add: helloRefresh_def time_units)
  obtain sv1 s where s: "serverRx lb sen (Some (?d, a)) sv = Some sv1" "sent sv1 = sent sv @ [TxTo a ?ack]"
      "lookupSession (session e) sv1 = Some s" "sReorder s = Reorder.New" "bind sv1 = bind sv"
    using hello_answered_fresh [OF server hello(3,4), of lb ?i] by blast
  have e1: "length (paths ?e1) = length (paths e)" "pid (paths ?e1 ! i) = ?i" "conn (paths ?e1 ! i)"
      "mac ?e1 = mac e" "session ?e1 = session e" "clientID ?e1 = clientID e" "pending ?e1 = []"
    using p client by (simp_all add: upd_path_def started_as_def)
  have "clientRx lb en2 ens i (Some ?ack) ?e1 = Some (joined i (now en) (now en2) [Tx i ?d] e)"
    using hello_ack_exact [of i ?e1 "Unix (now_at sen 2)" en2 lb ens] e1 p(1) client(3) hello(5)
    by (simp add: joined_def) (simp add: upd_path_def)
  with h s show ?thesis
    by (intro exI [of _ ?e1] exI [of _ ?d] exI [of _ sv1] exI [of _ ?ack] exI [of _ s]) simp
qed

section \<open>Properties\<close>

lemma distinct_ids: "n \<le> 256 \<Longrightarrow> distinct (map of_nat [0..<n] :: byte list)"
  by (auto simp: distinct_map inj_on_def word_of_nat_eq_iff take_bit_nat_eq_self)

text \<open>
  C26. A client that starts has a session number other than zero, one connected path per
  configured path, with the ids 0, 1, 2, \<open>\<dots>\<close> which are all different as bytes, and is in a state
  from which the safety of the client holds.
\<close>

theorem client_starts_well:
  assumes "start_client sum256 yaml file rand tun ipc ask = Inr e" "LoadClient yaml file = Inr cfg"
  shows "session e \<noteq> 0 \<and> client_inv 0 {#} e \<and> length (paths e) = length (cPaths cfg) \<and> distinct (map pid (paths e)) \<and>
    list_all (\<lambda>p. conn p \<and> \<not> registered p) (paths e) \<and> mac e = NewMAC (DeriveKey sum256 (str_bytes (cControlPSK cfg)))"
proof -
  obtain r force where st: "started_as (length (cPaths cfg)) (NewClient (NewMAC (DeriveKey sum256 (str_bytes (cControlPSK cfg))))
      (session_of r) (client_id_of r) (rules_of (cClassify cfg)) (FECDisabled (cFEC cfg)) force) e"
    using start_client_as [OF assms] by blast
  have "length (cPaths cfg) \<le> 256"
    using assms(2) by (auto simp: LoadClient_def load_def check_client_Inr client_ok_def client_fill_def named_paths_def split: option.splits)
  then have "distinct (map of_nat [0..<length (cPaths cfg)] :: byte list)" by (rule distinct_ids)
  with st started_path(1) [OF st] session_of_nonzero [of r] show ?thesis
    by (simp add: started_as_def NewClient_def list_all_iff)
qed

text \<open>A site with two paths: its client and its server file.\<close>

definition sample_tunnel :: TunnelConfig where
  "sample_tunnel = \<lparr>Interface = '''', MTU = 0, Address = ''10.200.0.2/24'', PrivateKey = KeyString (replicate 32 1),
     PeerPublicKey = KeyString (replicate 32 2), Routes = []\<rparr>"

definition site_client :: ClientConfig where
  "site_client = sample_client\<lparr>cTunnel := sample_tunnel, cClassify := \<lparr>ClassifyDisabled = True, Rules = []\<rparr>,
     cFEC := \<lparr>FECDisabled = True, Force = ''''\<rparr>\<rparr>"

definition site_server :: ServerConfig where
  "site_server = \<lparr>sTunnel = sample_tunnel, Listen = '''', sControlPSK = ''psk'', sClassify = \<lparr>ClassifyDisabled = True, Rules = []\<rparr>,
     sFEC = \<lparr>FECDisabled = True, Force = ''''\<rparr>, sDashboard = \<lparr>DashListen = '''', Token = ''''\<rparr>\<rparr>"

lemma KeyString_replicate [simp]: "KeyString (replicate 32 x) \<noteq> []"
  by (simp add: KeyString_def)

lemma site_loads:
  "\<exists>c. LoadClient (\<lambda>_. Some site_client) (Some []) = Inr c \<and> ClassifyDisabled (cClassify c) \<and> FECDisabled (cFEC c) \<and>
     Force (cFEC c) = '''' \<and> length (cPaths c) = 2 \<and> cControlPSK c = ''psk'' \<and>
     PrivateKey (cTunnel c) = KeyString (replicate 32 1) \<and> PeerPublicKey (cTunnel c) = KeyString (replicate 32 2)"
  "\<exists>s. LoadServer (\<lambda>_. Some site_server) (Some []) = Inr s \<and> sControlPSK s = ''psk'' \<and> Force (sFEC s) = '''' \<and>
     PrivateKey (sTunnel s) = KeyString (replicate 32 1) \<and> PeerPublicKey (sTunnel s) = KeyString (replicate 32 2)"
proof -
  have "client_ok site_client"
    using sample_client_ok by (simp add: client_ok_def site_client_def sample_tunnel_def tunnel_ok_def force_ok_def sample_texts)
  then show "\<exists>c. LoadClient (\<lambda>_. Some site_client) (Some []) = Inr c \<and> ClassifyDisabled (cClassify c) \<and> FECDisabled (cFEC c) \<and>
     Force (cFEC c) = '''' \<and> length (cPaths c) = 2 \<and> cControlPSK c = ''psk'' \<and>
     PrivateKey (cTunnel c) = KeyString (replicate 32 1) \<and> PeerPublicKey (cTunnel c) = KeyString (replicate 32 2)"
    by (simp add: LoadClient_def load_def check_client_Inr client_fill_def site_client_def sample_client_def sample_tunnel_def applyDefaults_def
        named_paths_def)
  have "server_ok site_server"
    by (simp add: server_ok_def site_server_def sample_tunnel_def tunnel_ok_def force_ok_def sample_texts)
  then show "\<exists>s. LoadServer (\<lambda>_. Some site_server) (Some []) = Inr s \<and> sControlPSK s = ''psk'' \<and> Force (sFEC s) = '''' \<and>
     PrivateKey (sTunnel s) = KeyString (replicate 32 1) \<and> PeerPublicKey (sTunnel s) = KeyString (replicate 32 2)"
    by (simp add: LoadServer_def load_def check_server_Inr server_fill_def site_server_def sample_tunnel_def applyDefaults_def)
qed

lemma add_paths_dials: "(\<And>p s i. dial_ok (ask p s) i) \<Longrightarrow> \<exists>e'. add_paths ask srv ps e = Inr e'"
  by (induction ps arbitrary: e) (auto simp: AddPath_def dial_def Let_def)

lemma site_starts:
  "\<exists>e. start_client id (\<lambda>_. Some site_client) (Some []) (Some (replicate 12 0)) (\<lambda>_ _. True) (\<lambda>_. True) (\<lambda>_ _. some_env) = Inr e"
  "\<exists>sv. start_server id (\<lambda>_. Some site_server) (Some []) (\<lambda>_ _. True) (\<lambda>_. True) = Inr sv"
proof -
  obtain c where c: "LoadClient (\<lambda>_. Some site_client) (Some []) = Inr c" "Force (cFEC c) = ''''"
      "PrivateKey (cTunnel c) = KeyString (replicate 32 1)" "PeerPublicKey (cTunnel c) = KeyString (replicate 32 2)"
    using site_loads(1) by blast
  then show "\<exists>e. start_client id (\<lambda>_. Some site_client) (Some []) (Some (replicate 12 0)) (\<lambda>_ _. True) (\<lambda>_. True) (\<lambda>_ _. some_env) = Inr e"
    using add_paths_dials [of "\<lambda>_ _. some_env"]
    by (simp add: start_client_def fec_params_def NewWG_def sample_keys some_env_def)
  obtain s where s: "LoadServer (\<lambda>_. Some site_server) (Some []) = Inr s" "Force (sFEC s) = ''''"
      "PrivateKey (sTunnel s) = KeyString (replicate 32 1)" "PeerPublicKey (sTunnel s) = KeyString (replicate 32 2)"
    using site_loads(2) by blast
  then show "\<exists>sv. start_server id (\<lambda>_. Some site_server) (Some []) (\<lambda>_ _. True) (\<lambda>_. True) = Inr sv"
    by (simp add: start_server_def fec_params_def NewWG_def sample_keys)
qed

theorem client_starts_well_witness:
  "\<exists>e. start_client id (\<lambda>_. Some site_client) (Some []) (Some (replicate 12 0)) (\<lambda>_ _. True) (\<lambda>_. True) (\<lambda>_ _. some_env) = Inr e \<and>
     session e \<noteq> 0 \<and> length (paths e) = 2 \<and> distinct (map pid (paths e))"
proof -
  obtain e where e: "start_client id (\<lambda>_. Some site_client) (Some []) (Some (replicate 12 0)) (\<lambda>_ _. True) (\<lambda>_. True) (\<lambda>_ _. some_env) = Inr e"
    using site_starts(1) by blast
  obtain c where c: "LoadClient (\<lambda>_. Some site_client) (Some []) = Inr c" "length (cPaths c) = 2"
    using site_loads(1) by blast
  from client_starts_well [OF e c(1)] e c(2) show ?thesis by auto
qed

end
