(* ===== verification/Lifecycle.thy ===== *)
theory Lifecycle
  imports Startup
begin

text \<open>
  The life of the two processes: the command line and the rest of \<^verbatim>\<open>cmd/treccia-client/main.go\<close>
  and \<^verbatim>\<open>cmd/treccia-server/main.go\<close> around \<open>Startup\<close>, with \<^verbatim>\<open>Run\<close> and \<^verbatim>\<open>WaitReady\<close> of \<^verbatim>\<open>client.go\<close> and
  \<^verbatim>\<open>Listen\<close> of \<^verbatim>\<open>server.go\<close>. A run is its outcome and the list of the actions that others can see, in
  order. What the machine answers is a record; \<open>None\<close> is a run that never ends. Logging is left out.
\<close>

section \<open>The command line\<close>

text \<open>\<^verbatim>\<open>FlagSet.Parse\<close> of package \<^verbatim>\<open>flag\<close> on the three flags that both commands define.\<close>

record Flags =
  cfgPath :: string
  verbose :: bool
  showVersion :: bool

datatype flag_result = Parsed Flags | ErrHelp | FlagError

definition ParseBool :: "string \<Rightarrow> bool option" where
  "ParseBool s =
     (if s \<in> {''1'', ''t'', ''T'', ''true'', ''TRUE'', ''True''} then Some True
      else if s \<in> {''0'', ''f'', ''F'', ''false'', ''FALSE'', ''False''} then Some False
      else None)"

definition flag_value :: "string \<Rightarrow> string option" where
  "flag_value name = (case dropWhile (\<lambda>c. c \<noteq> CHR ''='') name of [] \<Rightarrow> None | _ # v \<Rightarrow> Some v)"

fun parse_flags :: "Flags \<Rightarrow> string list \<Rightarrow> flag_result" where
  "parse_flags fl [] = Parsed fl"
| "parse_flags fl (s # args) =
     (if length s < 2 \<or> s ! 0 \<noteq> CHR ''-'' \<or> s = ''--'' then Parsed fl
      else (let nv = (if s ! 1 = CHR ''-'' then drop 2 s else drop 1 s) in
        if nv = [] \<or> hd nv = CHR ''-'' \<or> hd nv = CHR ''='' then FlagError
        else (let name = takeWhile (\<lambda>c. c \<noteq> CHR ''='') nv; value = flag_value nv in
          if name = ''config'' then
            (case value of
               Some v \<Rightarrow> parse_flags (fl\<lparr>cfgPath := v\<rparr>) args
             | None \<Rightarrow> (case args of [] \<Rightarrow> FlagError | v # args' \<Rightarrow> parse_flags (fl\<lparr>cfgPath := v\<rparr>) args'))
          else if name \<in> {''verbose'', ''version''} then
            (case ParseBool (case value of Some v \<Rightarrow> v | None \<Rightarrow> ''true'') of
               None \<Rightarrow> FlagError
             | Some b \<Rightarrow> parse_flags (if name = ''verbose'' then fl\<lparr>verbose := b\<rparr> else fl\<lparr>showVersion := b\<rparr>) args)
          else if name \<in> {''help'', ''h''} then ErrHelp
          else FlagError)))"

definition client_flags :: Flags where
  "client_flags = \<lparr>cfgPath = ''/etc/treccia/client.yaml'', verbose = False, showVersion = False\<rparr>"

definition server_flags :: Flags where
  "server_flags = \<lparr>cfgPath = ''/etc/treccia/server.yaml'', verbose = False, showVersion = False\<rparr>"

section \<open>The loops\<close>

datatype loop =
    HelloLoop | ClientProbeLoop | ClientCtrlLoop | FecFlushLoop
  | ServerRxLoop | ServerControlLoop | SessionReaper | ServerFecFlushLoop

datatype Mode = ModeClient | ModeServer

definition Run :: "Mode \<Rightarrow> Engine \<Rightarrow> loop list" where
  "Run mode e =
     (if mode \<noteq> ModeClient then []
      else [HelloLoop, ClientProbeLoop, ClientCtrlLoop] @ (if fecEnc e \<noteq> None then [FecFlushLoop] else []))"

definition Listen :: "(string \<Rightarrow> 'u option) \<Rightarrow> ('u \<Rightarrow> bool) \<Rightarrow> string \<Rightarrow> Server \<Rightarrow> listen_error + loop list" where
  "Listen resolve listenUDP laddr sv =
     (case resolve laddr of
        None \<Rightarrow> Inl ListenUnresolved
      | Some ua \<Rightarrow>
          if \<not> listenUDP ua then Inl ListenRefused
          else Inr ([ServerRxLoop, ServerControlLoop, SessionReaper] @ (if \<not> fecDisabled sv then [ServerFecFlushLoop] else [])))"

section \<open>Waiting for a path\<close>

text \<open>
  What the \<open>n\<close>-th round of \<^verbatim>\<open>WaitReady\<close> meets: the clock, the engine as the loops have left it, and
  whether its \<^verbatim>\<open>select\<close> takes the branch of the cancelled context.
\<close>

record round =
  clock :: timestamp
  seen :: Engine
  cancelled :: bool

datatype readiness = Ready | Cancelled | TimedOut

partial_function (option) wait_rounds :: "(nat \<Rightarrow> round) \<Rightarrow> timestamp \<Rightarrow> nat \<Rightarrow> readiness option" where
  "wait_rounds v deadline n =
     (if clock (v n) < deadline then
        if activePath (seen (v n)) \<noteq> None then Some Ready
        else if cancelled (v n) then Some Cancelled
        else wait_rounds v deadline (n + 1)
      else Some TimedOut)"

definition WaitReady :: "(nat \<Rightarrow> round) \<Rightarrow> timestamp \<Rightarrow> duration \<Rightarrow> readiness option" where
  "WaitReady v since timeout = wait_rounds v (since + timeout) 0"

section \<open>The commands\<close>

datatype 'a action =
    Spawn loop
  | Waited readiness
  | Netdev "'a netdev_op"
  | WgUp
  | ServeDashboard string string
  | CloseEngine
  | CloseWG

datatype outcome =
    KeyCommand cli_result
  | Usage nat
  | VersionShown string
  | Failed exit
  | ShutDown

record ('a, 'u) machine =
  curve :: "Key \<Rightarrow> bytes option"
  blake :: "bytes \<Rightarrow> bytes"
  entropy :: "nat \<Rightarrow> bytes option"
  stdin :: string
  version :: string
  files :: "string \<Rightarrow> bytes option"
  client_yaml :: "bytes \<Rightarrow> ClientConfig option"
  server_yaml :: "bytes \<Rightarrow> ServerConfig option"
  create_tun :: "string \<Rightarrow> int \<Rightarrow> bool"
  ipc_set :: "string \<Rightarrow> bool"
  tun_name :: "string option"
  wg_up :: bool
  path_env :: "PathConfig \<Rightarrow> string \<Rightarrow> env"
  netlinks :: "'a netlink"
  resolve_udp :: "string \<Rightarrow> 'u option"
  listen_udp :: "'u \<Rightarrow> bool"
  wait_from :: timestamp
  rounds :: "nat \<Rightarrow> round"

definition device_name :: "('a, 'u) machine \<Rightarrow> TunnelConfig \<Rightarrow> string" where
  "device_name m t = (case tun_name m of Some n \<Rightarrow> n | None \<Rightarrow> Interface t)"

definition setup_device :: "('a, 'u) machine \<Rightarrow> TunnelConfig \<Rightarrow> netdev_error option \<times> 'a netdev_op list" where
  "setup_device m t = SetupNetdev (netlinks m) (device_name m t) (Address t) (Routes t)"

text \<open>The dashboard is started, a signal arrives, and the deferred calls run, the last one first.\<close>

definition serve_until_signal :: "DashboardConfig \<Rightarrow> 'a action list" where
  "serve_until_signal d = (if DashListen d \<noteq> '''' then [ServeDashboard (DashListen d) (Token d)] else []) @ [CloseEngine, CloseWG]"

definition finish_client :: "('a, 'u) machine \<Rightarrow> ClientConfig \<Rightarrow> Engine \<Rightarrow> (outcome \<times> 'a action list) option" where
  "finish_client m cfg e =
     (case WaitReady (rounds m) (wait_from m) (10 * Second) of
        None \<Rightarrow> None
      | Some w \<Rightarrow>
          (let acts = map Spawn (Run ModeClient e) @ [Waited w];
               (err, ops) = setup_device m (cTunnel cfg);
               acts = acts @ map Netdev ops
           in case err of
                Some x \<Rightarrow> Some (Failed (ExitNetdev x), acts)
              | None \<Rightarrow>
                  if \<not> wg_up m then Some (Failed ExitUp, acts)
                  else Some (ShutDown, acts @ [WgUp] @ serve_until_signal (cDashboard cfg))))"

definition finish_server :: "('a, 'u) machine \<Rightarrow> ServerConfig \<Rightarrow> Server \<Rightarrow> outcome \<times> 'a action list" where
  "finish_server m cfg sv =
     (let (err, ops) = setup_device m (sTunnel cfg);
          acts = map Netdev ops
      in case err of
           Some x \<Rightarrow> (Failed (ExitNetdev x), acts)
         | None \<Rightarrow>
             (case Listen (resolve_udp m) (listen_udp m) (ServerConfig.Listen cfg) sv of
                Inl x \<Rightarrow> (Failed (ExitListen x), acts)
              | Inr loops \<Rightarrow>
                  (let acts = acts @ map Spawn loops
                   in if \<not> wg_up m then (Failed ExitUp, acts)
                      else (ShutDown, acts @ [WgUp] @ serve_until_signal (sDashboard cfg)))))"

text \<open>The common beginning of both commands, up to the configuration file.\<close>

definition command_line :: "('a, 'u) machine \<Rightarrow> string \<Rightarrow> Flags \<Rightarrow> string list \<Rightarrow> outcome + string" where
  "command_line m prog flags args =
     (case KeySubcommand (curve m) (entropy m 32) (stdin m) args of
        NotHandled \<Rightarrow>
          (case parse_flags flags args of
             ErrHelp \<Rightarrow> Inl (Usage 0)
           | FlagError \<Rightarrow> Inl (Usage 2)
           | Parsed fl \<Rightarrow>
               if showVersion fl then Inl (VersionShown (prog @ '' '' @ version m)) else Inr (cfgPath fl))
      | r \<Rightarrow> Inl (KeyCommand r))"

definition treccia_client :: "('a, 'u) machine \<Rightarrow> string list \<Rightarrow> (outcome \<times> 'a action list) option" where
  "treccia_client m args =
     (case command_line m ''treccia-client'' client_flags args of
        Inl r \<Rightarrow> Some (r, [])
      | Inr path \<Rightarrow>
          (case start_client (blake m) (client_yaml m) (files m path) (entropy m 12) (create_tun m) (ipc_set m) (path_env m) of
             Inl x \<Rightarrow> Some (Failed x, [])
           | Inr e \<Rightarrow>
               (case LoadClient (client_yaml m) (files m path) of
                  Inl x \<Rightarrow> Some (Failed (ExitConfig x), [])
                | Inr cfg \<Rightarrow> finish_client m cfg e)))"

definition treccia_server :: "('a, 'u) machine \<Rightarrow> string list \<Rightarrow> outcome \<times> 'a action list" where
  "treccia_server m args =
     (case command_line m ''treccia-server'' server_flags args of
        Inl r \<Rightarrow> (r, [])
      | Inr path \<Rightarrow>
          (case start_server (blake m) (server_yaml m) (files m path) (create_tun m) (ipc_set m) of
             Inl x \<Rightarrow> (Failed x, [])
           | Inr sv \<Rightarrow>
               (case LoadServer (server_yaml m) (files m path) of
                  Inl x \<Rightarrow> (Failed (ExitConfig x), [])
                | Inr cfg \<Rightarrow> finish_server m cfg sv)))"

section \<open>Lemmas\<close>

text \<open>The guarantee of \<^verbatim>\<open>time.After\<close>: a round that goes on has waited 25 ms.\<close>

definition paced :: "(nat \<Rightarrow> round) \<Rightarrow> bool" where
  "paced v \<longleftrightarrow> (\<forall>n. clock (v n) + 25 * Millisecond \<le> clock (v (n + 1)))"

definition waits_on :: "(nat \<Rightarrow> round) \<Rightarrow> timestamp \<Rightarrow> nat \<Rightarrow> bool" where
  "waits_on v deadline n \<longleftrightarrow> clock (v n) < deadline \<and> activePath (seen (v n)) = None \<and> \<not> cancelled (v n)"

definition verdict :: "(nat \<Rightarrow> round) \<Rightarrow> timestamp \<Rightarrow> nat \<Rightarrow> readiness" where
  "verdict v deadline n =
     (if deadline \<le> clock (v n) then TimedOut else if activePath (seen (v n)) \<noteq> None then Ready else Cancelled)"

lemma paced_clock: "paced v \<Longrightarrow> clock (v 0) + 25 * Millisecond * int n \<le> clock (v n)"
proof (induction n)
  case (Suc n)
  then have "clock (v n) + 25 * Millisecond \<le> clock (v (Suc n))" by (simp add: paced_def)
  with Suc show ?case by (simp add: algebra_simps)
qed simp

lemma wait_rounds_skip: "\<forall>k < n. waits_on v d (i + k) \<Longrightarrow> wait_rounds v d i = wait_rounds v d (i + n)"
proof (induction n arbitrary: i)
  case (Suc n)
  have "waits_on v d i" using Suc.prems by (metis add_0_right zero_less_Suc)
  then have "wait_rounds v d i = wait_rounds v d (i + 1)"
    by (subst wait_rounds.simps) (simp add: waits_on_def)
  also have "\<dots> = wait_rounds v d (i + 1 + n)"
    using Suc.prems by (intro Suc.IH) auto
  finally show ?case by simp
qed simp

lemma wait_rounds_stop: "\<not> waits_on v d n \<Longrightarrow> wait_rounds v d n = Some (verdict v d n)"
  by (subst wait_rounds.simps) (auto simp: waits_on_def verdict_def)

lemma wait_rounds_first:
  assumes "\<not> waits_on v d n" "\<forall>k < n. waits_on v d k"
  shows "wait_rounds v d 0 = Some (verdict v d n)"
  using wait_rounds_skip [of n v d 0] wait_rounds_stop [OF assms(1)] assms(2) by simp

text \<open>The first round that does not go on, and a bound on its number.\<close>

lemma WaitReady_round:
  assumes "paced v" "since \<le> clock (v 0)"
  obtains n where "int n \<le> max 0 timeout div (25 * Millisecond) + 1" "\<forall>k < n. waits_on v (since + timeout) k"
    "\<not> waits_on v (since + timeout) n" "WaitReady v since timeout = Some (verdict v (since + timeout) n)"
proof -
  let ?d = "since + timeout" and ?b = "nat (max 0 timeout div (25 * Millisecond) + 1)"
  have "timeout < 25 * Millisecond * int ?b"
    by (simp add: time_units)
  then have "\<not> waits_on v ?d ?b"
    using paced_clock [OF assms(1), of ?b] assms(2) by (simp add: waits_on_def)
  then obtain n where n: "\<not> waits_on v ?d n" "\<forall>k < n. waits_on v ?d k" "n \<le> ?b"
    using exists_least_iff [of "\<lambda>n. \<not> waits_on v ?d n"] by (metis linorder_not_less)
  moreover have "0 \<le> max 0 timeout div (25 * Millisecond)" by (simp add: time_units)
  ultimately show ?thesis
    using that [of n] wait_rounds_first [of v ?d n] by (simp add: WaitReady_def nat_le_iff le_nat_iff)
qed

lemma loaded_client:
  assumes "LoadClient yaml file = Inr cfg"
  shows "validate_tunnel (cTunnel cfg) = None" "\<exists>force. fec_params (cFEC cfg) = Inr force"
  using assms by (auto simp: LoadClient_def load_def check_client_Inr client_ok_def client_fill_def validate_tunnel_None
      force_ok_def fec_params_def split: option.splits)

lemma loaded_server:
  assumes "LoadServer yaml file = Inr cfg"
  shows "validate_tunnel (sTunnel cfg) = None" "\<exists>force. fec_params (sFEC cfg) = Inr force"
  using assms by (auto simp: LoadServer_def load_def check_server_Inr server_ok_def server_fill_def validate_tunnel_None
      force_ok_def fec_params_def split: option.splits)

text \<open>
  The outcome of setting up the interface when the kernel refuses the \<open>n\<close>-th request of the plan
  (none of them when \<open>n\<close> is the length of the plan).
\<close>

definition stops_at :: "'a netlink \<Rightarrow> 'a netdev_op list \<Rightarrow> nat \<Rightarrow> bool" where
  "stops_at nl plan n \<longleftrightarrow> n = length plan \<or> n < length plan \<and> \<not> grants nl (take n plan) (plan ! n)"

lemma setup_device_plan:
  assumes "validate_tunnel t = None" "LinkByName (netlinks m) (device_name m t) = Some i" "NlParseAddr (netlinks m) (Address t) = Some a"
  obtains n where "stops_at (netlinks m) (netdev_plan i a (Routes t)) n"
    "setup_device m t = (if n < length (netdev_plan i a (Routes t)) then Some (refusal (Routes t) n) else None, take n (netdev_plan i a (Routes t)))"
proof -
  obtain err ops where s: "SetupNetdev (netlinks m) (device_name m t) (Address t) (Routes t) = (err, ops)" by fastforce
  from SetupNetdev_plan [OF assms(2,3) validated_routes [OF assms(1)] s] consider
      "err = None" "ops = netdev_plan i a (Routes t)"
    | n where "n < length (netdev_plan i a (Routes t))" "ops = take n (netdev_plan i a (Routes t))"
      "\<not> grants (netlinks m) ops (netdev_plan i a (Routes t) ! n)" "err = Some (refusal (Routes t) n)" by blast
  then show ?thesis
  proof cases
    case 1
    with s that [of "length (netdev_plan i a (Routes t))"] show ?thesis by (simp add: setup_device_def stops_at_def)
  next
    case 2
    with s that [of n] show ?thesis by (simp add: setup_device_def stops_at_def)
  qed
qed

lemma client_starts:
  assumes "LoadClient yaml file = Inr cfg" "rand = Some r" "NewWG tun ipc (cTunnel cfg) True = Inr x" "\<forall>p s i. dial_ok (ask p s) i"
  shows "\<exists>e. start_client sum256 yaml file rand tun ipc ask = Inr e"
  using loaded_client(2) [OF assms(1)] assms add_paths_dials [of ask] by (auto simp: start_client_def Let_def)

lemma server_starts:
  assumes "LoadServer yaml file = Inr cfg" "NewWG tun ipc (sTunnel cfg) False = Inr x"
  shows "\<exists>sv. start_server sum256 yaml file tun ipc = Inr sv"
  using loaded_server(2) [OF assms(1)] assms by (auto simp: start_server_def Let_def)

text \<open>A machine that grants everything, on which the clock runs and no path ever registers.\<close>

definition site_machine :: "(string, unit) machine" where
  "site_machine = \<lparr>curve = Some, blake = id, entropy = (\<lambda>n. Some (replicate n 0)), stdin = '''', version = ''dev'', files = (\<lambda>_. Some []),
     client_yaml = (\<lambda>_. Some site_client), server_yaml = (\<lambda>_. Some site_server), create_tun = (\<lambda>_ _. True), ipc_set = (\<lambda>_. True),
     tun_name = None, wg_up = True, path_env = (\<lambda>_ _. some_env), netlinks = sample_netlink, resolve_udp = (\<lambda>_. Some ()),
     listen_udp = (\<lambda>_. True), wait_from = 0,
     rounds = (\<lambda>n. \<lparr>clock = 25 * Millisecond * int n, seen = NewClient (NewMAC []) 1 1 None True off, cancelled = False\<rparr>)\<rparr>"

lemma site_paced: "paced (rounds site_machine)" "wait_from site_machine \<le> clock (rounds site_machine 0)"
  by (simp_all add: paced_def site_machine_def algebra_simps)

lemma site_command_line:
  "command_line site_machine ''treccia-client'' client_flags [''-config'', ''c.yaml'', ''--verbose=f''] = Inr ''c.yaml''"
  "command_line site_machine ''treccia-server'' server_flags [] = Inr ''/etc/treccia/server.yaml''"
  by (simp_all add: command_line_def KeySubcommand_def client_flags_def server_flags_def flag_value_def ParseBool_def)

lemma site_granted:
  assumes "stops_at sample_netlink (netdev_plan 3 s []) n"
  shows "n = length (netdev_plan 3 s [])"
proof (rule ccontr)
  assume "n \<noteq> length (netdev_plan 3 s [])"
  with assms have "n < length (netdev_plan 3 s [])" "\<not> grants sample_netlink (take n (netdev_plan 3 s [])) (netdev_plan 3 s [] ! n)"
    by (simp_all add: stops_at_def)
  then show False by (auto simp: sample_netlink_def netdev_plan_def less_Suc_eq)
qed

lemma site_links [simp]: "LinkByName sample_netlink s = Some 3" "NlParseAddr sample_netlink t = Some t"
  by (simp_all add: sample_netlink_def)

section \<open>Properties\<close>

text \<open>
  C28. \<^verbatim>\<open>WaitReady\<close> returns, whatever the loops do to the engine: when each \<^verbatim>\<open>time.After\<close> waits its 25 ms, it
  ends within \<open>timeout / 25 ms + 2\<close> rounds, at the first round that meets the deadline, a registered
  path or a cancelled context, and says which: the deadline before the path, the path before the
  context.
\<close>

theorem WaitReady_returns:
  assumes "paced v" "since \<le> clock (v 0)"
  shows "\<exists>n. int n \<le> max 0 timeout div (25 * Millisecond) + 1 \<and>
    (\<forall>k < n. clock (v k) < since + timeout \<and> activePath (seen (v k)) = None \<and> \<not> cancelled (v k)) \<and>
    (since + timeout \<le> clock (v n) \<or> activePath (seen (v n)) \<noteq> None \<or> cancelled (v n)) \<and>
    WaitReady v since timeout =
      Some (if since + timeout \<le> clock (v n) then TimedOut
            else if activePath (seen (v n)) \<noteq> None then Ready else Cancelled)"
proof -
  obtain n where "int n \<le> max 0 timeout div (25 * Millisecond) + 1" "\<forall>k < n. waits_on v (since + timeout) k"
      "\<not> waits_on v (since + timeout) n" "WaitReady v since timeout = Some (verdict v (since + timeout) n)"
    by (rule WaitReady_round [OF assms])
  then show ?thesis by (intro exI [of _ n]) (auto simp: waits_on_def verdict_def)
qed

theorem WaitReady_returns_witness:
  "WaitReady (rounds site_machine) 0 (40 * Millisecond) = Some TimedOut"
proof -
  have a: "activePath (seen (rounds site_machine k)) = None" "\<not> cancelled (rounds site_machine k)" for k
    by (simp_all add: site_machine_def NewClient_def activePath_def)
  from WaitReady_returns [OF site_paced(1), of 0 "40 * Millisecond"] site_paced(2) a
  show ?thesis by (auto simp: site_machine_def)
qed

text \<open>
  C27. The client process, from an accepted configuration with readable keys and sockets that
  open: the engine starts, its loops are spawned, and after the wait for a path, whatever that
  says, the requests of the interface's plan are made in order. At the first one refused the
  process exits with that error; when all are granted WireGuard is brought up, and only then the
  dashboard if one is configured; on a signal the engine is closed before WireGuard. So WireGuard
  never comes up over an interface without its address and routes, and the process never hangs.
\<close>

theorem client_lifecycle:
  assumes "command_line m ''treccia-client'' client_flags args = Inr path"
    and "LoadClient (client_yaml m) (files m path) = Inr cfg" "entropy m 12 = Some r"
    and "NewWG (create_tun m) (ipc_set m) (cTunnel cfg) True = Inr x" "\<forall>p s j. dial_ok (path_env m p s) j"
    and "paced (rounds m)" "wait_from m \<le> clock (rounds m 0)"
    and "LinkByName (netlinks m) (device_name m (cTunnel cfg)) = Some i" "NlParseAddr (netlinks m) (Address (cTunnel cfg)) = Some a"
  defines "plan \<equiv> netdev_plan i a (Routes (cTunnel cfg))"
  shows "\<exists>e w n. start_client (blake m) (client_yaml m) (files m path) (entropy m 12) (create_tun m) (ipc_set m) (path_env m) = Inr e \<and>
    WaitReady (rounds m) (wait_from m) (10 * Second) = Some w \<and> stops_at (netlinks m) plan n \<and>
    treccia_client m args = Some
      (if n < length plan then Failed (ExitNetdev (refusal (Routes (cTunnel cfg)) n)) else if wg_up m then ShutDown else Failed ExitUp,
       map Spawn (Run ModeClient e) @ [Waited w] @ map Netdev (take n plan) @
       (if n = length plan \<and> wg_up m then [WgUp] @ serve_until_signal (cDashboard cfg) else []))"
proof -
  obtain e where e: "start_client (blake m) (client_yaml m) (files m path) (entropy m 12) (create_tun m) (ipc_set m) (path_env m) = Inr e"
    using client_starts [OF assms(2-5)] by blast
  obtain k where "WaitReady (rounds m) (wait_from m) (10 * Second) = Some (verdict (rounds m) (wait_from m + 10 * Second) k)"
    by (rule WaitReady_round [OF assms(6,7)])
  then obtain w where w: "WaitReady (rounds m) (wait_from m) (10 * Second) = Some w" ..
  obtain n where n: "stops_at (netlinks m) plan n"
      "setup_device m (cTunnel cfg) = (if n < length plan then Some (refusal (Routes (cTunnel cfg)) n) else None, take n plan)"
    using setup_device_plan [OF loaded_client(1) [OF assms(2)] assms(8,9)] unfolding plan_def by blast
  have "n = length plan" if "\<not> n < length plan" using n(1) that by (simp add: stops_at_def)
  then show ?thesis
    using e w n assms(1,2) by (intro exI [of _ e] exI [of _ w] exI [of _ n]) (auto simp: treccia_client_def finish_client_def)
qed

theorem client_lifecycle_witness:
  "\<exists>acts. treccia_client site_machine [''-config'', ''c.yaml'', ''--verbose=f''] = Some (ShutDown, acts) \<and> WgUp \<in> set acts"
proof -
  obtain c where c: "LoadClient (\<lambda>_. Some site_client) (Some []) = Inr c"
      "PrivateKey (cTunnel c) = KeyString (replicate 32 1)" "PeerPublicKey (cTunnel c) = KeyString (replicate 32 2)"
    using site_loads(1) by blast
  then have "Routes (cTunnel c) = []"
    by (auto simp: LoadClient_def load_def check_client_Inr client_fill_def site_client_def sample_tunnel_def applyDefaults_def split: option.splits)
  moreover have "\<exists>x. NewWG (create_tun site_machine) (ipc_set site_machine) (cTunnel c) True = Inr x"
    using c by (simp add: NewWG_def site_machine_def sample_keys)
  ultimately show ?thesis
    using client_lifecycle [OF site_command_line(1) _ _ _ _ site_paced, of c "replicate 12 0" _ 3 "Address (cTunnel c)"] c(1) site_granted
    by (fastforce simp: site_machine_def some_env_def)
qed

text \<open>
  The server process, from an accepted configuration with readable keys: the interface's plan
  is made in order, then the socket is opened and the loops are spawned, then WireGuard is brought
  up; each failure ends the process there, with its own error.
\<close>

theorem server_lifecycle:
  assumes "command_line m ''treccia-server'' server_flags args = Inr path"
    and "LoadServer (server_yaml m) (files m path) = Inr cfg"
    and "NewWG (create_tun m) (ipc_set m) (sTunnel cfg) False = Inr x"
    and "LinkByName (netlinks m) (device_name m (sTunnel cfg)) = Some i" "NlParseAddr (netlinks m) (Address (sTunnel cfg)) = Some a"
  defines "plan \<equiv> netdev_plan i a (Routes (sTunnel cfg))"
  shows "\<exists>sv n. start_server (blake m) (server_yaml m) (files m path) (create_tun m) (ipc_set m) = Inr sv \<and> stops_at (netlinks m) plan n \<and>
    (let l = Lifecycle.Listen (resolve_udp m) (listen_udp m) (ServerConfig.Listen cfg) sv;
         up = (n = length plan \<and> \<not> isl l)
     in treccia_server m args =
      (if n < length plan then Failed (ExitNetdev (refusal (Routes (sTunnel cfg)) n))
       else if isl l then Failed (ExitListen (projl l)) else if wg_up m then ShutDown else Failed ExitUp,
       map Netdev (take n plan) @ (if up then map Spawn (projr l) else []) @
       (if up \<and> wg_up m then [WgUp] @ serve_until_signal (sDashboard cfg) else [])))"
proof -
  obtain sv where sv: "start_server (blake m) (server_yaml m) (files m path) (create_tun m) (ipc_set m) = Inr sv"
    using server_starts [OF assms(2,3)] by blast
  obtain n where n: "stops_at (netlinks m) plan n"
      "setup_device m (sTunnel cfg) = (if n < length plan then Some (refusal (Routes (sTunnel cfg)) n) else None, take n plan)"
    using setup_device_plan [OF loaded_server(1) [OF assms(2)] assms(4,5)] unfolding plan_def by blast
  have "n = length plan" if "\<not> n < length plan" using n(1) that by (simp add: stops_at_def)
  then show ?thesis
    using sv n assms(1,2) by (intro exI [of _ sv] exI [of _ n]) (auto simp: treccia_server_def finish_server_def Let_def split: sum.split)
qed

theorem server_lifecycle_witness:
  "\<exists>acts. treccia_server site_machine [] = (ShutDown, acts) \<and> Spawn ServerRxLoop \<in> set acts"
proof -
  obtain c where c: "LoadServer (\<lambda>_. Some site_server) (Some []) = Inr c"
      "PrivateKey (sTunnel c) = KeyString (replicate 32 1)" "PeerPublicKey (sTunnel c) = KeyString (replicate 32 2)"
    using site_loads(2) by blast
  then have "Routes (sTunnel c) = []"
    by (auto simp: LoadServer_def load_def check_server_Inr server_fill_def site_server_def sample_tunnel_def applyDefaults_def split: option.splits)
  moreover have "\<exists>x. NewWG (create_tun site_machine) (ipc_set site_machine) (sTunnel c) False = Inr x"
    using c by (simp add: NewWG_def site_machine_def sample_keys)
  ultimately show ?thesis
    using server_lifecycle [OF site_command_line(2), of c _ 3 "Address (sTunnel c)"] c(1) site_granted
    by (fastforce simp: site_machine_def Lifecycle.Listen_def Let_def)
qed

end
