(* ===== verification/FecLink.thy ===== *)
theory FecLink
  imports Tunnel
begin

text \<open>
  Forward error correction across a link, for both directions at once: what a sender promises
  when it sends a ciphertext with FEC on (\<open>fec_sender\<close>), what a receiver promises when a datagram of
  a group arrives (\<open>fec_receiver\<close>), and what the two give together (\<open>fec_link\<close>): any \<open>k\<close> of the
  \<open>k + m\<close> datagrams of a group bring all its packets, in order. Client and server are senders and
  receivers (\<open>Repair\<close>).
\<close>

section \<open>The datagrams of a group\<close>

text \<open>A bulk DATA header stamped with its group and index.\<close>

definition tagged_bulk :: "u32 \<Rightarrow> u32 \<Rightarrow> byte \<Rightarrow> DataHeader \<Rightarrow> bool" where
  "tagged_bulk sid gid i h \<longleftrightarrow> Wire.Session h = sid \<and> Type (DHeader h) = TypeData \<and> Flags (DHeader h) = FlagFECInfo \<and>
     FECGroup h = gid \<and> gid AND mask 24 = gid \<and> FECIndex h = i"

lemma tagged_bulk_facts:
  assumes "tagged_bulk sid gid i h"
  shows "data_carried h ct" "DataLen h = 24" "Class (DHeader h) = 0" "Flags (DHeader h) AND 2 \<noteq> 0"
  using assms by (simp_all add: tagged_bulk_def data_carried_def DataLen_def Class_def)

lemma tagged_dgram_parse:
  assumes "tagged_bulk sid gid x h" "length p \<le> 2024"
  shows "take 2048 (data_layout h @ p) = data_layout h @ p" "ParseHeader (data_layout h @ p) = Some (Inr (DHeader h))"
    "ParseDataHeader (data_layout h @ p) = Some (Inr (h, p))"
    "Bytes \<lparr>Slab = Some (l, fill_slab old (data_layout h @ p)), Off = DataLen h, Len = length p\<rparr> = Some p"
proof -
  note f = tagged_bulk_facts [OF assms(1)]
  show "take 2048 (data_layout h @ p) = data_layout h @ p" using assms(2) by (simp add: f(2))
  show "ParseHeader (data_layout h @ p) = Some (Inr (DHeader h))"
    using assms(1) by (simp add: tagged_bulk_def data_layout_def header_layout_parse)
  show "ParseDataHeader (data_layout h @ p) = Some (Inr (h, p))" by (rule data_framing.parse_layout [OF f(1)])
  show "Bytes \<lparr>Slab = Some (l, fill_slab old (data_layout h @ p)), Off = DataLen h, Len = length p\<rparr> = Some p"
    using assms(2) f(2) by (simp add: Bytes_def fill_slab_def slice_ok)
qed

text \<open>
  The packets of a group, as the encoder saw them, and its datagrams by shard number: \<open>k\<close> DATA
  datagrams, then the parity.
\<close>

definition stream_of :: "u32 \<Rightarrow> (nat \<Rightarrow> bytes) \<Rightarrow> (nat \<Rightarrow> timestamp) \<Rightarrow> nat \<Rightarrow> (packet \<times> timestamp) list" where
  "stream_of seq ct tm n = map (\<lambda>i. ((seq + of_nat i, ct i), tm i)) [0..<n]"

lemma length_stream_of [simp]: "length (stream_of seq ct tm n) = n"
  by (simp add: stream_of_def)

lemma stream_of_Cons: "stream_of seq ct tm (Suc n) = ((seq, ct 0), tm 0) # stream_of (seq + 1) (\<lambda>i. ct (Suc i)) (\<lambda>i. tm (Suc i)) n"
  by (simp add: stream_of_def upt_conv_Cons add.assoc map_Suc_upt [symmetric] comp_def del: upt_Suc)

lemma stream_of_snoc: "stream_of seq ct tm (Suc n) = stream_of seq ct tm n @ [((seq + of_nat n, ct n), tm n)]"
  by (simp add: stream_of_def)

definition data_dgram :: "u32 \<Rightarrow> u32 \<Rightarrow> u32 \<Rightarrow> (nat \<Rightarrow> bytes) \<Rightarrow> nat \<Rightarrow> bytes \<Rightarrow> bool" where
  "data_dgram sid gid seq ct j d \<longleftrightarrow> (\<exists>h. d = data_layout h @ ct j \<and> tagged_bulk sid gid (of_nat j) h \<and> GlobalSeq h = seq + of_nat j)"

definition parity_dgram :: "u32 \<Rightarrow> parity \<Rightarrow> bytes \<Rightarrow> bool" where
  "parity_dgram sid p d \<longleftrightarrow> (\<exists>f. d = fec_layout f @ p_shard p \<and> fec_carried f (p_shard p) \<and> FSession f = sid \<and>
     FGroup f = p_group p \<and> FIndex f = p_index p \<and> FK f = p_k p \<and> FM f = p_m p \<and> length (p_shard p) \<le> 2032)"

definition group_wire :: "u32 \<Rightarrow> u32 \<Rightarrow> u32 \<Rightarrow> (nat \<Rightarrow> bytes) \<Rightarrow> nat \<Rightarrow> parity list \<Rightarrow> (nat \<Rightarrow> bytes) \<Rightarrow> bool" where
  "group_wire sid gid seq ct k pars dg \<longleftrightarrow> (\<forall>j < k. data_dgram sid gid seq ct j (dg j) \<and> length (ct j) \<le> 2024) \<and>
     (\<forall>i < length pars. parity_dgram sid (pars ! i) (dg (k + i)))"

lemma fec_dgram_parse:
  assumes "fec_carried f shard" "length shard \<le> 2032"
  shows "take 2048 (fec_layout f @ shard) = fec_layout f @ shard" "ParseHeader (fec_layout f @ shard) = Some (Inr (FHeader f))"
    "ParseFEC (fec_layout f @ shard) = Some (Inr (f, shard))" "Type (FHeader f) = 4"
proof -
  show ty: "Type (FHeader f) = 4" using assms(1) by (simp add: fec_carried_def)
  then show "ParseHeader (fec_layout f @ shard) = Some (Inr (FHeader f))" by (simp add: fec_layout_def header_layout_parse)
  show "ParseFEC (fec_layout f @ shard) = Some (Inr (f, shard))" by (rule fec_framing.parse_layout [OF assms(1)])
qed (use assms(2) in simp)

text \<open>The offsets a datagram of the group brings by itself.\<close>

definition own :: "nat \<Rightarrow> nat \<Rightarrow> nat list" where
  "own k j = (if j < k then [j] else [])"

lemma concat_own: "concat (map (own k) js) = filter (\<lambda>j. j < k) js"
  by (induction js) (auto simp: own_def)

text \<open>
  The parity goes out ahead of the datagram that completes the group: where shard \<open>j\<close> is among
  what was sent, and back.
\<close>

definition wire_pos :: "nat \<Rightarrow> nat \<Rightarrow> nat \<Rightarrow> nat" where
  "wire_pos k m j = (if Suc j < k then j else if Suc j = k then k + m - 1 else j - 1)"

definition shard_no :: "nat \<Rightarrow> nat \<Rightarrow> nat \<Rightarrow> nat" where
  "shard_no k m p = (if Suc p < k then p else if Suc p = k + m then k - 1 else Suc p)"

lemma wire_pos_shard_no:
  assumes "0 < k" "0 < m" "p < k + m"
  shows "wire_pos k m (shard_no k m p) = p" "shard_no k m p < k + m"
  using assms by (auto simp: wire_pos_def shard_no_def)

section \<open>Receivers\<close>

text \<open>
  A receiver in the middle of a stream, with its decoder: a DATA datagram brings its own offset
  and those its decoder hands over, a parity datagram the latter.
\<close>

locale fec_receiver =
  fixes lb :: lib
    and step :: "'x \<Rightarrow> 's \<Rightarrow> 's option"
    and dgram :: "'x \<Rightarrow> bytes"
    and arrival :: "'x \<Rightarrow> timestamp"
    and fits :: "'x \<Rightarrow> bool"
    and streaming :: "u32 \<Rightarrow> u32 \<Rightarrow> (nat \<Rightarrow> bytes) \<Rightarrow> Inbound list \<Rightarrow> decoder \<Rightarrow> nat set \<Rightarrow> 's \<Rightarrow> bool"
  assumes takes_data: "tagged_bulk sid gid x h \<Longrightarrow> GlobalSeq h = seq + of_nat j \<Longrightarrow> length (ct j) \<le> 2024 \<Longrightarrow>
      dgram y = data_layout h @ ct j \<Longrightarrow> fits y \<Longrightarrow> streaming sid seq ct q dc P s \<Longrightarrow> P \<subseteq> {..<n} \<Longrightarrow> length q + n \<le> 1024 \<Longrightarrow>
      AddData (group_ord lb) (rs_rec lb) gid x (seq + of_nat j) (ct j) (arrival y) dc = (dc', map (\<lambda>i. (seq + of_nat i, ct i)) os) \<Longrightarrow>
      distinct (j # os) \<Longrightarrow> set (j # os) \<inter> P = {} \<Longrightarrow> \<forall>i \<in> set (j # os). i < n \<and> length (ct i) \<le> 2048 \<Longrightarrow>
      \<exists>s'. step y s = Some s' \<and> streaming sid seq ct q dc' (set (j # os) \<union> P) s'"
    and takes_parity: "fec_carried f shard \<Longrightarrow> FSession f = sid \<Longrightarrow> length shard \<le> 2032 \<Longrightarrow>
      dgram y = fec_layout f @ shard \<Longrightarrow> fits y \<Longrightarrow> streaming sid seq ct q dc P s \<Longrightarrow> P \<subseteq> {..<n} \<Longrightarrow> length q + n \<le> 1024 \<Longrightarrow>
      AddParity (group_ord lb) (rs_rec lb) (FGroup f) (FIndex f) (FK f) (FM f) shard (arrival y) dc =
        (dc', map (\<lambda>i. (seq + of_nat i, ct i)) os) \<Longrightarrow>
      distinct os \<Longrightarrow> set os \<inter> P = {} \<Longrightarrow> \<forall>i \<in> set os. i < n \<and> length (ct i) \<le> 2048 \<Longrightarrow>
      \<exists>s'. step y s = Some s' \<and> streaming sid seq ct q dc' (set os \<union> P) s'"
begin

lemma takes_shard:
  assumes w: "group_wire sid gid seq ct k pars dg" and j: "j < k + length pars" and y: "dgram y = dg j" "fits y"
    and s: "streaming sid seq ct q dc P s" and P: "P \<subseteq> {..<k}" "length q + k \<le> 1024"
    and rcv: "receive (group_ord lb) (rs_rec lb) (stream_of seq ct tm k) (map (\<lambda>i. Some (gid, of_nat i)) [0..<k]) pars (j, arrival y) dc =
      (dc', map (\<lambda>i. (seq + of_nat i, ct i)) os)"
    and new: "distinct (own k j @ os)" "set (own k j @ os) \<inter> P = {}" "set os \<subseteq> {..<k}"
  shows "\<exists>s'. step y s = Some s' \<and> streaming sid seq ct q dc' (set (own k j @ os) \<union> P) s'"
proof -
  have small: "\<forall>i \<in> set os. i < k \<and> length (ct i) \<le> 2048"
    using new(3) w by (fastforce simp: group_wire_def)
  show ?thesis
  proof (cases "j < k")
    case True
    then obtain h where h: "dg j = data_layout h @ ct j" "tagged_bulk sid gid (of_nat j) h" "GlobalSeq h = seq + of_nat j" "length (ct j) \<le> 2024"
      using w by (auto simp: group_wire_def data_dgram_def)
    have "AddData (group_ord lb) (rs_rec lb) gid (of_nat j) (seq + of_nat j) (ct j) (arrival y) dc = (dc', map (\<lambda>i. (seq + of_nat i, ct i)) os)"
      using rcv True by (simp add: receive_def) (simp add: stream_of_def)
    from takes_data [OF h(2-4) _ y(2) s P this] show ?thesis
      using new small True h(1,4) y(1) by (simp add: own_def)
  next
    case False
    then have "parity_dgram sid (pars ! (j - k)) (dg j)"
      using w j by (metis group_wire_def le_add_diff_inverse less_diff_conv2 not_less add.commute)
    then obtain f where f: "dg j = fec_layout f @ p_shard (pars ! (j - k))" "fec_carried f (p_shard (pars ! (j - k)))" "FSession f = sid"
        "FGroup f = p_group (pars ! (j - k))" "FIndex f = p_index (pars ! (j - k))" "FK f = p_k (pars ! (j - k))"
        "FM f = p_m (pars ! (j - k))" "length (p_shard (pars ! (j - k))) \<le> 2032"
      unfolding parity_dgram_def by blast
    have "AddParity (group_ord lb) (rs_rec lb) (FGroup f) (FIndex f) (FK f) (FM f) (p_shard (pars ! (j - k))) (arrival y) dc =
        (dc', map (\<lambda>i. (seq + of_nat i, ct i)) os)"
      using rcv False by (simp add: receive_def f Let_def)
    from takes_parity [OF f(2,3,8) _ y(2) s P this] show ?thesis
      using new small False f(1) y(1) by (simp add: own_def)
  qed
qed

lemma feed_group:
  assumes w: "group_wire sid gid seq ct k pars dg" and room: "length q + k \<le> 1024"
    and y: "\<And>j. j < k + length pars \<Longrightarrow> dgram (y j) = dg j \<and> fits (y j)"
    and "streaming sid seq ct q dc P s" "P \<subseteq> {..<k}"
    and "receive_run (group_ord lb) (rs_rec lb) (stream_of seq ct tm k) (map (\<lambda>i. Some (gid, of_nat i)) [0..<k]) pars
        (map (\<lambda>j. (j, arrival (y j))) js) dc = (dc', map (\<lambda>i. (seq + of_nat i, ct i)) os)"
    and "distinct (concat (map (own k) js) @ os)" "set (concat (map (own k) js) @ os) \<inter> P = {}" "set os \<subseteq> {..<k}"
    and "set js \<subseteq> {..<k + length pars}"
  shows "\<exists>s'. feed step (map y js) s = Some s' \<and> streaming sid seq ct q dc' (set (concat (map (own k) js) @ os) \<union> P) s'"
  using assms(4-)
proof (induction js arbitrary: s dc P os)
  case Nil
  then show ?case by simp
next
  case (Cons j js)
  let ?v = "\<lambda>i. (seq + of_nat i, ct i)"
  obtain d1 r1 where r: "receive (group_ord lb) (rs_rec lb) (stream_of seq ct tm k) (map (\<lambda>i. Some (gid, of_nat i)) [0..<k]) pars
      (j, arrival (y j)) dc = (d1, r1)" by fastforce
  obtain r2 where rs: "receive_run (group_ord lb) (rs_rec lb) (stream_of seq ct tm k) (map (\<lambda>i. Some (gid, of_nat i)) [0..<k]) pars
      (map (\<lambda>j. (j, arrival (y j))) js) d1 = (dc', r2)" "r1 @ r2 = map ?v os"
    using Cons.prems(3) by (auto simp: r Let_def split: prod.splits)
  obtain o1 o2 where o: "os = o1 @ o2" "r1 = map ?v o1" "r2 = map ?v o2"
    using rs(2) unfolding append_eq_map_conv by blast
  have "distinct (own k j @ o1)" "set (own k j @ o1) \<inter> P = {}" "set o1 \<subseteq> {..<k}" and j: "j < k + length pars"
    using Cons.prems by (auto simp: o(1))
  then obtain s1 where 1: "step (y j) s = Some s1" "streaming sid seq ct q d1 (set (own k j @ o1) \<union> P) s1"
    using takes_shard [OF w j _ _ Cons.prems(1,2) room r [unfolded o(2)]] y [OF j] by blast
  have P1: "set (own k j @ o1) \<union> P \<subseteq> {..<k}"
    using Cons.prems(2,6) by (auto simp: own_def o(1))
  have "distinct (concat (map (own k) js) @ o2)" "set (concat (map (own k) js) @ o2) \<inter> (set (own k j @ o1) \<union> P) = {}"
      "set o2 \<subseteq> {..<k}" "set js \<subseteq> {..<k + length pars}"
    using Cons.prems(4-7) by (auto simp: o(1))
  from Cons.IH [OF 1(2) P1 rs(1) [unfolded o(3)] this] show ?case
    using 1(1) by (auto simp: o(1) Un_ac)
qed

text \<open>Any \<open>k\<close> datagrams of a group, in any order, bring the whole stream of its packets.\<close>

lemma group_arrives:
  assumes code: "erasure_code (rs_enc lb) (rs_rec lb) k m" "0 < k" "0 < m" "k + m < 128" "eshards e0 = []" "params e0 = \<lparr>K = k, M = m\<rparr>"
    and run: "add_run (rs_enc lb) (stream_of seq ct tm k) e0 = (e, tags, pars)"
    and w: "group_wire sid (gid_of e0) seq ct k pars dg" and y: "\<And>j. j < k + m \<Longrightarrow> dgram (y j) = dg j \<and> fits (y j)"
    and s: "streaming sid seq ct q dc {} s" "idle k dc" "length q + k \<le> 1024"
    and js: "distinct js" "set js \<subseteq> {..<k + m}" "length js = k"
  shows "\<exists>s' dc'. feed step (map y js) s = Some s' \<and> streaming sid seq ct q dc' {..<k} s'"
proof -
  let ?ps = "stream_of seq ct tm k" and ?xs = "map (\<lambda>j. (j, arrival (y j))) js"
  have len: "length ?ps = k" by simp
  have "length (ct i) < 2 ^ 16" if "i < k" for i
    using w that by (fastforce simp: group_wire_def)
  then have small: "\<forall>((seq, ct), t) \<in> set ?ps. length ct < 2 ^ 16" by (auto simp: stream_of_def)
  obtain par where "sent_group (gid_of e0) k m (shard_len ?ps) ?ps par tags pars"
    using group_sent [OF code len run] by (elim exE conjE) (rule that)
  then have tags: "tags = map (\<lambda>i. Some (gid_of e0, of_nat i)) [0..<k]" and pl: "length pars = m"
    by (simp_all add: sent_group_def)
  have xs: "map fst ?xs = js" by (simp add: comp_def)
  let ?os = "filter (\<lambda>i. i \<notin> set js) [0..<k]"
  have "lost ?ps js = map (\<lambda>i. (seq + of_nat i, ct i)) ?os"
    unfolding lost_def len by (simp add: stream_of_def)
  moreover obtain d where "receive_run (group_ord lb) (rs_rec lb) ?ps tags pars ?xs dc = (d, lost ?ps js)"
    using group_filled [OF code len small run s(2), of ?xs "group_ord lb"] js xs by auto
  ultimately have r: "receive_run (group_ord lb) (rs_rec lb) ?ps (map (\<lambda>i. Some (gid_of e0, of_nat i)) [0..<k]) pars ?xs dc =
      (d, map (\<lambda>i. (seq + of_nat i, ct i)) ?os)" by (simp only: tags)
  have "distinct (concat (map (own k) js) @ ?os)" "set ?os \<subseteq> {..<k}" "set js \<subseteq> {..<k + length pars}"
    using js by (auto simp: concat_own pl)
  then obtain s' where "feed step (map y js) s = Some s'" "streaming sid seq ct q d (set (concat (map (own k) js) @ ?os) \<union> {}) s'"
    using feed_group [OF w s(3) _ s(1) _ r] y pl by auto
  moreover have "set (concat (map (own k) js) @ ?os) \<union> {} = {..<k}"
    by (auto simp: concat_own)
  ultimately show ?thesis by auto
qed

end

section \<open>Senders\<close>

lemma last_of_group:
  assumes e0: "eshards e0 = []" "params e0 = \<lparr>K = Suc n, M = m\<rparr>"
    and run: "add_run enc (stream_of seq ct tm (Suc n)) e0 = (e, map (\<lambda>i. Some (gid_of e0, of_nat i)) [0..<Suc n], pars)"
  shows "\<exists>e1. add_run enc (stream_of seq ct tm n) e0 = (e1, map (\<lambda>i. Some (gid_of e0, of_nat i)) [0..<n], []) \<and>
    Add enc (seq + of_nat n) (ct n) (tm n) e1 = (e, Some (gid_of e0, of_nat n), pars)"
proof -
  obtain e1 where e1: "add_run enc (stream_of seq ct tm n) e0 = (e1, map (\<lambda>i. Some (gid_of e0, of_nat i)) [0..<n], [])"
    using add_run_open [OF e0(1), of "stream_of seq ct tm n" enc] e0(2) by (auto simp: gid_of_def)
  obtain f tg qs where add: "Add enc (seq + of_nat n) (ct n) (tm n) e1 = (f, tg, qs)" by (metis prod_cases3)
  have "(e, map (\<lambda>i. Some (gid_of e0, of_nat i)) [0..<Suc n], pars) =
      (f, map (\<lambda>i. Some (gid_of e0, of_nat i)) [0..<n] @ [tg], qs)"
    using run by (simp add: stream_of_snoc add_run_snoc e1 add)
  with add e1 show ?thesis by simp
qed

lemma group_wire_sent:
  assumes k: "k = Suc (length ds)" "length pars = m" and small: "\<And>j. j < k \<Longrightarrow> length (ct j) \<le> 2024"
    and data: "\<And>j. j < length ds \<Longrightarrow> data_dgram sid gid seq ct j (payload_of (ds ! j))" "data_dgram sid gid seq ct (length ds) (payload_of t)"
    and par: "list_all2 (\<lambda>p t. parity_dgram sid p (payload_of t)) pars ts"
  shows "group_wire sid gid seq ct k pars (\<lambda>j. payload_of ((ds @ ts @ [t]) ! wire_pos k m j))"
proof -
  have ts: "length ts = m" using list_all2_lengthD [OF par] k(2) by simp
  have "data_dgram sid gid seq ct j (payload_of ((ds @ ts @ [t]) ! wire_pos k m j))" if "j < k" for j
    using data that k(1) ts by (cases "j = length ds") (simp_all add: wire_pos_def nth_append)
  moreover have "parity_dgram sid (pars ! i) (payload_of ((ds @ ts @ [t]) ! wire_pos k m (k + i)))" if "i < m" for i
    using that k ts list_all2_nthD [OF par, of i] by (simp add: wire_pos_def nth_append)
  ultimately show ?thesis
    using small k(2) by (simp only: group_wire_def) simp
qed

lemma feed_append: "feed f (xs @ ys) s = Option.bind (feed f xs s) (feed f ys)"
  by (induction f xs s rule: feed.induct) (auto split: bind_split)

definition small_parity :: "parity list \<Rightarrow> bool" where
  "small_parity qs \<longleftrightarrow> (\<forall>p \<in> set qs. length (p_shard p) \<le> 2032 \<and> p_group p AND mask 24 = p_group p)"

text \<open>
  A sender with FEC on, ready with encoder \<open>enc\<close> and last number \<open>seq\<close>: a ciphertext leaves as a
  stamped DATA datagram under the next number, after the parity that its group is complete with.
\<close>

locale fec_sender =
  fixes lb :: lib
    and send :: "'y \<Rightarrow> 't \<Rightarrow> 't option"
    and cipher :: "'y \<Rightarrow> bytes"
    and sent_at :: "'y \<Rightarrow> timestamp"
    and fine :: "'y \<Rightarrow> bool"
    and ready :: "u32 \<Rightarrow> encoder \<Rightarrow> u32 \<Rightarrow> 't \<Rightarrow> bool"
    and sent_by :: "'t \<Rightarrow> net_out list"
  assumes fine_small: "fine y \<Longrightarrow> length (cipher y) \<le> 2024"
    and sends_tagged: "ready sid enc seq s \<Longrightarrow> fine y \<Longrightarrow> Add (rs_enc lb) (seq + 1) (cipher y) (sent_at y) enc = (enc', Some (gid, x), qs) \<Longrightarrow>
      gid AND mask 24 = gid \<Longrightarrow> small_parity qs \<Longrightarrow>
      \<exists>s' ts t h. send y s = Some s' \<and> ready sid enc' (seq + 1) s' \<and> sent_by s' = sent_by s @ ts @ [t] \<and>
        list_all2 (\<lambda>p t. parity_dgram sid p (payload_of t)) qs ts \<and>
        payload_of t = data_layout h @ cipher y \<and> tagged_bulk sid gid x h \<and> GlobalSeq h = seq + 1"
begin

text \<open>While the group is open, a batch leaves as DATA datagrams only.\<close>

lemma sends_open:
  assumes "ready sid enc seq s" "list_all fine ys" "gid AND mask 24 = gid"
    and "add_run (rs_enc lb) (stream_of (seq + 1) (\<lambda>i. cipher (ys ! i)) (\<lambda>i. sent_at (ys ! i)) (length ys)) enc = (enc', tags, [])"
    and "\<forall>t \<in> set tags. \<exists>x. t = Some (gid, x)"
  shows "\<exists>s' ds. feed send ys s = Some s' \<and> ready sid enc' (seq + of_nat (length ys)) s' \<and> sent_by s' = sent_by s @ ds \<and>
    length ds = length ys \<and> (\<forall>j < length ys. \<exists>h x. tags ! j = Some (gid, x) \<and> payload_of (ds ! j) = data_layout h @ cipher (ys ! j) \<and>
       tagged_bulk sid gid x h \<and> GlobalSeq h = seq + 1 + of_nat j)"
  using assms
proof (induction ys arbitrary: s enc seq tags)
  case (Cons y ys)
  obtain en1 tg qs where a: "Add (rs_enc lb) (seq + 1) (cipher y) (sent_at y) enc = (en1, tg, qs)" by (metis prod_cases3)
  obtain tags' where r: "qs = []" "tags = tg # tags'"
      "add_run (rs_enc lb) (stream_of (seq + 1 + 1) (\<lambda>i. cipher (ys ! i)) (\<lambda>i. sent_at (ys ! i)) (length ys)) en1 = (enc', tags', [])"
    using Cons.prems(4) by (auto simp: stream_of_Cons a Let_def split: prod.splits)
  obtain x where x: "tg = Some (gid, x)" using Cons.prems(5) r(2) by auto
  have y: "fine y" "list_all fine ys" "\<forall>t \<in> set tags'. \<exists>x. t = Some (gid, x)" "small_parity qs"
    using Cons.prems(2,5) r(1,2) by (simp_all add: small_parity_def)
  obtain s1 ts t h where 1: "send y s = Some s1" "ready sid en1 (seq + 1) s1" "sent_by s1 = sent_by s @ ts @ [t]"
      "list_all2 (\<lambda>p t. parity_dgram sid p (payload_of t)) qs ts" "payload_of t = data_layout h @ cipher y"
      "tagged_bulk sid gid x h" "GlobalSeq h = seq + 1"
    using sends_tagged [OF Cons.prems(1) y(1) a [unfolded x] Cons.prems(3) y(4)] by blast
  have ts: "ts = []" using 1(4) r(1) by simp
  obtain s2 ds where 2: "feed send ys s1 = Some s2" "ready sid enc' (seq + 1 + of_nat (length ys)) s2" "sent_by s2 = sent_by s1 @ ds"
      "length ds = length ys" "\<forall>j < length ys. \<exists>h x. tags' ! j = Some (gid, x) \<and> payload_of (ds ! j) = data_layout h @ cipher (ys ! j) \<and>
         tagged_bulk sid gid x h \<and> GlobalSeq h = seq + 1 + 1 + of_nat j"
    using Cons.IH [OF 1(2) y(2) Cons.prems(3) r(3) y(3)] by blast
  have "\<exists>h' x. tags ! j = Some (gid, x) \<and> payload_of ((t # ds) ! j) = data_layout h' @ cipher ((y # ys) ! j) \<and>
      tagged_bulk sid gid x h' \<and> GlobalSeq h' = seq + 1 + of_nat j" if "j < Suc (length ys)" for j
  proof (cases j)
    case 0
    with 1(5-7) x show ?thesis by (auto simp: r(2))
  next
    case (Suc i)
    with 2(5) that show ?thesis by (fastforce simp: r(2) add.assoc)
  qed
  then show ?case
    using 1(1,3) 2(1-4) ts by (intro exI [of _ s2] exI [of _ "t # ds"]) (simp add: add.assoc)
qed (auto simp: stream_of_def)

lemma sends_group:
  assumes code: "erasure_code (rs_enc lb) rec k m" and km: "0 < k" "0 < m" "k + m < 128"
    and e0: "eshards e0 = []" "params e0 = \<lparr>K = k, M = m\<rparr>"
    and s: "ready sid e0 seq s" and ys: "length ys = k" "list_all fine ys"
    and run: "add_run (rs_enc lb) (stream_of (seq + 1) (\<lambda>i. cipher (ys ! i)) (\<lambda>i. sent_at (ys ! i)) k) e0 = (e1, tags, pars)"
  shows "\<exists>s' ds. feed send ys s = Some s' \<and> sent_by s' = sent_by s @ ds \<and> length ds = k + m \<and>
    group_wire sid (gid_of e0) (seq + 1) (\<lambda>i. cipher (ys ! i)) k pars (\<lambda>j. payload_of (ds ! wire_pos k m j))"
proof -
  let ?gid = "gid_of e0" and ?ct = "\<lambda>i. cipher (ys ! i)" and ?tm = "\<lambda>i. sent_at (ys ! i)"
  have gid: "?gid AND mask 24 = ?gid" by (simp add: gid_of_def and.assoc mask_numeral)
  have small: "length (?ct i) \<le> 2024" if "i < k" for i
    using ys that fine_small by (auto simp: list_all_length)
  obtain par where sent: "sent_group ?gid k m (shard_len (stream_of (seq + 1) ?ct ?tm k)) (stream_of (seq + 1) ?ct ?tm k) par tags pars"
    using group_sent [OF code km e0 _ run] by auto
  have "shard_len (stream_of (seq + 1) ?ct ?tm k) \<le> 6 + 2024"
    using small by (intro shard_len_le) (auto simp: stream_of_def)
  then have qs: "small_parity pars" using sent gid by (auto simp: small_parity_def sent_group_def)
  have tags: "tags = map (\<lambda>i. Some (?gid, of_nat i)) [0..<k]" "length pars = m"
    using sent by (simp_all add: sent_group_def)
  obtain n where k: "k = Suc n" using km(1) by (cases k) auto
  obtain zs y where ys': "ys = zs @ [y]" "length zs = n" using ys(1) k by (cases ys rule: rev_cases) auto
  have "stream_of (seq + 1) ?ct ?tm n = stream_of (seq + 1) (\<lambda>i. cipher (zs ! i)) (\<lambda>i. sent_at (zs ! i)) (length zs)"
    using ys' by (simp add: stream_of_def nth_append)
  then obtain ee where ee: "add_run (rs_enc lb) (stream_of (seq + 1) (\<lambda>i. cipher (zs ! i)) (\<lambda>i. sent_at (zs ! i)) (length zs)) e0 =
        (ee, map (\<lambda>i. Some (?gid, of_nat i)) [0..<n], [])"
      "Add (rs_enc lb) (seq + of_nat n + 1) (cipher y) (sent_at y) ee = (e1, Some (?gid, of_nat n), pars)"
    using last_of_group [OF e0 [unfolded k] run [unfolded k tags(1)]] ys' by (auto simp: nth_append ac_simps)
  have f: "list_all fine zs" "fine y" using ys(2) ys'(1) by simp_all
  obtain s2 ds where 1: "feed send zs s = Some s2" "ready sid ee (seq + of_nat n) s2" "sent_by s2 = sent_by s @ ds" "length ds = n"
      "\<forall>j < n. \<exists>h x. map (\<lambda>i. Some (?gid, of_nat i)) [0..<n] ! j = Some (?gid, x) \<and>
        payload_of (ds ! j) = data_layout h @ cipher (zs ! j) \<and> tagged_bulk sid ?gid x h \<and> GlobalSeq h = seq + 1 + of_nat j"
    using sends_open [OF s f(1) gid ee(1)] ys'(2) by auto
  obtain s3 ts t h where 2: "send y s2 = Some s3" "sent_by s3 = sent_by s2 @ ts @ [t]"
      "list_all2 (\<lambda>p t. parity_dgram sid p (payload_of t)) pars ts" "payload_of t = data_layout h @ cipher y"
      "tagged_bulk sid ?gid (of_nat n) h" "GlobalSeq h = seq + of_nat n + 1"
    using sends_tagged [OF 1(2) f(2) ee(2) gid qs] by blast
  let ?ds = "ds @ ts @ [t]"
  have "group_wire sid ?gid (seq + 1) ?ct k pars (\<lambda>j. payload_of (?ds ! wire_pos k m j))"
    using 1(4,5) 2(3-6) k tags(2) small ys'
    by (intro group_wire_sent) (auto simp: data_dgram_def nth_append ac_simps)
  moreover have "feed send ys s = Some s3" "sent_by s3 = sent_by s @ ?ds" "length ?ds = k + m"
    using 1(1,3,4) 2(1,2) list_all2_lengthD [OF 2(3)] tags(2) k by (simp_all add: ys'(1) feed_append)
  ultimately show ?thesis by blast
qed

end

section \<open>Links\<close>

text \<open>A sender, a receiver, and a network that loses and reorders: \<open>deliver\<close> makes a datagram an arrival.\<close>

locale fec_link = fec_sender lb send cipher sent_at fine ready sent_by + fec_receiver lb step dgram arrival fits streaming
  for lb :: lib
    and send :: "'y \<Rightarrow> 't \<Rightarrow> 't option"
    and cipher :: "'y \<Rightarrow> bytes"
    and sent_at :: "'y \<Rightarrow> timestamp"
    and fine :: "'y \<Rightarrow> bool"
    and ready :: "u32 \<Rightarrow> encoder \<Rightarrow> u32 \<Rightarrow> 't \<Rightarrow> bool"
    and sent_by :: "'t \<Rightarrow> net_out list"
    and step :: "'x \<Rightarrow> 's \<Rightarrow> 's option"
    and dgram :: "'x \<Rightarrow> bytes"
    and arrival :: "'x \<Rightarrow> timestamp"
    and fits :: "'x \<Rightarrow> bool"
    and streaming :: "u32 \<Rightarrow> u32 \<Rightarrow> (nat \<Rightarrow> bytes) \<Rightarrow> Inbound list \<Rightarrow> decoder \<Rightarrow> nat set \<Rightarrow> 's \<Rightarrow> bool"
begin

lemma carries_group:
  assumes code: "erasure_code (rs_enc lb) (rs_rec lb) k m" "0 < k" "0 < m" "k + m < 128" "eshards e0 = []" "params e0 = \<lparr>K = k, M = m\<rparr>"
    and sender: "ready sid e0 seq s" "length ys = k" "list_all fine ys"
    and receiver: "streaming sid (seq + 1) (\<lambda>i. cipher (ys ! i)) q dc {} r" "idle k dc" "length q + k \<le> 1024"
    and js: "distinct js" "set js \<subseteq> {..<k + m}" "length js = k"
    and deliver: "\<And>j d. dgram (deliver j d) = d \<and> fits (deliver j d)"
  shows "\<exists>s' ds r' dc'. feed send ys s = Some s' \<and> sent_by s' = sent_by s @ ds \<and> length ds = k + m \<and>
    feed step (map (\<lambda>j. deliver j (payload_of (ds ! j))) js) r = Some r' \<and> streaming sid (seq + 1) (\<lambda>i. cipher (ys ! i)) q dc' {..<k} r'"
proof -
  obtain e1 tags pars where run: "add_run (rs_enc lb) (stream_of (seq + 1) (\<lambda>i. cipher (ys ! i)) (\<lambda>i. sent_at (ys ! i)) k) e0 = (e1, tags, pars)"
    by (metis prod_cases3)
  obtain s' ds where c: "feed send ys s = Some s'" "sent_by s' = sent_by s @ ds" "length ds = k + m"
      "group_wire sid (gid_of e0) (seq + 1) (\<lambda>i. cipher (ys ! i)) k pars (\<lambda>j. payload_of (ds ! wire_pos k m j))"
    using sends_group [OF code sender run] by blast
  have pos: "wire_pos k m (shard_no k m j) = j" "shard_no k m j < k + m" if "j \<in> set js" for j
    using that js(2) wire_pos_shard_no [OF code(2,3), of j] by auto
  let ?js = "map (shard_no k m) js" and ?y = "\<lambda>j. deliver (wire_pos k m j) (payload_of (ds ! wire_pos k m j))"
  have "inj_on (shard_no k m) (set js)" by (rule inj_on_inverseI [of _ "wire_pos k m"]) (rule pos(1))
  then have js': "distinct ?js" "set ?js \<subseteq> {..<k + m}" "length ?js = k"
    using js pos(2) by (auto simp: distinct_map)
  have y: "map ?y ?js = map (\<lambda>j. deliver j (payload_of (ds ! j))) js" using pos(1) by simp
  obtain r' dc' where "feed step (map ?y ?js) r = Some r'" "streaming sid (seq + 1) (\<lambda>i. cipher (ys ! i)) q dc' {..<k} r'"
    using group_arrives [OF code run c(4) _ receiver js', of ?y] deliver by blast
  with c(1-3) show ?thesis unfolding y by blast
qed

end

end
