(* ===== verification/Downlink.thy ===== *)
theory Downlink
  imports Tunnel
begin

text \<open>
  The way back: the server sends to a session, the client takes the datagrams from whichever of
  its sockets they reach. The client is a receiver in the sense of \<open>receiver\<close>, as the server is
  in the other direction.
\<close>

section \<open>The client takes a stream\<close>

fun client_feed :: "lib \<Rightarrow> (env \<times> (nat \<Rightarrow> env) \<times> nat \<times> bytes) list \<Rightarrow> Engine \<Rightarrow> Engine option" where
  "client_feed lb [] e = Some e"
| "client_feed lb ((en, ens, i, d) # xs) e = Option.bind (clientRx lb en ens i (Some d) e) (client_feed lb xs)"

lemma client_feed_feed: "client_feed lb xs e = feed (\<lambda>(en, ens, i, d). clientRx lb en ens i (Some d)) xs e"
  by (induction lb xs e rule: client_feed.induct) (auto split: bind_split)

definition client_streams :: "nat \<Rightarrow> u32 \<Rightarrow> u32 \<Rightarrow> (nat \<Rightarrow> bytes) \<Rightarrow> Inbound list \<Rightarrow> nat set \<Rightarrow> Engine \<Rightarrow> bool" where
  "client_streams n sid seq ct q P e \<longleftrightarrow> session e = sid \<and> length (paths e) = n \<and> (\<forall>i < n. conn (paths e ! i)) \<and>
     stream_in sid seq ct q P (reorderBuf e) (bind e)"

definition client_begun :: "u32 \<Rightarrow> Engine \<Rightarrow> bool" where
  "client_begun sid e \<longleftrightarrow> started (reorderBuf e)"

definition accepted :: "env \<Rightarrow> nat \<Rightarrow> DataHeader \<Rightarrow> nat \<Rightarrow> Engine \<Rightarrow> Engine" where
  "accepted en i d n e = bump (\<lambda>s. s\<lparr>RxPackets := RxPackets s + 1, RxBytesC := RxBytesC s + of_nat n\<rparr>)
     (upd_path i (\<lambda>p. p\<lparr>lastRxNano := now en, pRx := OnData (PathSeq d) (int n) (ucast (us en) - TxTS d) (now en) (pRx p)\<rparr>) e)"

lemma accepted_frame [simp]:
  "bind (accepted en i d n e) = bind e" "reorderBuf (accepted en i d n e) = reorderBuf e" "session (accepted en i d n e) = session e"
  "length (paths (accepted en i d n e)) = length (paths e)"
  by (simp_all add: accepted_def bump_def upd_path_def)

lemma accepted_conn [simp]: "conn (paths (accepted en i d n e) ! k) = conn (paths e ! k)"
  by (cases "i < length (paths e)"; cases "k = i") (simp_all add: accepted_def bump_def upd_path_def list_update_beyond)

lemma client_takes_plain:
  assumes s: "client_streams np sid seq ct q P e" "P \<subseteq> {..<n}" "length q + n \<le> 1024"
    and j: "j < n" "j \<notin> P" "client_begun sid e \<or> j = 0" and i: "i < np" and d: "plain_dgram sid seq ct j d"
  shows "\<exists>e'. clientRx lb en ens i (Some d) e = Some e' \<and> client_streams np sid seq ct q (insert j P) e' \<and> client_begun sid e'"
proof -
  obtain h where h: "plain_bulk sid h" "GlobalSeq h = seq + of_nat j" "take 2048 d = d" "ParseHeader d = Some (Inr (DHeader h))"
      "ParseDataHeader d = Some (Inr (h, ct j))"
      "\<And>l old. Bytes \<lparr>Slab = Some (l, fill_slab old d), Off = DataLen h, Len = length (ct j)\<rparr> = Some (ct j)"
    using plain_dgram_parse [OF d] by blast
  note f = plain_bulk_facts [OF h(1)]
  have sid: "Wire.Session h = sid" "Type (DHeader h) = TypeData" "session e = sid" "conn (paths e ! i)"
    using h(1) s(1) i by (simp_all add: plain_bulk_def client_streams_def)
  let ?e = "accepted en i h (min SlabSize (length d)) (e\<lparr>next_loan := Suc (next_loan e)\<rparr>)"
  let ?pkt = "\<lparr>Slab = Some (next_loan e, fill_slab (dirty en) d), Off = DataLen h, Len = length (ct j)\<rparr>"
  have "clientRx lb en ens i (Some d) e = client_data lb en i (next_loan e) (fill_slab (dirty en) d) (min SlabSize (length d)) d
      (e\<lparr>next_loan := Suc (next_loan e)\<rparr>)"
    using slice_fill_slab [of "dirty en" d] h(3,4) sid(2,4) by (simp add: clientRx_def take_slab_def handleClientDatagram_def del: SlabSize_def)
  also have "\<dots> = push_up (now en) (seq + of_nat j) ?pkt ?e"
    using f(3,4) h(2) sid by (simp add: client_data_def h(5) accepted_def Let_def split: option.split)
  finally have r: "clientRx lb en ens i (Some d) e = \<dots>" .
  obtain b os where p: "Push (now en) (seq + of_nat j) ?pkt (reorderBuf e) = (b, os)" by fastforce
  let ?e1 = "?e\<lparr>reorderBuf := b\<rparr>"
  have "stream_in sid seq ct q P (reorderBuf e) (bind ?e1)" "started (reorderBuf e) \<or> j = 0"
    using s(1) j(3) by (simp_all add: client_streams_def client_begun_def)
  from stream_push [OF this(1) s(2,3) j(1,2) this(2) h(6) p] obtain bd where bd: "run_outs sid os ?e1 = Some (?e1\<lparr>bind := bd\<rparr>)"
      "stream_in sid seq ct q (insert j P) b bd" "started b"
    by blast
  then have "clientRx lb en ens i (Some d) e = Some (?e1\<lparr>bind := bd\<rparr>)"
    unfolding r using p sid(3) by (simp add: push_up_def)
  then show ?thesis
    using bd(2,3) s(1) by (intro exI [of _ "?e1\<lparr>bind := bd\<rparr>"]) (simp add: client_streams_def client_begun_def)
qed

interpretation down: receiver "\<lambda>(en, ens, i, d). clientRx lb en ens i (Some d)"
    "\<lambda>sid seq ct j (en, ens, i, d). i < np \<and> plain_dgram sid seq ct j d" "client_streams np" client_begun for lb np
  by unfold_locales (auto intro: client_takes_plain)

section \<open>The server sends a stream\<close>

text \<open>A session that gets plain bulk: no classifier, no FEC, no path dropping early.\<close>

definition sess_ready :: "u32 \<Rightarrow> Session \<Rightarrow> Server \<Rightarrow> bool" where
  "sess_ready sid s sv \<longleftrightarrow> classifier sv = None \<and> lookupSession sid sv = Some s \<and> SID s = sid \<and> sFecEnc s = None \<and>
     (\<forall>i ps. path_of i s = Some ps \<longrightarrow> DropProb (sLink ps) \<le> 0)"

text \<open>A datagram that finds a path of the session alive and the socket willing.\<close>

definition sendable_down :: "Session \<Rightarrow> bytes \<times> senv \<Rightarrow> bool" where
  "sendable_down s = (\<lambda>(ct, en). transport ct \<and> (\<forall>a d. net_to en a d) \<and> alivePaths en 0 (now en) s \<noteq> [])"

lemma sendable_down_cong: "spaths s' = spaths s \<Longrightarrow> sendable_down s' = sendable_down s"
  by (simp add: sendable_down_def alivePaths_def path_of_def)

lemma alive_path: "i \<in> set (alivePaths en k t s) \<Longrightarrow> path_of i s = Some (ps_at s i)"
  by (auto simp: alivePaths_def Let_def ps_at_def split: option.splits)

lemma serverSendData_plain:
  assumes s: "lookupSession sid sv = Some s" "SID s = sid" and net: "\<And>a d. net_to en a d" and ct: "transport ct"
  shows "\<exists>sv' h a. serverSendData en sid i ClassBulk False seq clock noTag ct sv = Some sv' \<and> classifier sv' = classifier sv \<and>
    (\<exists>f. lookupSession sid sv' = Some (s\<lparr>sPathSeq := f\<rparr>)) \<and>
    sent sv' = sent sv @ [TxTo a (data_layout h @ ct)] \<and> plain_bulk sid h \<and> GlobalSeq h = seq"
proof -
  let ?h = "sess_header s (ps_at s i) ClassBulk False seq (ucast clock) noTag"
  have h: "plain_bulk sid ?h" "GlobalSeq ?h = seq"
    using s(2) by (simp_all add: plain_bulk_def sess_header_def ClassFlags_def noTag_def)
  note l = plain_bulk_facts(2) [OF h(1)]
  have put: "PutDataHeader (Get (dirty en)) ?h = Some (data_layout ?h @ drop (DataLen ?h) (Get (dirty en)), DataLen ?h)"
    using l by (intro PutDataHeader_layout) simp
  have r: "\<exists>sv'. serverSendData en sid i ClassBulk False seq clock noTag ct sv = Some sv' \<and> classifier sv' = classifier sv \<and>
      (\<exists>f. lookupSession sid sv' = Some (s\<lparr>sPathSeq := f\<rparr>)) \<and> sent sv' = sent sv @ [TxTo (addr (ps_at s i)) (data_layout ?h @ ct)]"
    using s ct put l net
    by (simp add: serverSendData_def take_slab_def Let_def transport_def write_to_def)
       (simp add: give_back_def sent_ok_def bump_def upd_session_def lookupSession_def map_of_map_entry, blast)
  with h show ?thesis by blast
qed

lemma server_sends_bulk:
  assumes s: "sess_ready sid s sv" "sendable_down s (ct, en)"
  shows "\<exists>sv' s' a h. server_send_one lb en ct sid sv = Some sv' \<and> sess_ready sid s' sv' \<and> spaths s' = spaths s \<and>
    sGlobalSeq s' = sGlobalSeq s + 1 \<and> sent sv' = sent sv @ [TxTo a (data_layout h @ ct)] \<and> plain_bulk sid h \<and> GlobalSeq h = sGlobalSeq s + 1"
proof -
  have c: "classifyCt ct sv = Some (sv, ClassBulk)"
    using s by (auto simp: classifyCt_def sess_ready_def sendable_down_def transport_def idx_def)
  have s0: "lookupSession sid sv = Some s" "SID s = sid" "sFecEnc s = None" using s(1) by (simp_all add: sess_ready_def)
  let ?alive = "alivePaths en 0 (now en) s"
  let ?live = "filter (\<lambda>i. up (sLink (ps_at s i))) ?alive"
  let ?usable = "if ?live = [] then ?alive else ?live"
  have u: "?usable \<noteq> []" "set ?usable \<subseteq> set ?alive" using s(2) by (auto simp: sendable_down_def)
  obtain m i where w: "sess_weighted ?usable s = Some (m, i)" "i \<in> set ?usable" using sess_weighted_ok [OF u(1)] by blast
  have "path_of i s = Some (ps_at s i)" using w(2) u(2) alive_path by blast
  then have drop: "\<not> DropProb (sLink (ps_at s i)) > 0" using s(1) by (auto simp: sess_ready_def not_less)
  let ?sv = "upd_session sid (\<lambda>s'. s'\<lparr>sGlobalSeq := sGlobalSeq s + 1\<rparr>) (upd_session sid (\<lambda>s. s\<lparr>sWsched := m\<rparr>) sv)"
  let ?s = "s\<lparr>sWsched := m, sGlobalSeq := sGlobalSeq s + 1\<rparr>"
  have s1: "lookupSession sid ?sv = Some ?s" using s0(1) by (simp add: lookup_upd_session)
  have r: "server_send_one lb en ct sid sv = serverSendData en sid i ClassBulk False (sGlobalSeq s + 1) (us en) noTag ct ?sv"
    using u(1) w(1) drop s0 by (simp add: server_send_one_def c sess_bulk_def Let_def split del: if_split)
  obtain sv' h a f where 1: "server_send_one lb en ct sid sv = Some sv'" "classifier sv' = classifier ?sv"
      "lookupSession sid sv' = Some (?s\<lparr>sPathSeq := f\<rparr>)" "sent sv' = sent ?sv @ [TxTo a (data_layout h @ ct)]"
      "plain_bulk sid h" "GlobalSeq h = sGlobalSeq s + 1"
    using serverSendData_plain [OF s1, of en ct i "sGlobalSeq s + 1" "us en"] s(2) s0(2) unfolding r sendable_down_def by auto
  have "sess_ready sid (?s\<lparr>sPathSeq := f\<rparr>) sv'"
    using s(1) 1(2,3) by (simp add: sess_ready_def upd_session_def path_of_def)
  with 1 show ?thesis
    by (intro exI [of _ sv'] exI [of _ "?s\<lparr>sPathSeq := f\<rparr>"] exI [of _ a] exI [of _ h]) (simp add: upd_session_def)
qed

lemma server_sends_stream:
  assumes "sess_ready sid s sv" "list_all (sendable_down s) bufs"
  shows "\<exists>sv' ds. server_batch lb bufs sid sv = Some sv' \<and> sent sv' = sent sv @ ds \<and> length ds = length bufs \<and>
    (\<forall>j < length bufs. plain_dgram sid (sGlobalSeq s + 1) (\<lambda>j. fst (bufs ! j)) j (payload_of (ds ! j)))"
  using assms
proof (induction bufs arbitrary: sv s)
  case (Cons x bufs)
  obtain ct en where x: "x = (ct, en)" by (cases x)
  obtain sv1 s1 a h where 1: "server_send_one lb en ct sid sv = Some sv1" "sess_ready sid s1 sv1" "spaths s1 = spaths s"
      "sGlobalSeq s1 = sGlobalSeq s + 1" "sent sv1 = sent sv @ [TxTo a (data_layout h @ ct)]" "plain_bulk sid h" "GlobalSeq h = sGlobalSeq s + 1"
    using server_sends_bulk [OF Cons.prems(1), of ct en lb] Cons.prems(2) x by auto
  have "list_all (sendable_down s1) bufs" using Cons.prems(2) sendable_down_cong [OF 1(3)] by simp
  then obtain sv2 ds where 2: "server_batch lb bufs sid sv1 = Some sv2" "sent sv2 = sent sv1 @ ds" "length ds = length bufs"
      "\<forall>j < length bufs. plain_dgram sid (sGlobalSeq s + 1 + 1) (\<lambda>j. fst (bufs ! j)) j (payload_of (ds ! j))"
    using Cons.IH [OF 1(2)] 1(4) by auto
  have "plain_dgram sid (sGlobalSeq s + 1) (\<lambda>j. fst (((ct, en) # bufs) ! j)) j (payload_of ((TxTo a (data_layout h @ ct) # ds) ! j))"
    if "j < Suc (length bufs)" for j
    using that Cons.prems(2) 1(6,7) by (intro plain_dgram_list [OF _ _ 2(4)]) (simp_all add: x sendable_down_def transport_def)
  then show ?case
    using 1(1,5) 2(1-3) by (intro exI [of _ sv2] exI [of _ "TxTo a (data_layout h @ ct) # ds"]) (simp add: x)
qed auto

section \<open>From the server to the client\<close>

lemma stream_returned:
  assumes server: "sess_ready (session e) s sv" "list_all (sendable_down s) bufs"
    and client: "\<forall>i < length (paths e). conn (paths e ! i)" "reorder_inv (reorderBuf e)" "occupied (reorderBuf e) = 0"
      "started (reorderBuf e) \<and> nextExpected (reorderBuf e) = sGlobalSeq s + 1 \<or> \<not> started (reorderBuf e) \<and> js \<noteq> [] \<and> hd js = 0"
    and room: "open_queue (bind e) = Some q" "length q + length bufs \<le> 1024"
    and arrival: "mset js = mset [0..<length bufs]" "\<forall>j. via j < length (paths e)"
  shows "\<exists>sv' ds e' q'. serverSend lb bufs (session e) sv = Some sv' \<and> sent sv' = sent sv @ ds \<and> length ds = length bufs \<and>
    client_feed lb (map (\<lambda>j. (en j, ens j, via j, payload_of (ds ! j))) js) e = Some e' \<and> open_queue (bind e') = Some (q @ q') \<and>
    map (\<lambda>x. (Ep x, Bytes (Pkt x))) q' = map (\<lambda>(ct, _). (session e, Some ct)) bufs"
proof -
  let ?ct = "\<lambda>j. fst (bufs ! j)" and ?np = "length (paths e)"
  obtain sv' ds where c: "server_batch lb bufs (session e) sv = Some sv'" "sent sv' = sent sv @ ds" "length ds = length bufs"
      "\<And>j. j < length bufs \<Longrightarrow> plain_dgram (session e) (sGlobalSeq s + 1) ?ct j (payload_of (ds ! j))"
    using server_sends_stream [OF server, of lb] by auto
  have "stream_in (session e) (sGlobalSeq s + 1) ?ct q {} (reorderBuf e) (bind e)"
    using client room(1) by (intro stream_start) auto
  then have "client_streams ?np (session e) (sGlobalSeq s + 1) ?ct q {} e" using client(1) by (simp add: client_streams_def)
  moreover have "client_begun (session e) e \<or> js \<noteq> [] \<and> hd js = 0" using client(4) by (auto simp: client_begun_def)
  ultimately obtain e' where e': "client_feed lb (map (\<lambda>j. (en j, ens j, via j, payload_of (ds ! j))) js) e = Some e'"
      "client_streams ?np (session e) (sGlobalSeq s + 1) ?ct q {..<length bufs} e'"
    using down.delivers [OF _ room(2) arrival(1), of _ _ _ _ e "\<lambda>j. (en j, ens j, via j, payload_of (ds ! j))"] c(4) arrival(2)
    unfolding client_feed_feed by blast
  then obtain q' where "open_queue (bind e') = Some (q @ q')"
      "map (\<lambda>x. (Ep x, Bytes (Pkt x))) q' = map (\<lambda>j. (session e, Some (?ct j))) [0..<length bufs]"
    using stream_done by (fastforce simp: client_streams_def)
  moreover have "map (\<lambda>j. (session e, Some (?ct j))) [0..<length bufs] = map (\<lambda>(ct, _). (session e, Some ct)) bufs"
    by (rule nth_equalityI) (simp_all add: split_beta)
  moreover have "serverSend lb bufs (session e) sv = Some sv'"
    using c(1) server(1) by (simp add: serverSend_def sess_ready_def)
  ultimately show ?thesis using c(2,3) e'(1) by auto
qed

section \<open>A session with a path, and its client\<close>

definition path_session :: Session where
  "path_session = touchPath 0 (NoAddr, 9) (1000 * Second) (new_session 7 9 (NewServer (NewMAC []) None True off))"

definition path_server :: Server where
  "path_server = one_session_server\<lparr>sessions := [(7, path_session)]\<rparr>"

definition open_client :: Engine where
  "open_client = one_path_client\<lparr>bind := fst (Open NewEngineBind)\<rparr>"

lemma path_server_facts:
  "sess_ready (session open_client) path_session path_server" "alivePaths some_senv 0 (now some_senv) path_session \<noteq> []" "sent path_server = []"
  using one_path_client_facts(2)
  by (auto simp: sess_ready_def open_client_def path_server_def path_session_def one_session_server_def touchPath_def path_of_def lookupSession_def
      new_session_def NewServer_def NewClient_def Engine.Engine.extend_def DropProb_def NewLink_def alivePaths_def some_senv_def
      env.extend_def pathStaleAfter_def i64_def time_units)

lemma open_client_facts:
  "\<forall>i < length (paths open_client). conn (paths open_client ! i)" "reorder_inv (reorderBuf open_client)" "occupied (reorderBuf open_client) = 0"
  "\<not> started (reorderBuf open_client)" "open_queue (bind open_client) = Some []" "length (paths open_client) = 1"
  using New_inv [where 'a = Packet]
  by (simp_all add: open_client_def one_path_client_def NewClient_def open_queue_def Open_def NewEngineBind_def) (simp_all add: Reorder.New_def)

end
