(* ===== verification/Repair.thy ===== *)
theory Repair
  imports FecLink Downlink
begin

text \<open>
  Forward error correction across both ends, in both directions: one end stamps and completes a
  group, the network loses part of it, the other end's decoder fills the holes and its reorder
  buffer hands WireGuard the whole group in order. Client and server are senders and receivers
  in the sense of \<open>FecLink\<close>.
\<close>

section \<open>The server receives\<close>

text \<open>As \<open>sess_streams\<close>, of a session that has started and whose decoder is \<open>dc\<close>.\<close>

definition streaming :: "u32 \<Rightarrow> u32 \<Rightarrow> (nat \<Rightarrow> bytes) \<Rightarrow> Inbound list \<Rightarrow> decoder \<Rightarrow> nat set \<Rightarrow> Server \<Rightarrow> bool" where
  "streaming sid seq ct q dc P sv \<longleftrightarrow> (\<exists>s. lookupSession sid sv = Some s \<and> sFecDec s = Some dc \<and> started (sReorder s) \<and>
     stream_in sid seq ct q P (sReorder s) (bind sv))"

lemma streaming_cong:
  assumes "streaming sid seq ct q dc P sv" "lookupSession sid sv = Some s" "lookupSession sid sv' = Some s'"
    and "sReorder s' = sReorder s" "sFecDec s' = Some dc'" "bind sv' = bind sv"
  shows "streaming sid seq ct q dc' P sv'"
  using assms unfolding streaming_def by auto

lemma streaming_start:
  assumes "lookupSession sid sv = Some s" "sFecDec s = Some dc" "reorder_inv (sReorder s)" "started (sReorder s)"
    and "occupied (sReorder s) = 0" "nextExpected (sReorder s) = seq" "open_queue (bind sv) = Some q"
  shows "streaming sid seq ct q dc {} sv"
  using assms stream_start [of "sReorder s" seq "bind sv" q sid ct] by (simp add: streaming_def)

lemma streaming_done:
  assumes "streaming sid seq ct q dc {..<n} sv"
  shows "\<exists>q'. open_queue (bind sv) = Some (q @ q') \<and> map (\<lambda>x. (Ep x, Bytes (Pkt x))) q' = map (\<lambda>j. (sid, Some (ct j))) [0..<n]"
  using assms stream_done unfolding streaming_def by blast

lemma sess_push_streaming:
  assumes s: "streaming sid seq ct q dc P sv" and P: "P \<subseteq> {..<n}" "length q + n \<le> 1024"
    and j: "j < n" "j \<notin> P" and pkt: "Bytes pkt = Some (ct j)"
  shows "\<exists>sv'. sess_push t sid (seq + of_nat j) pkt sv = Some sv' \<and> streaming sid seq ct q dc (insert j P) sv'"
proof -
  obtain s where s: "lookupSession sid sv = Some s" "sFecDec s = Some dc" "started (sReorder s)"
      "stream_in sid seq ct q P (sReorder s) (bind sv)"
    using s unfolding streaming_def by blast
  obtain sv' b where "sess_push t sid (seq + of_nat j) pkt sv = Some sv'" "lookupSession sid sv' = Some (s\<lparr>sReorder := b\<rparr>)"
      "stream_in sid seq ct q (insert j P) b (bind sv')" "started b"
    using sess_push_streams [where ct = ct and j = j and pkt = pkt, OF s(1,4) P j _ pkt] s(3) by blast
  with s(2) show ?thesis by (intro exI [of _ sv']) (simp add: streaming_def)
qed

lemma streaming_frame [simp]:
  "streaming sid seq ct q dc P (sv\<lparr>next_loan := l\<rparr>) = streaming sid seq ct q dc P sv"
  "streaming sid seq ct q dc P (bump f sv) = streaming sid seq ct q dc P sv"
  "streaming sid seq ct q dc P (give_back ls sv) = streaming sid seq ct q dc P sv"
  by (simp_all add: streaming_def lookupSession_def bump_def give_back_def)

lemma slab_bytes: "length ct \<le> 2048 \<Longrightarrow> Bytes \<lparr>Slab = Some (l, fill_slab old ct), Off = 0, Len = min SlabSize (length ct)\<rparr> = Some ct"
  by (simp add: Bytes_def fill_slab_def slice_ok)

lemma sess_recovered_streaming:
  assumes "streaming sid seq ct q dc P sv" "P \<subseteq> {..<n}" "length q + n \<le> 1024"
    and "distinct os" "set os \<inter> P = {}" "\<forall>i \<in> set os. i < n \<and> length (ct i) \<le> 2048"
  shows "\<exists>sv'. sess_recovered en sid (map (\<lambda>i. (seq + of_nat i, ct i)) os) sv = Some sv' \<and>
    streaming sid seq ct q dc (set os \<union> P) sv'"
  using assms
proof (induction os arbitrary: sv P)
  case (Cons i os)
  let ?sv = "sv\<lparr>next_loan := Suc (next_loan sv)\<rparr>"
  let ?pkt = "\<lparr>Slab = Some (next_loan sv, fill_slab (dirty en) (ct i)), Off = 0, Len = min SlabSize (length (ct i))\<rparr>"
  have i: "i < n" "i \<notin> P" "Bytes ?pkt = Some (ct i)"
    using Cons.prems(5,6) slab_bytes by auto
  have "streaming sid seq ct q dc P ?sv" using Cons.prems(1) by simp
  then obtain sv1 where 1: "sess_push (now en) sid (seq + of_nat i) ?pkt ?sv = Some sv1" "streaming sid seq ct q dc (insert i P) sv1"
    using sess_push_streaming [where ct = ct and j = i and pkt = ?pkt, OF _ Cons.prems(2,3) i] by blast
  have "insert i P \<subseteq> {..<n}" "distinct os" "set os \<inter> insert i P = {}" "\<forall>i \<in> set os. i < n \<and> length (ct i) \<le> 2048"
    using Cons.prems i(1) by auto
  from Cons.IH [OF 1(2) this(1) Cons.prems(3) this(2-4)] show ?case
    using 1(1) by (simp add: take_slab_def Let_def)
qed simp

lemma server_takes_data:
  assumes h: "tagged_bulk sid gid x h" "GlobalSeq h = seq + of_nat j" "length (ct j) \<le> 2024"
    and s: "streaming sid seq ct q dc P sv" and P: "P \<subseteq> {..<n}" "length q + n \<le> 1024"
    and add: "AddData (group_ord lb) (rs_rec lb) gid x (seq + of_nat j) (ct j) (now en) dc = (dc', map (\<lambda>i. (seq + of_nat i, ct i)) os)"
    and new: "distinct (j # os)" "set (j # os) \<inter> P = {}" "\<forall>i \<in> set (j # os). i < n \<and> length (ct i) \<le> 2048"
  shows "\<exists>sv'. serverRx lb en (Some (data_layout h @ ct j, a)) sv = Some sv' \<and> streaming sid seq ct q dc' (set (j # os) \<union> P) sv'"
proof -
  let ?d = "data_layout h @ ct j" and ?sv = "sv\<lparr>next_loan := Suc (next_loan sv)\<rparr>"
  note f = tagged_bulk_facts [OF h(1)]
  have sid: "Wire.Session h = sid" "Type (DHeader h) = 0" "FECGroup h = gid" "FECIndex h = x"
    using h(1) by (simp_all add: tagged_bulk_def)
  have t: "take 2048 ?d = ?d" using h(3) by (simp add: f(2))
  have pd: "ParseDataHeader ?d = Some (Inr (h, ct j))" by (rule data_framing.parse_layout [OF f(1)])
  have "ParseHeader (take 2048 ?d) = Some (Inr (DHeader h))"
    unfolding t using sid(2) by (simp add: data_layout_def header_layout_parse)
  then obtain k where r: "serverRx lb en (Some (?d, a)) sv =
      server_data lb en (next_loan sv) (fill_slab (dirty en) ?d) k ?d a ?sv"
    using serverRx_control(2) [of ?d "DHeader h" lb en a sv] sid(2) t by simp
  obtain s where s0: "lookupSession sid sv = Some s" "sFecDec s = Some dc"
    using s unfolding streaming_def by blast
  let ?sv1 = "upd_session sid (\<lambda>s. s\<lparr>sFecDec := Some dc'\<rparr>) (accept_data en h k a ?sv)"
  let ?pkt = "\<lparr>Slab = Some (next_loan sv, fill_slab (dirty en) ?d), Off = DataLen h, Len = length (ct j)\<rparr>"
  have "serverRx lb en (Some (?d, a)) sv = Option.bind (sess_recovered en sid (map (\<lambda>i. (seq + of_nat i, ct i)) os) ?sv1)
      (sess_push (now en) sid (seq + of_nat j) ?pkt)"
    unfolding r using f(3,4) s0 add by (simp add: server_data_known [OF pd, of ?sv s] sid h(2) Let_def)
  moreover obtain s1 where "lookupSession sid ?sv1 = Some s1" "sReorder s1 = sReorder s" "sFecDec s1 = Some dc'"
    using s0 by (simp add: accept_data_def lookup_upd_session sid upd_ps_def touchPath_def Let_def)
  then have "streaming sid seq ct q dc' P ?sv1"
    using streaming_cong [OF s s0(1), of ?sv1 s1 dc'] by simp
  then obtain sv2 where "sess_recovered en sid (map (\<lambda>i. (seq + of_nat i, ct i)) os) ?sv1 = Some sv2"
      "streaming sid seq ct q dc' (set os \<union> P) sv2"
    using sess_recovered_streaming [OF _ P, of sid seq ct dc' ?sv1 os en] new by auto
  moreover have "Bytes ?pkt = Some (ct j)"
    using h(3) f(2) by (simp add: Bytes_def fill_slab_def slice_ok)
  ultimately show ?thesis
    using sess_push_streaming [of sid seq ct q dc' "set os \<union> P" sv2 n j ?pkt "now en"] P new by auto
qed

lemma server_takes_parity:
  assumes f: "fec_carried f shard" "FSession f = sid" "length shard \<le> 2032"
    and s: "streaming sid seq ct q dc P sv" and P: "P \<subseteq> {..<n}" "length q + n \<le> 1024"
    and add: "AddParity (group_ord lb) (rs_rec lb) (FGroup f) (FIndex f) (FK f) (FM f) shard (now en) dc = (dc', map (\<lambda>i. (seq + of_nat i, ct i)) os)"
    and new: "distinct os" "set os \<inter> P = {}" "\<forall>i \<in> set os. i < n \<and> length (ct i) \<le> 2048"
  shows "\<exists>sv'. serverRx lb en (Some (fec_layout f @ shard, a)) sv = Some sv' \<and> streaming sid seq ct q dc' (set os \<union> P) sv'"
proof -
  let ?d = "fec_layout f @ shard" and ?sv = "sv\<lparr>next_loan := Suc (next_loan sv)\<rparr>"
  have ty: "Type (FHeader f) = 4" using f(1) by (simp add: fec_carried_def)
  have t: "take 2048 ?d = ?d" using f(3) by simp
  have pf: "ParseFEC ?d = Some (Inr (f, shard))" by (rule fec_framing.parse_layout [OF f(1)])
  have "ParseHeader ?d = Some (Inr (FHeader f))"
    using ty by (simp add: fec_layout_def header_layout_parse)
  then have r: "serverRx lb en (Some (?d, a)) sv =
      map_option (give_back [next_loan sv]) (server_fec lb en (min SlabSize (length ?d)) ?d ?sv)"
    using slice_fill_slab [of "dirty en" ?d] ty t
    by (simp add: serverRx_def take_slab_def handleServerDatagram_def map_conv_bind_option comp_def del: SlabSize_def)
  obtain s where s0: "lookupSession sid sv = Some s" "sFecDec s = Some dc"
    using s unfolding streaming_def by blast
  let ?sv1 = "upd_session sid (\<lambda>s. s\<lparr>sFecDec := Some dc'\<rparr>)
    (bump (\<lambda>s. s\<lparr>RxPackets := RxPackets s + 1, RxBytesC := RxBytesC s + of_nat (min SlabSize (length ?d))\<rparr>) ?sv)"
  have "server_fec lb en (min SlabSize (length ?d)) ?d ?sv = sess_recovered en sid (map (\<lambda>i. (seq + of_nat i, ct i)) os) ?sv1"
    using s0 add f(2) by (simp add: server_fec_def pf Let_def lookupSession_def)
  moreover obtain s1 where "lookupSession sid ?sv1 = Some s1" "sReorder s1 = sReorder s" "sFecDec s1 = Some dc'"
    using s0 by (simp add: lookup_upd_session)
  then have "streaming sid seq ct q dc' P ?sv1"
    using streaming_cong [OF s s0(1), of ?sv1 s1 dc'] by (simp add: bump_def)
  then obtain sv2 where "sess_recovered en sid (map (\<lambda>i. (seq + of_nat i, ct i)) os) ?sv1 = Some sv2"
      "streaming sid seq ct q dc' (set os \<union> P) sv2"
    using sess_recovered_streaming [OF _ P, of sid seq ct dc' ?sv1 os en] new by auto
  ultimately show ?thesis unfolding r by simp
qed

interpretation server_rx: fec_receiver lb "\<lambda>(en, a, d). serverRx lb en (Some (d, a))" "\<lambda>(en, a, d). d" "\<lambda>(en, a, d). now en" "\<lambda>_. True" streaming
  for lb
  by unfold_locales (auto dest!: server_takes_data server_takes_parity)

section \<open>The client sends\<close>

lemma clientEmitParity_clear:
  assumes e: "clear_to_send e" and net: "\<And>i d. net en i d" and p: "length (p_shard p) \<le> 2032" "p_group p AND mask 24 = p_group p"
  shows "\<exists>e' i d. clientEmitParity en p e = Some e' \<and> clear_to_send e' \<and> session e' = session e \<and> globalSeq e' = globalSeq e \<and>
    fecEnc e' = fecEnc e \<and> paths e' = paths e \<and> sent e' = sent e @ [Tx i d] \<and> parity_dgram (session e) p d"
proof -
  let ?ps = "sendablePaths e"
  have ps: "?ps \<noteq> []" using e by (simp add: clear_to_send_def)
  obtain m i where w: "weighted_path ?ps e = Some (e\<lparr>wsched := m\<rparr>, i)" and i: "i \<in> set ?ps"
    using weighted_path_ok [OF ps] by blast
  have il: "i < length (paths e)" using sendable_range [OF i] by simp
  let ?f = "\<lparr>FHeader = \<lparr>Type = 0, Flags = 0, PathID = pid (paths e ! i), Epoch = 0\<rparr>, FSession = session e,
    FGroup = p_group p, FIndex = p_index p, FK = p_k p, FM = p_m p, ShardLen = of_nat (length (p_shard p))\<rparr>"
  let ?g = "?f\<lparr>FHeader := (FHeader ?f)\<lparr>Type := TypeFEC\<rparr>\<rparr>"
  have put: "PutFECHeader (Get (dirty en)) ?f = Some (fec_layout ?g @ drop 16 (Get (dirty en)), 16)"
    by (rule PutFECHeader_layout) simp
  let ?e = "e\<lparr>wsched := m, next_loan := Suc (next_loan e)\<rparr>" and ?d = "fec_layout ?g @ p_shard p"
  have wr: "path_write en i ?d ?e = (?e\<lparr>sent := sent ?e @ [Tx i ?d]\<rparr>, True)"
    using e il net by (intro write_clear) simp_all
  have r: "clientEmitParity en p e = Some (give_back [next_loan e] (sent_ok (16 + length (p_shard p)) (?e\<lparr>sent := sent ?e @ [Tx i ?d]\<rparr>)))"
    using ps p(1) put wr by (simp add: clientEmitParity_def w take_slab_def Let_def)
  have "unat (of_nat (length (p_shard p)) :: u16) = length (p_shard p)"
    using p(1) by (simp add: unat_of_nat take_bit_nat_eq_self)
  then have "parity_dgram (session e) p ?d"
    unfolding parity_dgram_def using p by (intro exI [of _ ?g]) (simp add: fec_carried_def)
  then show ?thesis
    using e by (intro exI [of _ "give_back [next_loan e] (sent_ok (16 + length (p_shard p)) (?e\<lparr>sent := sent ?e @ [Tx i ?d]\<rparr>))"]
        exI [of _ i] exI [of _ ?d] conjI, intro r) (simp_all, simp_all add: give_back_def sent_ok_def bump_def)
qed

lemma emit_parity_clear:
  assumes "clear_to_send e" "\<And>i d. net en i d" "\<forall>p \<in> set qs. length (p_shard p) \<le> 2032 \<and> p_group p AND mask 24 = p_group p"
  shows "\<exists>e' ts. emit_parity en qs e = Some e' \<and> clear_to_send e' \<and> session e' = session e \<and> globalSeq e' = globalSeq e \<and>
    fecEnc e' = fecEnc e \<and> paths e' = paths e \<and> sent e' = sent e @ ts \<and>
    list_all2 (\<lambda>p t. parity_dgram (session e) p (payload_of t)) qs ts"
  using assms(1,3)
proof (induction qs arbitrary: e)
  case (Cons p qs)
  obtain e1 i d where 1: "clientEmitParity en p e = Some e1" "clear_to_send e1" "session e1 = session e" "globalSeq e1 = globalSeq e"
      "fecEnc e1 = fecEnc e" "paths e1 = paths e" "sent e1 = sent e @ [Tx i d]" "parity_dgram (session e) p d"
    using clientEmitParity_clear [OF Cons.prems(1) assms(2), of p] Cons.prems(2) by auto
  obtain e2 ts where 2: "emit_parity en qs e1 = Some e2" "clear_to_send e2" "session e2 = session e1" "globalSeq e2 = globalSeq e1"
      "fecEnc e2 = fecEnc e1" "paths e2 = paths e1" "sent e2 = sent e1 @ ts"
      "list_all2 (\<lambda>p t. parity_dgram (session e1) p (payload_of t)) qs ts"
    using Cons.IH [OF 1(2)] Cons.prems(2) by auto
  show ?case
    using 1 2 by (intro exI [of _ e2] exI [of _ "Tx i d # ts"]) simp
qed auto

text \<open>One datagram through a client with FEC on: the parity it completes, then the datagram.\<close>

lemma client_sends_tagged:
  assumes e: "clear_to_send e" "fecEnc e = Some enc" and net: "\<And>i d. net en i d" and ct: "transport ct" "length ct \<le> 2024"
    and add: "Add (rs_enc lb) (globalSeq e + 1) ct (now en) enc = (enc', Some (gid, x), qs)" "gid AND mask 24 = gid"
    and qs: "\<forall>p \<in> set qs. length (p_shard p) \<le> 2032 \<and> p_group p AND mask 24 = p_group p"
  shows "\<exists>e' ts i h. client_send_one lb en ct e = Some e' \<and> clear_to_send e' \<and> session e' = session e \<and>
    globalSeq e' = globalSeq e + 1 \<and> fecEnc e' = Some enc' \<and> sent e' = sent e @ ts @ [Tx i (data_layout h @ ct)] \<and>
    list_all2 (\<lambda>p t. parity_dgram (session e) p (payload_of t)) qs ts \<and>
    tagged_bulk (session e) gid x h \<and> GlobalSeq h = globalSeq e + 1"
proof -
  let ?ps = "sendablePaths e"
  have c: "classifyCt ct e = Some (e, ClassBulk)"
    using e(1) ct by (auto simp: classifyCt_def clear_to_send_def transport_def idx_def)
  have ps: "?ps \<noteq> []" using e by (simp add: clear_to_send_def)
  obtain m i where w: "weighted_path ?ps e = Some (e\<lparr>wsched := m\<rparr>, i)" and i: "i \<in> set ?ps"
    using weighted_path_ok [OF ps] by blast
  have il: "i < length (paths e)" using sendable_range [OF i] by simp
  let ?e = "e\<lparr>wsched := m, globalSeq := globalSeq e + 1, fecEnc := Some enc'\<rparr>"
  let ?tag = "\<lparr>tag_on = True, tag_group = gid, tag_index = x\<rparr>"
  have bulk: "client_send_one lb en ct e = Option.bind (emit_parity en qs ?e)
      (sendDataOn en i ClassBulk False (globalSeq e + 1) (us en) ?tag ct)"
    using ps e(2) clear_path [OF e(1) il] add(1) by (simp add: client_send_one_def c send_bulk_def w Let_def)
  obtain e1 ts where 1: "emit_parity en qs ?e = Some e1" "clear_to_send e1" "session e1 = session e" "globalSeq e1 = globalSeq e + 1"
      "fecEnc e1 = Some enc'" "paths e1 = paths e" "sent e1 = sent e @ ts"
      "list_all2 (\<lambda>p t. parity_dgram (session e) p (payload_of t)) qs ts"
    using emit_parity_clear [of ?e en qs] e(1) net qs by auto
  let ?h = "data_header (paths e1 ! i) ClassBulk False (session e1) (globalSeq e + 1) (ucast (us en)) ?tag"
  have h: "tagged_bulk (session e) gid x ?h" "GlobalSeq ?h = globalSeq e + 1"
    using add(2) 1(3) by (simp_all add: tagged_bulk_def data_header_def ClassFlags_def)
  have "DataLen ?h + length ct \<le> 2048" using tagged_bulk_facts(2) [OF h(1)] ct(2) by simp
  then obtain e2 where "sendDataOn en i ClassBulk False (globalSeq e + 1) (us en) ?tag ct e1 = Some e2" "clear_to_send e2"
      "session e2 = session e1" "globalSeq e2 = globalSeq e1" "fecEnc e2 = fecEnc e1" "sent e2 = sent e1 @ [Tx i (data_layout ?h @ ct)]"
    using sendDataOn_clear [OF 1(2) _ net refl, of i ClassBulk False "globalSeq e + 1" "us en" ?tag ct] il 1(6) by auto
  with 1 h bulk show ?thesis
    by (intro exI [of _ e2] exI [of _ ts] exI [of _ i] exI [of _ ?h]) simp
qed

definition sendable_buf :: "bytes \<times> env \<Rightarrow> bool" where
  "sendable_buf = (\<lambda>(ct, en). transport ct \<and> length ct \<le> 2024 \<and> (\<forall>i d. net en i d))"

definition fec_ready :: "u32 \<Rightarrow> encoder \<Rightarrow> u32 \<Rightarrow> Engine \<Rightarrow> bool" where
  "fec_ready sid enc seq e \<longleftrightarrow> clear_to_send e \<and> session e = sid \<and> fecEnc e = Some enc \<and> globalSeq e = seq"

lemma clientSend_feed: "clientSend lb bufs e = feed (\<lambda>(ct, en). client_send_one lb en ct) bufs e"
  by (induction lb bufs e rule: clientSend.induct) (auto split: bind_split)

lemma client_sends_ready:
  assumes "fec_ready sid enc seq e" "sendable_buf (ct, en)" "Add (rs_enc lb) (seq + 1) ct (now en) enc = (enc', Some (gid, x), qs)"
    and "gid AND mask 24 = gid" "small_parity qs"
  shows "\<exists>e' ts t h. client_send_one lb en ct e = Some e' \<and> fec_ready sid enc' (seq + 1) e' \<and> sent e' = sent e @ ts @ [t] \<and>
    list_all2 (\<lambda>p t. parity_dgram sid p (payload_of t)) qs ts \<and>
    payload_of t = data_layout h @ ct \<and> tagged_bulk sid gid x h \<and> GlobalSeq h = seq + 1"
proof -
  have e: "clear_to_send e" "fecEnc e = Some enc" "session e = sid" "globalSeq e = seq"
    using assms(1) by (simp_all add: fec_ready_def)
  have b: "\<And>i d. net en i d" "transport ct" "length ct \<le> 2024" using assms(2) by (simp_all add: sendable_buf_def)
  obtain e' ts i h where "client_send_one lb en ct e = Some e'" "clear_to_send e'" "session e' = session e"
      "globalSeq e' = globalSeq e + 1" "fecEnc e' = Some enc'" "sent e' = sent e @ ts @ [Tx i (data_layout h @ ct)]"
      "list_all2 (\<lambda>p t. parity_dgram (session e) p (payload_of t)) qs ts" "tagged_bulk (session e) gid x h" "GlobalSeq h = globalSeq e + 1"
    using client_sends_tagged [OF e(1,2) b, of lb enc' gid x qs] assms(3-5) e(4) by (auto simp: small_parity_def)
  with e show ?thesis
    by (intro exI [of _ e'] exI [of _ ts] exI [of _ "Tx i (data_layout h @ ct)"] exI [of _ h]) (simp add: fec_ready_def)
qed

interpretation client_tx: fec_sender lb "\<lambda>(ct, en). client_send_one lb en ct" fst "\<lambda>(ct, en). now en" sendable_buf fec_ready sent
  for lb
proof (unfold_locales, goal_cases)
  case (2 sid enc seq s y enc' gid x qs)
  obtain ct en where "y = (ct, en)" by (cases y)
  with client_sends_ready [of sid enc seq s ct en lb enc' gid x qs] 2 show ?case by simp
qed (auto simp: sendable_buf_def)

section \<open>From the client to the server\<close>

interpretation fec_up: fec_link lb "\<lambda>(ct, en). client_send_one lb en ct" fst "\<lambda>(ct, en). now en" sendable_buf fec_ready sent
    "\<lambda>(en, a, d). serverRx lb en (Some (d, a))" "\<lambda>(en, a, d). d" "\<lambda>(en, a, d). now en" "\<lambda>_. True" streaming
  for lb
  by unfold_locales

lemma stream_of_bufs: "map (\<lambda>j. (sid, Some (fst (bufs ! j)))) [0..<length bufs] = map (\<lambda>(ct, _). (sid, Some ct)) bufs"
  by (rule nth_equalityI) (simp_all add: split_beta)

lemma group_carried:
  assumes code: "erasure_code (rs_enc lb) (rs_rec lb) k m" "0 < k" "0 < m" "k + m < 128" "eshards e0 = []" "params e0 = \<lparr>K = k, M = m\<rparr>"
    and client: "clear_to_send e" "fecEnc e = Some e0" "length bufs = k" "list_all sendable_buf bufs"
    and server: "lookupSession (session e) sv = Some s" "sFecDec s = Some dc" "reorder_inv (sReorder s)" "started (sReorder s)"
      "occupied (sReorder s) = 0" "nextExpected (sReorder s) = globalSeq e + 1" "open_queue (bind sv) = Some q"
    and room: "idle k dc" "length q + k \<le> 1024"
    and js: "distinct js" "set js \<subseteq> {..<k + m}" "length js = k"
  shows "\<exists>e' ds sv' q'. clientSend lb bufs e = Some e' \<and> sent e' = sent e @ ds \<and> length ds = k + m \<and>
    server_feed lb (map (\<lambda>j. (ens j, addrs j, payload_of (ds ! j))) js) sv = Some sv' \<and>
    open_queue (bind sv') = Some (q @ q') \<and>
    map (\<lambda>x. (Ep x, Bytes (Pkt x))) q' = map (\<lambda>(ct, _). (session e, Some ct)) bufs"
proof -
  have ready: "fec_ready (session e) e0 (globalSeq e) e" using client(1,2) by (simp add: fec_ready_def)
  obtain e' ds sv' dc' where c: "clientSend lb bufs e = Some e'" "sent e' = sent e @ ds" "length ds = k + m"
      "server_feed lb (map (\<lambda>j. (ens j, addrs j, payload_of (ds ! j))) js) sv = Some sv'"
      "streaming (session e) (globalSeq e + 1) (\<lambda>i. fst (bufs ! i)) q dc' {..<k} sv'"
    using fec_up.carries_group [OF code ready client(3,4) streaming_start [OF server] room js, where deliver = "\<lambda>j d. (ens j, addrs j, d)"]
    unfolding clientSend_feed server_feed_feed by auto
  with streaming_done [OF c(5)] stream_of_bufs [of "session e" bufs] client(3) show ?thesis by auto
qed

section \<open>The client receives\<close>

definition client_streaming :: "nat \<Rightarrow> u32 \<Rightarrow> u32 \<Rightarrow> (nat \<Rightarrow> bytes) \<Rightarrow> Inbound list \<Rightarrow> decoder \<Rightarrow> nat set \<Rightarrow> Engine \<Rightarrow> bool" where
  "client_streaming np sid seq ct q dc P e \<longleftrightarrow> client_streams np sid seq ct q P e \<and> fecDec e = Some dc \<and> started (reorderBuf e)"

lemma push_up_streaming:
  assumes s: "client_streaming np sid seq ct q dc P e" and P: "P \<subseteq> {..<n}" "length q + n \<le> 1024"
    and j: "j < n" "j \<notin> P" and pkt: "Bytes pkt = Some (ct j)"
  shows "\<exists>e'. push_up t (seq + of_nat j) pkt e = Some e' \<and> client_streaming np sid seq ct q dc (insert j P) e'"
proof -
  have e: "session e = sid" "started (reorderBuf e)" "fecDec e = Some dc" "client_streams np sid seq ct q P e"
      "stream_in sid seq ct q P (reorderBuf e) (bind e)"
    using s by (simp_all add: client_streaming_def client_streams_def)
  obtain b os where p: "Push t (seq + of_nat j) pkt (reorderBuf e) = (b, os)" by fastforce
  let ?e = "e\<lparr>reorderBuf := b\<rparr>"
  have "stream_in sid seq ct q P (reorderBuf e) (bind ?e)" using e(5) by simp
  then obtain bd where bd: "run_outs sid os ?e = Some (?e\<lparr>bind := bd\<rparr>)" "stream_in sid seq ct q (insert j P) b bd" "started b"
    using stream_push [where ct = ct and j = j and pkt = pkt, OF _ P j _ pkt p] e(2) by blast
  then have "push_up t (seq + of_nat j) pkt e = Some (?e\<lparr>bind := bd\<rparr>)"
    using p e(1) by (simp add: push_up_def)
  then show ?thesis
    using bd(2,3) e(3,4) by (intro exI [of _ "?e\<lparr>bind := bd\<rparr>"]) (simp add: client_streaming_def client_streams_def)
qed

lemma push_recovered_streaming:
  assumes "client_streaming np sid seq ct q dc P e" "P \<subseteq> {..<n}" "length q + n \<le> 1024"
    and "distinct os" "set os \<inter> P = {}" "\<forall>i \<in> set os. i < n \<and> length (ct i) \<le> 2048"
  shows "\<exists>e'. push_recovered en (map (\<lambda>i. (seq + of_nat i, ct i)) os) e = Some e' \<and> client_streaming np sid seq ct q dc (set os \<union> P) e'"
  using assms
proof (induction os arbitrary: e P)
  case (Cons i os)
  let ?e = "e\<lparr>next_loan := Suc (next_loan e)\<rparr>"
  let ?pkt = "\<lparr>Slab = Some (next_loan e, fill_slab (dirty en) (ct i)), Off = 0, Len = min SlabSize (length (ct i))\<rparr>"
  have i: "i < n" "i \<notin> P" "Bytes ?pkt = Some (ct i)"
    using Cons.prems(5,6) slab_bytes by auto
  have "client_streaming np sid seq ct q dc P ?e"
    using Cons.prems(1) by (simp add: client_streaming_def client_streams_def)
  then obtain e1 where 1: "push_up (now en) (seq + of_nat i) ?pkt ?e = Some e1" "client_streaming np sid seq ct q dc (insert i P) e1"
    using push_up_streaming [where ct = ct and j = i and pkt = ?pkt, OF _ Cons.prems(2,3) i] by blast
  have "insert i P \<subseteq> {..<n}" "distinct os" "set os \<inter> insert i P = {}" "\<forall>i \<in> set os. i < n \<and> length (ct i) \<le> 2048"
    using Cons.prems i(1) by auto
  from Cons.IH [OF 1(2) this(1) Cons.prems(3) this(2-4)] show ?case
    using 1(1) by (simp add: take_slab_def Let_def)
qed simp

lemma client_takes_data:
  assumes h: "tagged_bulk sid gid x h" "GlobalSeq h = seq + of_nat j" "length (ct j) \<le> 2024" and i: "i < np"
    and s: "client_streaming np sid seq ct q dc P e" and P: "P \<subseteq> {..<n}" "length q + n \<le> 1024"
    and add: "AddData (group_ord lb) (rs_rec lb) gid x (seq + of_nat j) (ct j) (now en) dc = (dc', map (\<lambda>i. (seq + of_nat i, ct i)) os)"
    and new: "distinct (j # os)" "set (j # os) \<inter> P = {}" "\<forall>i \<in> set (j # os). i < n \<and> length (ct i) \<le> 2048"
  shows "\<exists>e'. clientRx lb en ens i (Some (data_layout h @ ct j)) e = Some e' \<and> client_streaming np sid seq ct q dc' (set (j # os) \<union> P) e'"
proof -
  let ?d = "data_layout h @ ct j"
  note f = tagged_bulk_facts [OF h(1)] and p = tagged_dgram_parse [OF h(1,3)]
  have sid: "Wire.Session h = sid" "Type (DHeader h) = TypeData" "FECGroup h = gid" "FECIndex h = x"
    using h(1) by (simp_all add: tagged_bulk_def)
  have e: "session e = sid" "conn (paths e ! i)" "fecDec e = Some dc"
    using s i by (simp_all add: client_streaming_def client_streams_def)
  let ?e = "(accepted en i h (min SlabSize (length ?d)) (e\<lparr>next_loan := Suc (next_loan e)\<rparr>))\<lparr>fecDec := Some dc'\<rparr>"
  let ?pkt = "\<lparr>Slab = Some (next_loan e, fill_slab (dirty en) ?d), Off = DataLen h, Len = length (ct j)\<rparr>"
  have "clientRx lb en ens i (Some ?d) e = client_data lb en i (next_loan e) (fill_slab (dirty en) ?d) (min SlabSize (length ?d)) ?d
      (e\<lparr>next_loan := Suc (next_loan e)\<rparr>)"
    using slice_fill_slab [of "dirty en" ?d] p(1,2) sid(2) e(2) by (simp add: clientRx_def take_slab_def handleClientDatagram_def del: SlabSize_def)
  also have "\<dots> = Option.bind (push_recovered en (map (\<lambda>i. (seq + of_nat i, ct i)) os) ?e) (push_up (now en) (seq + of_nat j) ?pkt)"
    using f(3,4) h(2) sid e add by (simp add: client_data_def p(3) accepted_def bump_def upd_path_def Let_def)
  finally have r: "clientRx lb en ens i (Some ?d) e = \<dots>" .
  have "client_streaming np sid seq ct q dc' P ?e"
    using s by (simp add: client_streaming_def client_streams_def)
  then obtain e1 where e1: "push_recovered en (map (\<lambda>i. (seq + of_nat i, ct i)) os) ?e = Some e1" "client_streaming np sid seq ct q dc' (set os \<union> P) e1"
    using push_recovered_streaming [OF _ P, of np sid seq ct dc' ?e os en] new by auto
  moreover have "set os \<union> P \<subseteq> {..<n}" using P(1) new(3) by auto
  ultimately show ?thesis
    unfolding r using push_up_streaming [of np sid seq ct q dc' "set os \<union> P" e1 n j ?pkt "now en"] p(4) P(2) new by simp
qed

lemma client_takes_parity:
  assumes f: "fec_carried f shard" "FSession f = sid" "length shard \<le> 2032" and i: "i < np"
    and s: "client_streaming np sid seq ct q dc P e" and P: "P \<subseteq> {..<n}" "length q + n \<le> 1024"
    and add: "AddParity (group_ord lb) (rs_rec lb) (FGroup f) (FIndex f) (FK f) (FM f) shard (now en) dc = (dc', map (\<lambda>i. (seq + of_nat i, ct i)) os)"
    and new: "distinct os" "set os \<inter> P = {}" "\<forall>i \<in> set os. i < n \<and> length (ct i) \<le> 2048"
  shows "\<exists>e'. clientRx lb en ens i (Some (fec_layout f @ shard)) e = Some e' \<and> client_streaming np sid seq ct q dc' (set os \<union> P) e'"
proof -
  let ?d = "fec_layout f @ shard" and ?e = "e\<lparr>next_loan := Suc (next_loan e)\<rparr>"
  note p = fec_dgram_parse [OF f(1,3)]
  have e: "session e = sid" "conn (paths e ! i)" "fecDec e = Some dc"
    using s i by (simp_all add: client_streaming_def client_streams_def)
  have r: "clientRx lb en ens i (Some ?d) e = map_option (give_back [next_loan e]) (client_fec lb en i (min SlabSize (length ?d)) ?d ?e)"
    using slice_fill_slab [of "dirty en" ?d] p(1,2,4) e(2)
    by (simp add: clientRx_def take_slab_def handleClientDatagram_def map_conv_bind_option comp_def del: SlabSize_def)
  let ?e1 = "(bump (\<lambda>s. s\<lparr>RxPackets := RxPackets s + 1, RxBytesC := RxBytesC s + of_nat (min SlabSize (length ?d))\<rparr>)
    (upd_path i (\<lambda>p. p\<lparr>lastRxNano := now en\<rparr>) ?e))\<lparr>fecDec := Some dc'\<rparr>"
  have "client_fec lb en i (min SlabSize (length ?d)) ?d ?e = push_recovered en (map (\<lambda>i. (seq + of_nat i, ct i)) os) ?e1"
    using e f(2) add by (simp add: client_fec_def p(3) Let_def)
  moreover have "conn (paths ?e1 ! k) = conn (paths e ! k)" for k
    by (cases "i < length (paths e)"; cases "k = i") (simp_all add: bump_def upd_path_def list_update_beyond)
  then have "client_streaming np sid seq ct q dc' P ?e1"
    using s by (simp add: client_streaming_def client_streams_def) (simp add: bump_def upd_path_def)
  then obtain e2 where "push_recovered en (map (\<lambda>i. (seq + of_nat i, ct i)) os) ?e1 = Some e2" "client_streaming np sid seq ct q dc' (set os \<union> P) e2"
    using push_recovered_streaming [OF _ P new] by blast
  moreover have "client_streaming np sid seq ct q dc' P' (give_back ls e2) = client_streaming np sid seq ct q dc' P' e2" for P' ls
    by (simp add: client_streaming_def client_streams_def give_back_def)
  ultimately show ?thesis unfolding r by auto
qed

interpretation client_rx: fec_receiver lb "\<lambda>(en, ens, i, d). clientRx lb en ens i (Some d)" "\<lambda>(en, ens, i, d). d" "\<lambda>(en, ens, i, d). now en"
    "\<lambda>(en, ens, i, d). i < np" "client_streaming np"
  for lb np
  by unfold_locales (auto dest!: client_takes_data client_takes_parity)

section \<open>The server sends\<close>

text \<open>A session of which nothing keeps bulk back, and what it keeps while it sends.\<close>

definition sess_clear :: "u32 \<Rightarrow> Session \<Rightarrow> Server \<Rightarrow> bool" where
  "sess_clear sid s sv \<longleftrightarrow> classifier sv = None \<and> lookupSession sid sv = Some s \<and> SID s = sid \<and>
     (\<forall>i ps. path_of i s = Some ps \<longrightarrow> DropProb (sLink ps) \<le> 0)"

definition same_stream :: "Session \<Rightarrow> Session \<Rightarrow> bool" where
  "same_stream s s' \<longleftrightarrow> spaths s' = spaths s \<and> sGlobalSeq s' = sGlobalSeq s \<and> sFecEnc s' = sFecEnc s \<and> SID s' = SID s"

lemma sess_clear_upd:
  assumes "sess_clear sid s sv" "spaths (f s) = spaths s" "SID (f s) = SID s"
  shows "sess_clear sid (f s) (upd_session sid f sv)"
proof -
  have "lookupSession sid (upd_session sid f sv) = Some (f s)" using assms(1) by (simp add: sess_clear_def lookup_upd_session)
  with assms show ?thesis by (simp add: sess_clear_def path_of_def) (simp add: upd_session_def)
qed

lemma sess_clear_loan [simp]: "sess_clear sid s (sv\<lparr>next_loan := l\<rparr>) = sess_clear sid s sv"
  by (simp add: sess_clear_def lookupSession_def)

lemma server_write_clear:
  assumes "sess_clear sid s sv" "\<And>a d. net_to en a d"
  shows "\<exists>sv'. (let (sv, ok) = write_to en a d sv in Some (give_back [l] (if ok then sent_ok n sv else sv))) = Some sv' \<and>
    sess_clear sid s sv' \<and> sent sv' = sent sv @ [TxTo a d]"
  using assms by (simp add: write_to_def sess_clear_def give_back_def sent_ok_def bump_def lookupSession_def)

lemma serverEmitParity_clear:
  assumes s: "sess_clear sid s sv" and net: "\<And>a d. net_to en a d" and alive: "alivePaths en (k + 1) (now_at en (k + 2)) s \<noteq> []"
    and p: "length (p_shard p) \<le> 2032" "p_group p AND mask 24 = p_group p"
  shows "\<exists>sv' s' a d. serverEmitParity en k sid p sv = Some sv' \<and> sess_clear sid s' sv' \<and> same_stream s s' \<and>
    sent sv' = sent sv @ [TxTo a d] \<and> parity_dgram sid p d"
proof -
  let ?alive = "alivePaths en (k + 1) (now_at en (k + 2)) s"
  have s0: "lookupSession sid sv = Some s" "SID s = sid" using s by (simp_all add: sess_clear_def)
  obtain m i where w: "sess_weighted ?alive s = Some (m, i)" using sess_weighted_ok [OF alive] by blast
  let ?f = "\<lparr>FHeader = \<lparr>Type = 0, Flags = 0, PathID = ps_id (ps_at s i), Epoch = 0\<rparr>, FSession = SID s,
    FGroup = p_group p, FIndex = p_index p, FK = p_k p, FM = p_m p, ShardLen = of_nat (length (p_shard p))\<rparr>"
  let ?g = "?f\<lparr>FHeader := (FHeader ?f)\<lparr>Type := TypeFEC\<rparr>\<rparr>"
  have put: "PutFECHeader (Get (dirty en)) ?f = Some (fec_layout ?g @ drop 16 (Get (dirty en)), 16)"
    by (rule PutFECHeader_layout) simp
  let ?sv = "upd_session sid (\<lambda>s. s\<lparr>sWsched := m\<rparr>) sv" and ?d = "fec_layout ?g @ p_shard p"
  let ?svl = "?sv\<lparr>next_loan := Suc (next_loan ?sv)\<rparr>"
  have s1: "sess_clear sid (s\<lparr>sWsched := m\<rparr>) ?svl"
    using sess_clear_upd [OF s, of "\<lambda>s. s\<lparr>sWsched := m\<rparr>"] by simp
  have r: "serverEmitParity en k sid p sv =
      (let (sv, ok) = write_to en (addr (ps_at s i)) ?d ?svl in
        Some (give_back [next_loan ?sv] (if ok then sent_ok (16 + length (p_shard p)) sv else sv)))"
    using s0(1) alive w p(1) put by (simp add: serverEmitParity_def take_slab_def Let_def)
  obtain sv' where "serverEmitParity en k sid p sv = Some sv'" "sess_clear sid (s\<lparr>sWsched := m\<rparr>) sv'" "sent sv' = sent ?svl @ [TxTo (addr (ps_at s i)) ?d]"
    unfolding r using server_write_clear [OF s1 net] by blast
  moreover have "unat (of_nat (length (p_shard p)) :: u16) = length (p_shard p)"
    using p(1) by (simp add: unat_of_nat take_bit_nat_eq_self)
  then have "parity_dgram sid p ?d"
    unfolding parity_dgram_def using p s0(2) by (intro exI [of _ ?g]) (simp add: fec_carried_def)
  ultimately show ?thesis
    by (intro exI [of _ sv'] exI [of _ "s\<lparr>sWsched := m\<rparr>"] exI [of _ "addr (ps_at s i)"] exI [of _ ?d]) (simp add: same_stream_def upd_session_def)
qed

lemma alivePaths_cong: "spaths s' = spaths s \<Longrightarrow> alivePaths en k t s' = alivePaths en k t s"
  by (simp add: alivePaths_def path_of_def)

lemma sess_parity_clear:
  assumes "sess_clear sid s sv" "\<And>a d. net_to en a d" "\<And>k. alivePaths en (k + 1) (now_at en (k + 2)) s \<noteq> []" "small_parity qs"
  shows "\<exists>sv' s' ts. sess_parity en k sid qs sv = Some sv' \<and> sess_clear sid s' sv' \<and> same_stream s s' \<and> sent sv' = sent sv @ ts \<and>
    list_all2 (\<lambda>p t. parity_dgram sid p (payload_of t)) qs ts"
  using assms(1,3,4)
proof (induction qs arbitrary: sv s k)
  case Nil
  then show ?case by (auto simp: same_stream_def)
next
  case (Cons p qs)
  obtain sv1 s1 a d where 1: "serverEmitParity en k sid p sv = Some sv1" "sess_clear sid s1 sv1" "same_stream s s1"
      "sent sv1 = sent sv @ [TxTo a d]" "parity_dgram sid p d"
    using serverEmitParity_clear [where k = k and p = p, OF Cons.prems(1) assms(2) Cons.prems(2)] Cons.prems(3)
    unfolding small_parity_def by (metis list.set_intros(1))
  have "alivePaths en (k + 1) (now_at en (k + 2)) s1 \<noteq> []" for k
    using Cons.prems(2) 1(3) alivePaths_cong [of s1 s] by (simp add: same_stream_def)
  then obtain sv2 s2 ts where 2: "sess_parity en (Suc k) sid qs sv1 = Some sv2" "sess_clear sid s2 sv2" "same_stream s1 s2"
      "sent sv2 = sent sv1 @ ts" "list_all2 (\<lambda>p t. parity_dgram sid p (payload_of t)) qs ts"
    using Cons.IH [OF 1(2), of "Suc k"] Cons.prems(3) unfolding small_parity_def by (metis list.set_intros(2))
  show ?case
    using 1 2 by (intro exI [of _ sv2] exI [of _ s2] exI [of _ "TxTo a d # ts"]) (simp add: same_stream_def)
qed

lemma serverSendData_clear:
  assumes s: "sess_clear sid s sv" and net: "\<And>a d. net_to en a d" and len: "DataLen h + length ct \<le> 2048"
    and h: "h = sess_header s (ps_at s i) ClassBulk False seq (ucast clock) tag"
  shows "\<exists>sv' s' a. serverSendData en sid i ClassBulk False seq clock tag ct sv = Some sv' \<and> sess_clear sid s' sv' \<and> same_stream s s' \<and>
    sent sv' = sent sv @ [TxTo a (data_layout h @ ct)]"
proof -
  have s0: "lookupSession sid sv = Some s" using s by (simp add: sess_clear_def)
  let ?f = "(sPathSeq s)(ps_id (ps_at s i) := sPathSeq s (ps_id (ps_at s i)) + 1)"
  let ?up = "upd_session sid (\<lambda>s'. s'\<lparr>sPathSeq := (sPathSeq s')(ps_id (ps_at s i) := sPathSeq s' (ps_id (ps_at s i)) + 1)\<rparr>)"
  let ?sv = "?up (sv\<lparr>next_loan := Suc (next_loan sv)\<rparr>)"
  have "sess_clear sid s (sv\<lparr>next_loan := Suc (next_loan sv)\<rparr>)" using s by simp
  from sess_clear_upd [OF this, of "\<lambda>s'. s'\<lparr>sPathSeq := (sPathSeq s')(ps_id (ps_at s i) := sPathSeq s' (ps_id (ps_at s i)) + 1)\<rparr>"]
  have s1: "sess_clear sid (s\<lparr>sPathSeq := ?f\<rparr>) ?sv" by simp
  have put: "PutDataHeader (Get (dirty en)) h = Some (data_layout h @ drop (DataLen h) (Get (dirty en)), DataLen h)"
    using len by (intro PutDataHeader_layout) simp
  have r: "serverSendData en sid i ClassBulk False seq clock tag ct sv =
      (let (sv1, ok) = write_to en (addr (ps_at s i)) (data_layout h @ ct) ?sv in
        Some (give_back [next_loan sv] (if ok then sent_ok (DataLen h + length ct) sv1 else sv1)))"
    using s0 put len unfolding h by (simp add: serverSendData_def take_slab_def Let_def del: ClassBulk_def)
  obtain sv' where "serverSendData en sid i ClassBulk False seq clock tag ct sv = Some sv'" "sess_clear sid (s\<lparr>sPathSeq := ?f\<rparr>) sv'"
      "sent sv' = sent ?sv @ [TxTo (addr (ps_at s i)) (data_layout h @ ct)]"
    unfolding r using server_write_clear [OF s1 net] by blast
  then show ?thesis
    by (intro exI [of _ sv'] exI [of _ "s\<lparr>sPathSeq := ?f\<rparr>"]) (simp add: same_stream_def upd_session_def)
qed

text \<open>A ciphertext of at most 2024 bytes that finds paths alive at every look, and the socket willing.\<close>

definition sendable_group :: "Session \<Rightarrow> bytes \<times> senv \<Rightarrow> bool" where
  "sendable_group s = (\<lambda>(ct, en). sendable_down s (ct, en) \<and> length ct \<le> 2024 \<and> (\<forall>k. alivePaths en (k + 1) (now_at en (k + 2)) s \<noteq> []))"

definition sess_fec_ready :: "Session \<Rightarrow> u32 \<Rightarrow> encoder \<Rightarrow> u32 \<Rightarrow> Server \<Rightarrow> bool" where
  "sess_fec_ready s0 sid enc seq sv \<longleftrightarrow> (\<exists>s. sess_clear sid s sv \<and> spaths s = spaths s0 \<and> sFecEnc s = Some enc \<and> sGlobalSeq s = seq)"

lemma server_sends_tagged:
  assumes sv: "sess_fec_ready s0 sid enc seq sv" "sendable_group s0 (ct, en)"
    and add: "Add (rs_enc lb) (seq + 1) ct (now_at en 1) enc = (enc', Some (gid, x), qs)" "gid AND mask 24 = gid" "small_parity qs"
  shows "\<exists>sv' ts t h. server_send_one lb en ct sid sv = Some sv' \<and> sess_fec_ready s0 sid enc' (seq + 1) sv' \<and> sent sv' = sent sv @ ts @ [t] \<and>
    list_all2 (\<lambda>p t. parity_dgram sid p (payload_of t)) qs ts \<and>
    payload_of t = data_layout h @ ct \<and> tagged_bulk sid gid x h \<and> GlobalSeq h = seq + 1"
proof -
  obtain s where s: "sess_clear sid s sv" "spaths s = spaths s0" "sFecEnc s = Some enc" "sGlobalSeq s = seq"
    using sv(1) unfolding sess_fec_ready_def by blast
  have s0: "lookupSession sid sv = Some s" "SID s = sid" "classifier sv = None" using s(1) by (simp_all add: sess_clear_def)
  note alive = alivePaths_cong [OF s(2)]
  have b: "transport ct" "\<And>a d. net_to en a d" "alivePaths en 0 (now en) s \<noteq> []" "length ct \<le> 2024"
      "\<And>k. alivePaths en (k + 1) (now_at en (k + 2)) s \<noteq> []"
    using sv(2) by (auto simp: sendable_group_def sendable_down_def alive)
  have c: "classifyCt ct sv = Some (sv, ClassBulk)"
    using s0(3) b(1) by (auto simp: classifyCt_def transport_def idx_def)
  let ?alive = "alivePaths en 0 (now en) s"
  let ?live = "filter (\<lambda>i. up (sLink (ps_at s i))) ?alive"
  let ?usable = "if ?live = [] then ?alive else ?live"
  have u: "?usable \<noteq> []" "set ?usable \<subseteq> set ?alive" using b(3) by auto
  obtain m i where w: "sess_weighted ?usable s = Some (m, i)" "i \<in> set ?usable" using sess_weighted_ok [OF u(1)] by blast
  have "path_of i s = Some (ps_at s i)" using w(2) u(2) alive_path by blast
  then have drop: "\<not> DropProb (sLink (ps_at s i)) > 0" using s(1) by (auto simp: sess_clear_def not_less)
  let ?sv = "upd_session sid (\<lambda>s. s\<lparr>sFecEnc := Some enc'\<rparr>) (upd_session sid (\<lambda>s. s\<lparr>sGlobalSeq := seq + 1\<rparr>)
    (upd_session sid (\<lambda>s. s\<lparr>sWsched := m\<rparr>) sv))"
  let ?s = "s\<lparr>sWsched := m, sGlobalSeq := seq + 1, sFecEnc := Some enc'\<rparr>"
  let ?tag = "\<lparr>tag_on = True, tag_group = gid, tag_index = x\<rparr>"
  have r: "server_send_one lb en ct sid sv = Option.bind (sess_parity en 0 sid qs ?sv)
      (serverSendData en sid i ClassBulk False (seq + 1) (us en) ?tag ct)"
    using u(1) w(1) drop s0 s(3,4) add(1) by (simp add: server_send_one_def c sess_bulk_def Let_def split del: if_split)
  have s1: "sess_clear sid ?s ?sv"
    using sess_clear_upd [OF sess_clear_upd [OF sess_clear_upd [OF s(1), of "\<lambda>s. s\<lparr>sWsched := m\<rparr>"], of "\<lambda>s. s\<lparr>sGlobalSeq := seq + 1\<rparr>"],
        of "\<lambda>s. s\<lparr>sFecEnc := Some enc'\<rparr>"] by simp
  have "alivePaths en (k + 1) (now_at en (k + 2)) ?s \<noteq> []" for k
    using b(5) alivePaths_cong [of ?s s] by simp
  then obtain sv1 s2 ts where 1: "sess_parity en 0 sid qs ?sv = Some sv1" "sess_clear sid s2 sv1" "same_stream ?s s2" "sent sv1 = sent ?sv @ ts"
      "list_all2 (\<lambda>p t. parity_dgram sid p (payload_of t)) qs ts"
    using sess_parity_clear [OF s1 b(2) _ add(3)] by blast
  let ?h = "sess_header s2 (ps_at s2 i) ClassBulk False (seq + 1) (ucast (us en)) ?tag"
  have h: "tagged_bulk sid gid x ?h" "GlobalSeq ?h = seq + 1"
    using add(2) 1(3) s0(2) by (simp_all add: tagged_bulk_def sess_header_def ClassFlags_def same_stream_def)
  obtain sv2 s3 a where 2: "serverSendData en sid i ClassBulk False (seq + 1) (us en) ?tag ct sv1 = Some sv2" "sess_clear sid s3 sv2" "same_stream s2 s3"
      "sent sv2 = sent sv1 @ [TxTo a (data_layout ?h @ ct)]"
    using serverSendData_clear [OF 1(2) b(2) _ refl, where ct = ct and i = i and seq = "seq + 1" and clock = "us en" and tag = ?tag]
      tagged_bulk_facts(2) [OF h(1)] b(4) by auto
  have "sess_fec_ready s0 sid enc' (seq + 1) sv2"
    using 1(3) 2(2,3) s(2) unfolding sess_fec_ready_def same_stream_def by (intro exI [of _ s3]) simp
  with r 1(1,4,5) 2(1,4) h show ?thesis
    by (intro exI [of _ sv2] exI [of _ ts] exI [of _ "TxTo a (data_layout ?h @ ct)"] exI [of _ ?h]) (simp add: upd_session_def)
qed

interpretation server_tx: fec_sender lb "\<lambda>(ct, en). server_send_one lb en ct sid" fst "\<lambda>(ct, en). now_at en 1" "sendable_group s0"
    "\<lambda>i enc seq sv. i = sid \<and> sess_fec_ready s0 sid enc seq sv" sent
  for lb sid s0
proof (unfold_locales, goal_cases)
  case (2 i enc seq sv y enc' gid x qs)
  obtain ct en where "y = (ct, en)" by (cases y)
  with server_sends_tagged [of s0 sid enc seq sv ct en lb enc' gid x qs] 2 show ?case by auto
qed (auto simp: sendable_group_def)

section \<open>From the server to the client\<close>

interpretation fec_down: fec_link lb "\<lambda>(ct, en). server_send_one lb en ct sid" fst "\<lambda>(ct, en). now_at en 1" "sendable_group s0"
    "\<lambda>i enc seq sv. i = sid \<and> sess_fec_ready s0 sid enc seq sv" sent "\<lambda>(en, ens, i, d). clientRx lb en ens i (Some d)" "\<lambda>(en, ens, i, d). d"
    "\<lambda>(en, ens, i, d). now en" "\<lambda>(en, ens, i, d). i < np" "client_streaming np"
  for lb sid s0 np
  by unfold_locales

lemma server_batch_feed: "server_batch lb bufs sid sv = feed (\<lambda>(ct, en). server_send_one lb en ct sid) bufs sv"
  by (induction lb bufs sid sv rule: server_batch.induct) (auto split: bind_split)

lemma group_returned:
  assumes code: "erasure_code (rs_enc lb) (rs_rec lb) k m" "0 < k" "0 < m" "k + m < 128" "eshards e0 = []" "params e0 = \<lparr>K = k, M = m\<rparr>"
    and server: "sess_clear (session e) s sv" "sFecEnc s = Some e0" "length bufs = k" "list_all (sendable_group s) bufs"
    and client: "\<forall>i < length (paths e). conn (paths e ! i)" "fecDec e = Some dc" "reorder_inv (reorderBuf e)" "started (reorderBuf e)"
      "occupied (reorderBuf e) = 0" "nextExpected (reorderBuf e) = sGlobalSeq s + 1" "open_queue (bind e) = Some q"
    and room: "idle k dc" "length q + k \<le> 1024"
    and js: "distinct js" "set js \<subseteq> {..<k + m}" "length js = k" and via: "\<forall>j. via j < length (paths e)"
  shows "\<exists>sv' ds e' q'. serverSend lb bufs (session e) sv = Some sv' \<and> sent sv' = sent sv @ ds \<and> length ds = k + m \<and>
    client_feed lb (map (\<lambda>j. (en j, ens j, via j, payload_of (ds ! j))) js) e = Some e' \<and> open_queue (bind e') = Some (q @ q') \<and>
    map (\<lambda>x. (Ep x, Bytes (Pkt x))) q' = map (\<lambda>(ct, _). (session e, Some ct)) bufs"
proof -
  let ?ct = "\<lambda>i. fst (bufs ! i)" and ?np = "length (paths e)"
  have ready: "session e = session e \<and> sess_fec_ready s (session e) e0 (sGlobalSeq s) sv"
    using server(1,2) by (auto simp: sess_fec_ready_def)
  have "stream_in (session e) (sGlobalSeq s + 1) ?ct q {} (reorderBuf e) (bind e)"
    using client by (intro stream_start) auto
  then have start: "client_streaming ?np (session e) (sGlobalSeq s + 1) ?ct q dc {} e"
    using client(1,2,4) by (simp add: client_streaming_def client_streams_def)
  obtain sv' ds e' dc' where c: "server_batch lb bufs (session e) sv = Some sv'" "sent sv' = sent sv @ ds" "length ds = k + m"
      "client_feed lb (map (\<lambda>j. (en j, ens j, via j, payload_of (ds ! j))) js) e = Some e'"
      "client_streaming ?np (session e) (sGlobalSeq s + 1) ?ct q dc' {..<k} e'"
    using fec_down.carries_group [OF code ready server(3,4) start room js, where deliver = "\<lambda>j d. (en j, ens j, via j, d)"] via
    unfolding server_batch_feed client_feed_feed by auto
  have "serverSend lb bufs (session e) sv = Some sv'"
    using c(1) server(1) by (simp add: serverSend_def sess_clear_def)
  moreover obtain q' where "open_queue (bind e') = Some (q @ q')" "map (\<lambda>x. (Ep x, Bytes (Pkt x))) q' = map (\<lambda>j. (session e, Some (?ct j))) [0..<k]"
    using c(5) stream_done by (fastforce simp: client_streaming_def client_streams_def)
  ultimately show ?thesis
    using c(2-4) stream_of_bufs [of "session e" bufs] server(3) by auto
qed

section \<open>A client and a server with FEC on\<close>

definition fec_client :: Engine where
  "fec_client = one_path_client\<lparr>fecEnc := Some (SetParams \<lparr>K = 2, M = 1\<rparr> NewEncoder)\<rparr>"

definition fec_session :: Session where
  "fec_session = (new_session 7 9 (NewServer (NewMAC []) None False off))\<lparr>sReorder := start 1 Reorder.New\<rparr>"

definition fec_server :: Server where
  "fec_server = one_session_server\<lparr>sessions := [(7, fec_session)]\<rparr>"

definition xor_lib :: lib where
  "xor_lib = no_lib\<lparr>rs_enc := xor_encode, rs_rec := xor_reconstruct\<rparr>"

lemma fec_client_facts:
  "clear_to_send fec_client" "fecEnc fec_client = Some (SetParams \<lparr>K = 2, M = 1\<rparr> NewEncoder)" "session fec_client = 7"
  "globalSeq fec_client = 0" "sent fec_client = []"
  using one_path_client_facts(1-3) by (simp_all add: fec_client_def bulk_ready_clear) (simp add: one_path_client_def NewClient_def)

lemma fec_server_facts:
  "lookupSession 7 fec_server = Some fec_session" "sFecDec fec_session = Some NewDecoder" "reorder_inv (sReorder fec_session)"
  "started (sReorder fec_session)" "occupied (sReorder fec_session) = 0" "nextExpected (sReorder fec_session) = 1"
  "open_queue (bind fec_server) = Some []"
proof -
  have "reorder_inv (start 1 Reorder.New :: Packet buffer)"
    using start_ok [OF New_inv [where 'a = Packet], where seq = 1] by (auto simp: reorder_inv_def hold_ok_def start_def Reorder.New_def)
  then show "reorder_inv (sReorder fec_session)" by (simp add: fec_session_def)
qed (use one_session_server_facts(5) in \<open>simp_all add: fec_server_def fec_session_def new_session_def lookupSession_def
    NewServer_def NewClient_def Engine.Engine.extend_def start_def Reorder.New_def\<close>)

text \<open>The same two for the way back.\<close>

definition fec_path_session :: Session where
  "fec_path_session = (touchPath 0 (NoAddr, 9) (1000 * Second) fec_session)\<lparr>sFecEnc := Some (SetParams \<lparr>K = 2, M = 1\<rparr> NewEncoder)\<rparr>"

definition fec_path_server :: Server where
  "fec_path_server = one_session_server\<lparr>sessions := [(7, fec_path_session)]\<rparr>"

definition fec_open_client :: Engine where
  "fec_open_client = open_client\<lparr>fecDec := Some NewDecoder, reorderBuf := start 1 Reorder.New\<rparr>"

lemma fec_path_server_facts:
  "sess_clear (session fec_open_client) fec_path_session fec_path_server" "sFecEnc fec_path_session = Some (SetParams \<lparr>K = 2, M = 1\<rparr> NewEncoder)"
  "sGlobalSeq fec_path_session = 0" "alivePaths some_senv k (1000 * Second) fec_path_session \<noteq> []" "sent fec_path_server = []"
  using one_path_client_facts(2)
  by (auto simp: sess_clear_def fec_open_client_def open_client_def fec_path_server_def fec_path_session_def fec_session_def one_session_server_def
      touchPath_def path_of_def lookupSession_def new_session_def NewServer_def NewClient_def Engine.Engine.extend_def DropProb_def NewLink_def
      alivePaths_def some_senv_def env.extend_def pathStaleAfter_def i64_def time_units)

lemma fec_open_client_facts:
  "\<forall>i < length (paths fec_open_client). conn (paths fec_open_client ! i)" "fecDec fec_open_client = Some NewDecoder"
  "reorder_inv (reorderBuf fec_open_client)" "started (reorderBuf fec_open_client)" "occupied (reorderBuf fec_open_client) = 0"
  "nextExpected (reorderBuf fec_open_client) = 1" "open_queue (bind fec_open_client) = Some []" "length (paths fec_open_client) = 1"
  "session fec_open_client = 7"
  using open_client_facts(1,5,6) fec_server_facts(3-6) one_path_client_facts(2)
  by (simp_all add: fec_open_client_def fec_session_def) (simp add: open_client_def)

end
