(* ===== verification/Steering.thy ===== *)
theory Steering
  imports Tunnel
begin

text \<open>
  Which paths the client's traffic takes: every datagram that sending a ciphertext writes, the
  ciphertext itself, its copy and the parity it completes, goes to a path that was usable.
\<close>

section \<open>What sending writes\<close>

text \<open>Between two states, datagrams went out on the paths \<open>ps\<close> only.\<close>

definition sends_on :: "nat list \<Rightarrow> Engine \<Rightarrow> Engine \<Rightarrow> bool" where
  "sends_on ps e e' \<longleftrightarrow> (\<exists>ds. sent e' = sent e @ ds \<and> (\<forall>t \<in> set ds. \<exists>i d. t = Tx i d \<and> i \<in> set ps))"

lemma sends_on_refl: "sent e' = sent e \<Longrightarrow> sends_on ps e e'"
  by (auto simp: sends_on_def)

lemma sends_on_trans: "sends_on ps e e1 \<Longrightarrow> sends_on ps e1 e2 \<Longrightarrow> sends_on ps e e2"
  by (fastforce simp: sends_on_def)

lemma sent_kept [simp]:
  "sent (bump f e) = sent e" "sent (give_back ls e) = sent e" "sent (sent_ok n e) = sent e" "sent (upd_path i g e) = sent e"
  by (simp_all add: bump_def give_back_def sent_ok_def upd_path_def)

lemma path_write_sends: "path_write en i d e = (e', ok) \<Longrightarrow> i \<in> set ps \<Longrightarrow> sends_on ps e e'"
  by (auto simp: path_write_def sends_on_def split: if_splits)

lemma sends_on_frame [simp]:
  "sends_on ps (upd_path i g e) e' = sends_on ps e e'" "sends_on ps (e\<lparr>next_loan := l\<rparr>) e' = sends_on ps e e'"
  "sends_on ps (e\<lparr>wsched := m\<rparr>) e' = sends_on ps e e'" "sends_on ps (e\<lparr>globalSeq := n\<rparr>) e' = sends_on ps e e'"
  "sends_on ps (e\<lparr>rtSeq := n\<rparr>) e' = sends_on ps e e'" "sends_on ps (e\<lparr>fecEnc := x\<rparr>) e' = sends_on ps e e'"
  "sends_on ps (e\<lparr>correlator := y\<rparr>) e' = sends_on ps e e'"
  "sends_on ps e (upd_path i g e') = sends_on ps e e'" "sends_on ps e (give_back ls e') = sends_on ps e e'"
  "sends_on ps e (sent_ok n' e') = sends_on ps e e'"  "sends_on ps e (bump f e') = sends_on ps e e'"
  by (simp_all add: sends_on_def)

lemma sendDataOn_sends:
  assumes "sendDataOn en i class dup seq clock tag ct e = Some e'" "i \<in> set ps"
  shows "sends_on ps e e'"
  using assms by (auto simp: sendDataOn_def take_slab_def Let_def sends_on_refl dest: path_write_sends split: bind_splits if_splits prod.splits)

lemma path_write_paths: "path_write en i d e = (e', ok) \<Longrightarrow> paths e' = paths e"
  by (auto simp: path_write_def split: if_splits)

lemma paths_kept [simp]:
  "paths (bump f e) = paths e" "paths (give_back ls e) = paths e" "paths (sent_ok n e) = paths e"
  by (simp_all add: bump_def give_back_def sent_ok_def)

lemma sendable_paths: "paths e' = paths e \<Longrightarrow> sendablePaths e' = sendablePaths e"
  by (simp add: sendablePaths_def)

lemma clientEmitParity_sends:
  assumes "clientEmitParity en q e = Some e'"
  shows "sends_on (sendablePaths e) e e' \<and> paths e' = paths e"
proof (cases "sendablePaths e = []")
  case True
  then show ?thesis using assms by (simp add: clientEmitParity_def sends_on_refl)
next
  case False
  obtain m i where w: "weighted_path (sendablePaths e) e = Some (e\<lparr>wsched := m\<rparr>, i)" "i \<in> set (sendablePaths e)"
    using weighted_path_ok [OF False] by blast
  show ?thesis
    using assms False w by (auto simp: clientEmitParity_def take_slab_def Let_def sends_on_refl
        dest: path_write_sends path_write_paths split: bind_splits if_splits prod.splits)
qed

lemma emit_parity_sends: "emit_parity en qs e = Some e' \<Longrightarrow> sends_on (sendablePaths e) e e'"
proof (induction qs arbitrary: e)
  case (Cons q qs)
  then obtain e1 where 1: "clientEmitParity en q e = Some e1" "emit_parity en qs e1 = Some e'"
    by (auto split: bind_splits)
  from clientEmitParity_sends [OF 1(1)] Cons.IH [OF 1(2)] show ?case
    using sendable_paths [of e1 e] sends_on_trans by auto
qed (simp add: sends_on_refl)

lemma send_bulk_sends:
  assumes "send_bulk lb en (sendablePaths e0) ct e = Some e'" "sendablePaths e0 \<noteq> []" "paths e = paths e0"
  shows "sends_on (sendablePaths e0) e e'"
proof -
  let ?ps = "sendablePaths e0"
  obtain m i where w: "weighted_path ?ps e = Some (e\<lparr>wsched := m\<rparr>, i)" and i: "i \<in> set ?ps"
    using weighted_path_ok [OF assms(2)] by blast
  let ?e = "e\<lparr>wsched := m, globalSeq := globalSeq e + 1\<rparr>"
  have "sends_on ?ps e e'" if b: "Option.bind (emit_parity en qs (?e\<lparr>fecEnc := x\<rparr>)) (sendDataOn en i ClassBulk False seq clock tag ct) = Some e'"
    for qs x seq clock tag
  proof -
    obtain e1 where e1: "emit_parity en qs (?e\<lparr>fecEnc := x\<rparr>) = Some e1" "sendDataOn en i ClassBulk False seq clock tag ct e1 = Some e'"
      using b by (auto split: bind_splits)
    have "sendablePaths (?e\<lparr>fecEnc := x\<rparr>) = ?ps" by (rule sendable_paths) (simp add: assms(3))
    with emit_parity_sends [OF e1(1)] have "sends_on ?ps e e1" by simp
    then show ?thesis by (rule sends_on_trans) (rule sendDataOn_sends [OF e1(2) i])
  qed
  then show ?thesis
    using assms(1) i by (auto simp: send_bulk_def w Let_def sends_on_refl dest: sendDataOn_sends split: if_splits option.splits prod.splits)
qed

lemma classifyCt_same: "classifyCt ct e = Some (e', c) \<Longrightarrow> sent e' = sent e \<and> paths e' = paths e"
  by (auto simp: classifyCt_def split: if_splits bind_splits option.splits prod.splits)

lemma client_send_one_sends:
  assumes "client_send_one lb en ct e = Some e'"
  shows "sends_on (sendablePaths e) e e'"
proof (cases "sendablePaths e = []")
  case True
  then show ?thesis using assms by (auto simp: client_send_one_def holdPending_def intro: sends_on_refl split: if_splits)
next
  case False
  let ?ps = "sendablePaths e"
  obtain e1 c where c: "classifyCt ct e = Some (e1, c)"
    using assms False by (auto simp: client_send_one_def Let_def split: bind_splits)
  note s = classifyCt_same [OF c]
  have m: "i \<in> set ?ps" if "idx ?ps n = Some i" for i n
    using that by (auto simp: idx_def split: if_splits)
  have "sends_on ?ps e1 e'"
    using assms False s m
    by (auto simp: client_send_one_def c Let_def intro: sends_on_trans dest!: sendDataOn_sends [where ps = ?ps] send_bulk_sends
        split: bind_splits if_splits prod.splits)
  with s show ?thesis by (simp add: sends_on_def)
qed

text \<open>Registered, and up unless no registered path is.\<close>

lemma sendable_usable:
  "i \<in> set (sendablePaths e) \<longleftrightarrow> i < length (paths e) \<and> registered (paths e ! i) \<and>
    (up (pLink (paths e ! i)) \<or> (\<forall>j < length (paths e). registered (paths e ! j) \<longrightarrow> \<not> up (pLink (paths e ! j))))"
  by (auto simp: sendablePaths_def Let_def filter_empty_conv)

section \<open>Properties\<close>

text \<open>
  C14. Traffic takes usable paths only: whatever its class, duplicated or not, completing a FEC
  group or not, and whatever the sockets answer, a ciphertext makes the client write only to
  registered paths, and to one that is down only if every registered path is.
\<close>

theorem traffic_on_usable_paths:
  assumes "client_send_one lb en ct e = Some e'"
  shows "\<exists>ds. sent e' = sent e @ ds \<and> (\<forall>t \<in> set ds. \<exists>i d. t = Tx i d \<and> i < length (paths e) \<and> registered (paths e ! i) \<and>
    (up (pLink (paths e ! i)) \<or> (\<forall>j < length (paths e). registered (paths e ! j) \<longrightarrow> \<not> up (pLink (paths e ! j)))))"
  using client_send_one_sends [OF assms] unfolding sends_on_def sendable_usable by blast

theorem traffic_on_usable_paths_witness:
  "\<exists>e' i d. client_send_one no_lib some_env [4, 0, 0, 0, 1] one_path_client = Some e' \<and> sent e' = [Tx i d] \<and>
    i < length (paths one_path_client) \<and> registered (paths one_path_client ! i)"
proof -
  have "transport [4, 0, 0, 0, 1]" by (simp add: transport_def)
  then obtain e' i h where r: "client_send_one no_lib some_env [4, 0, 0, 0, 1] one_path_client = Some e'"
      "sent e' = sent one_path_client @ [Tx i (data_layout h @ [4, 0, 0, 0, 1])]"
    using client_sends_bulk [OF one_path_client_facts(1), of "[4, 0, 0, 0, 1]" some_env no_lib] by auto
  from traffic_on_usable_paths [OF r(1)] r show ?thesis
    by (auto simp: one_path_client_facts(3))
qed

end
