(* ===== verification/Sessions.thy ===== *)
theory Sessions
  imports ServerProps
begin

text \<open>
  How a session of the server ends: the reaper of \<^verbatim>\<open>server.go\<close>, which removes what has been silent,
  and the BYE of a client, which removes a path and with the last one the session.
\<close>

section \<open>Lemmas\<close>

lemma lookup_delete: "lookupSession x (sv\<lparr>sessions := AList.delete sid (sessions sv)\<rparr>) = (if x = sid then None else lookupSession x sv)"
  by (simp add: lookupSession_def delete_conv')

lemma only_up_sent: "only_up sv sv' \<Longrightarrow> sent sv' = sent sv"
  by (cases sv, cases sv') (simp add: only_up_def)

lemma only_up_lookup: "only_up sv sv' \<Longrightarrow> lookupSession x sv' = lookupSession x sv"
  using only_up_sessions by (fastforce simp: lookupSession_def)

text \<open>Closing a session hands out or drops what its buffer holds and removes it from the table, no other.\<close>

lemma close_session_exact:
  assumes "good insp X ks sv" "lookupSession sid sv = Some s" "SID s' = SID s" "sReorder s' = sReorder s"
  shows "\<exists>sv'. close_session s' (sv\<lparr>sessions := AList.delete sid (sessions sv)\<rparr>) = Some sv' \<and> good insp X (ks - {sid}) sv' \<and>
    sent sv' = sent sv \<and> (\<lambda>x. lookupSession x sv') = (\<lambda>x. lookupSession x sv)(sid := None)"
proof -
  let ?sv = "sv\<lparr>sessions := AList.delete sid (sessions sv)\<rparr>"
  obtain sv' where c: "close_session s' ?sv = Some sv'" "good insp X (ks - {sid}) sv'"
    using close_session_ok [OF assms] by (auto simp: yields_def)
  then have "only_up ?sv sv'" using run_outs_only by (auto simp: close_session_def)
  then have "sent sv' = sent sv" "lookupSession x sv' = lookupSession x ?sv" for x
    using only_up_sent only_up_lookup by fastforce+
  with c show ?thesis by (auto simp: fun_eq_iff lookup_delete)
qed

lemma reap_sessions_exact:
  assumes "good insp X ks sv" "set sids \<subseteq> ks" "distinct sids"
  shows "\<exists>sv'. each_session (reap_session en) sids sv = Some sv' \<and> server_inv insp X sv' \<and> sent sv' = sent sv \<and>
    (\<forall>x. lookupSession x sv' = (case lookupSession x sv of None \<Rightarrow> None
       | Some s \<Rightarrow> if x \<in> set sids \<and> lastSeen s < i64 (now en - sessionTimeout) then None else Some s))"
  using assms
proof (induction sids arbitrary: ks sv)
  case Nil
  then show ?case by (auto simp: good_def split: option.split)
next
  case (Cons sid sids)
  obtain s where s: "lookupSession sid sv = Some s"
    using good_lookup [OF Cons.prems(1), of sid] Cons.prems(2) by auto
  show ?case
  proof (cases "lastSeen s < i64 (now en - sessionTimeout)")
    case True
    obtain sv1 where 1: "reap_session en sid sv = Some sv1" "good insp X (ks - {sid}) sv1" "sent sv1 = sent sv"
        "(\<lambda>x. lookupSession x sv1) = (\<lambda>x. lookupSession x sv)(sid := None)"
      using close_session_exact [OF Cons.prems(1) s refl refl] by (auto simp: reap_session_def s True)
    have "set sids \<subseteq> ks - {sid}" using Cons.prems(2,3) by auto
    from Cons.IH [OF 1(2) this] Cons.prems(3) 1(1,3) fun_cong [OF 1(4)] s True show ?thesis
      by (auto split: option.split)
  next
    case False
    then have "reap_session en sid sv = Some sv" by (simp add: reap_session_def s)
    with Cons.IH [OF Cons.prems(1)] Cons.prems(2,3) s False show ?thesis
      by (auto split: option.split)
  qed
qed

lemma serverRx_bye:
  assumes "ParseHeader (take 2048 d) = Some (Inr h)" "Type h = TypeBye"
  shows "serverRx lb en (Some (d, a)) sv =
    map_option (give_back [next_loan sv]) (server_bye lb en (take 2048 d) (sv\<lparr>next_loan := next_loan sv + 1\<rparr>))"
  using slice_fill_slab [of "dirty en" d] assms
  by (simp add: serverRx_def take_slab_def handleServerDatagram_def map_conv_bind_option comp_def del: SlabSize_def)

definition without_path :: "byte \<Rightarrow> Session \<Rightarrow> Session option" where
  "without_path i s = (let ps = AList.delete i (spaths s) in if ps = [] then None else Some (s\<lparr>spaths := ps\<rparr>))"

lemma removeSessionPath_exact:
  assumes "good insp X ks sv"
  shows "\<exists>sv'. removeSessionPath sid i sv = Some sv' \<and> sent sv' = sent sv \<and>
    (\<lambda>x. lookupSession x sv') = (\<lambda>x. lookupSession x sv)(sid := Option.bind (lookupSession sid sv) (without_path i))"
proof (cases "lookupSession sid sv")
  case None
  then show ?thesis by (auto simp: removeSessionPath_def)
next
  case (Some s)
  let ?s = "s\<lparr>spaths := AList.delete i (spaths s)\<rparr>"
  show ?thesis
  proof (cases "AList.delete i (spaths s) = []")
    case True
    then show ?thesis
      using close_session_exact [OF assms Some, of ?s] Some by (auto simp: removeSessionPath_def without_path_def)
  next
    case False
    then show ?thesis
      using Some by (auto simp: removeSessionPath_def without_path_def lookup_upd_session fun_eq_iff) (simp add: upd_session_def)
  qed
qed

section \<open>Properties\<close>

text \<open>
  C17. The reaper. In every state of the server's invariant one tick of the reaper, which visits
  every session of the table, returns in a state of the invariant and leaves exactly the sessions
  that were seen within the last five minutes, each as it was: a session in use is never removed, a
  silent one always is, and with the invariant the packets its buffer held are handed to WireGuard
  or given back to the pool. Nothing is sent.
\<close>

theorem reaper_exact:
  assumes "server_inv insp X sv" "set (map fst (sessions sv)) \<subseteq> set (sess_ord en (map fst (sessions sv)))"
  shows "\<exists>sv'. reaper_tick en sv = Some sv' \<and> server_inv insp X sv' \<and> sent sv' = sent sv \<and>
    (\<forall>sid. lookupSession sid sv' = (case lookupSession sid sv of None \<Rightarrow> None
       | Some s \<Rightarrow> if lastSeen s < i64 (now en - sessionTimeout) then None else Some s))"
proof -
  have all: "sid \<in> set (allSessions en sv)" if "lookupSession sid sv = Some s" for sid s
  proof -
    have "sid \<in> ids sv" using that lookup_iff by blast
    with assms(2) show ?thesis by (auto simp: allSessions_def)
  qed
  from reap_sessions_exact [OF good_ids [OF assms(1)] allSessions_ids, of en en]
  obtain sv' where "reaper_tick en sv = Some sv'" "server_inv insp X sv'" "sent sv' = sent sv"
      "\<And>x. lookupSession x sv' = (case lookupSession x sv of None \<Rightarrow> None
         | Some s \<Rightarrow> if x \<in> set (allSessions en sv) \<and> lastSeen s < i64 (now en - sessionTimeout) then None else Some s)"
    by (auto simp: reaper_tick_def)
  then show ?thesis using all by (intro exI [of _ sv']) (auto split: option.split)
qed

definition two_sessions :: "int \<Rightarrow> int \<Rightarrow> Server" where
  "two_sessions t t' = (let sv = NewServer (NewMAC []) None True off in
     sv\<lparr>sessions := [(7, (new_session 7 1 sv)\<lparr>lastSeen := t\<rparr>), (8, (new_session 8 2 sv)\<lparr>lastSeen := t'\<rparr>)]\<rparr>)"

theorem reaper_exact_witness:
  "\<exists>sv'. reaper_tick some_senv (two_sessions (1000 * Second) (600 * Second)) = Some sv' \<and>
     lookupSession 7 sv' \<noteq> None \<and> lookupSession 8 sv' = None"
proof -
  let ?sv = "two_sessions (1000 * Second) (600 * Second)" and ?n = "NewServer (NewMAC []) None True off"
  have "server_inv 0 {#} ?n" by (rule NewServer_inv)
  then have inv: "server_inv 0 {#} ?sv"
    using new_session_ok by (simp add: server_inv_def two_sessions_def Let_def session_ok_def inspected_below_def balanced_def)
  have "set (map fst (sessions ?sv)) \<subseteq> set (sess_ord some_senv (map fst (sessions ?sv)))"
    by (simp add: some_senv_def env.extend_def)
  then obtain sv' where r: "reaper_tick some_senv ?sv = Some sv'"
      "\<forall>sid. lookupSession sid sv' = (case lookupSession sid ?sv of None \<Rightarrow> None
         | Some s \<Rightarrow> if lastSeen s < i64 (now some_senv - sessionTimeout) then None else Some s)"
    using reaper_exact [OF inv] by blast
  have "lookupSession 7 ?sv = Some ((new_session 7 1 ?n)\<lparr>lastSeen := 1000 * Second\<rparr>)"
      "lookupSession 8 ?sv = Some ((new_session 8 2 ?n)\<lparr>lastSeen := 600 * Second\<rparr>)" "now some_senv = 1000 * Second"
    by (simp_all add: two_sessions_def lookupSession_def some_senv_def env.extend_def some_env_def Let_def)
  with r show ?thesis by (auto simp: sessionTimeout_def i64_def time_units)
qed

text \<open>
  An authentic and fresh BYE removes its path from its session, and the session when no other path
  is left, and changes no other session; a stale one changes nothing. Nothing is sent. The sender
  is not compared with the client that opened the session.
\<close>

theorem bye_exact:
  assumes "server_inv insp X sv"
  shows "\<exists>sv'. serverRx lb en (Some (AppendTag (blake_of lb) (mac sv) (bye_layout (h\<lparr>Type := TypeBye\<rparr>) m), a)) sv = Some sv' \<and>
    sent sv' = sent sv \<and> (\<lambda>sid. lookupSession sid sv') =
      (if FreshTS (BUnixTS m) (Unix (now en))
       then (\<lambda>sid. lookupSession sid sv)(BSession m := Option.bind (lookupSession (BSession m) sv) (without_path (PathID h)))
       else (\<lambda>sid. lookupSession sid sv))"
proof -
  let ?h = "h\<lparr>Type := TypeBye\<rparr>" and ?sv = "sv\<lparr>next_loan := Suc (next_loan sv)\<rparr>"
  let ?d = "AppendTag (blake_of lb) (mac sv) (bye_layout ?h m)"
  have "length ?d = 32" by (simp add: AppendTag_def message_layouts)
  then have t: "take 2048 ?d = ?d" by simp
  have p: "ParseHeader (take 2048 ?d) = Some (Inr ?h)"
    unfolding t by (simp add: AppendTag_def bye_layout_def header_layout_parse)
  have m: "ParseBye (blake_of lb) ?d (mac ?sv) = Some (Some (?h, m))"
    using bye_msg.roundtrip [of ?h "blake_of lb" "mac sv" m] by simp
  have r: "serverRx lb en (Some (?d, a)) sv = map_option (give_back [next_loan sv]) (server_bye lb en ?d ?sv)"
    using serverRx_bye [OF p, of lb en a sv] t by simp
  have "good insp (add_mset (next_loan sv) X) (ids sv) ?sv"
    using good_take [OF good_ids [OF assms], of ?sv "next_loan sv"] by (simp add: take_slab_def)
  from removeSessionPath_exact [OF this, of "BSession m" "PathID h"]
  show ?thesis unfolding r using m by (auto simp: server_bye_def)
qed

end
