(* ===== verification/Metrics.thy ===== *)
theory Metrics
  imports Server Config
begin

text \<open>
  File \<^verbatim>\<open>metrics.go\<close> of \<^verbatim>\<open>internal/engine\<close>, the snapshot for the dashboard. It reads
  the state and changes nothing. Path names are not in the engine's model and are left out;
  numbers keep their widths, floats are rounded.
\<close>

section \<open>The snapshot\<close>

record PathMetrics =
  PID :: byte
  PUp :: bool
  PRegistered :: bool
  SRTTMs :: f64
  RTTVarMs :: f64
  LossPct :: f64
  CapacityMbps :: f64
  WeightMbps :: f64
  PDelayFactor :: f64
  PQueueMs :: f64
  OwdAvgMs :: f64
  OwdJitterMs :: f64
  PTxPackets :: u32
  PRxPackets :: u32
  PRxBytes :: u64

record FECMetrics =
  FParams :: string
  FGroups :: u64
  FParity :: u64
  FRecovered :: u64

record SessionMetrics =
  MSID :: u32
  MPaths :: "PathMetrics list"
  MReorder :: stats
  MFEC :: "FECMetrics option"

record Metrics =
  Mode :: string
  NowMs :: int
  MSession :: u32
  MTxPackets :: u64
  MTxBytes :: u64
  MRxPackets :: u64
  MRxBytes :: u64
  DropNoPath :: u64
  DropUnknown :: u64
  DropQueue :: u64
  DropMalformed :: u64
  CorrHits :: u64
  CorrMiss :: u64
  CPaths :: "PathMetrics list"
  CReorder :: "stats option"
  CFEC :: "FECMetrics option"
  MSessions :: "SessionMetrics list"

definition millis :: "duration \<Rightarrow> f64" where
  "millis d = fdiv (float_of_int (quot d 1000)) 1000"

definition pathMetrics :: "LinkSnapshot \<Rightarrow> rxstats \<Rightarrow> timestamp \<Rightarrow> PathMetrics" where
  "pathMetrics s rxs t =
     (let (ew, j) = (case OwdView t (3 * Second) rxs of Some (ew, j) \<Rightarrow> (fdiv ew 1000, fdiv j 1000) | None \<Rightarrow> (0, 0));
          (pkts, octets) = Peek rxs
      in \<lparr>PID = 0, PUp = Up s, PRegistered = False, SRTTMs = millis (SRTT s), RTTVarMs = millis (RTTVar s),
          LossPct = fmul (LossEWMA s) 100, CapacityMbps = fdiv (CapacityBps s) 1000000, WeightMbps = fdiv (WeightBps s) 1000000,
          PDelayFactor = DelayFactor s, PQueueMs = QueueMs s, OwdAvgMs = ew, OwdJitterMs = j,
          PTxPackets = 0, PRxPackets = pkts, PRxBytes = octets\<rparr>)"

definition fecMetrics :: "encoder option \<Rightarrow> decoder option \<Rightarrow> FECMetrics option" where
  "fecMetrics enc dec =
     (case enc of None \<Rightarrow> None
      | Some e \<Rightarrow> (let (gs, par, p) = EncStats e in
          Some \<lparr>FParams = params_string p, FGroups = gs, FParity = par,
                FRecovered = (case dec of None \<Rightarrow> 0 | Some d \<Rightarrow> Recovered d)\<rparr>))"

text \<open>The part common to both modes.\<close>

definition base_metrics :: "timestamp \<Rightarrow> 'x Engine_scheme \<Rightarrow> Metrics" where
  "base_metrics t e =
     (let (h, m, _) = CorrStats (correlator e) in
      \<lparr>Mode = '''', NowMs = t div Millisecond, MSession = 0,
       MTxPackets = TxPackets (Stats e), MTxBytes = TxBytes (Stats e), MRxPackets = RxPackets (Stats e), MRxBytes = RxBytesC (Stats e),
       DropNoPath = TxDropNoPath (Stats e), DropUnknown = RxDropUnknown (Stats e), DropQueue = RxDropQueue (Stats e),
       DropMalformed = RxDropMalformed (Stats e), CorrHits = h, CorrMiss = m,
       CPaths = [], CReorder = None, CFEC = None, MSessions = []\<rparr>)"

definition client_metrics :: "env \<Rightarrow> Engine \<Rightarrow> Metrics" where
  "client_metrics en e = (base_metrics (now en) e)
     \<lparr>Mode := ''client'', MSession := session e,
      CPaths := map (\<lambda>p. (pathMetrics (Link.Snapshot (pLink p)) (pRx p) (now en))
        \<lparr>PID := pid p, PRegistered := registered p, PTxPackets := pathSeq p\<rparr>) (paths e),
      CReorder := Some (Reorder.Snapshot (reorderBuf e)), CFEC := fecMetrics (fecEnc e) (fecDec e)\<rparr>"

definition session_metrics :: "senv \<Rightarrow> nat \<Rightarrow> Session \<Rightarrow> SessionMetrics" where
  "session_metrics en k s =
     \<lparr>MSID = SID s,
      MPaths = map (\<lambda>i. (pathMetrics (Link.Snapshot (sLink (ps_at s i))) (sRx (ps_at s i)) (now en))
        \<lparr>PID := ps_id (ps_at s i), PRegistered := True, PTxPackets := sPathSeq s (ps_id (ps_at s i))\<rparr>) (alivePaths en k (now en) s),
      MReorder = Reorder.Snapshot (sReorder s), MFEC = fecMetrics (sFecEnc s) (sFecDec s)\<rparr>"

definition server_metrics :: "senv \<Rightarrow> Server \<Rightarrow> Metrics" where
  "server_metrics en sv = (base_metrics (now en) sv)
     \<lparr>Mode := ''server'',
      MSessions := map2 (\<lambda>k sid. session_metrics en k (the (lookupSession sid sv))) [0..<length (allSessions en sv)] (allSessions en sv)\<rparr>"

section \<open>Properties\<close>

lemma pathMetrics_fields:
  "LossPct (pathMetrics s rxs t) = fmul (LossEWMA s) 100" "CapacityMbps (pathMetrics s rxs t) = fdiv (CapacityBps s) 1000000"
  "WeightMbps (pathMetrics s rxs t) = fdiv (WeightBps s) 1000000" "PDelayFactor (pathMetrics s rxs t) = DelayFactor s"
  "PQueueMs (pathMetrics s rxs t) = QueueMs s"
  by (simp_all add: pathMetrics_def Let_def split: prod.split)

lemma Snapshot_fields:
  "LossEWMA (Link.Snapshot l) = lossEWMA l" "CapacityBps (Link.Snapshot l) = capacityBpsLocked l"
  "WeightBps (Link.Snapshot l) = Weight l" "DelayFactor (Link.Snapshot l) = delayFactor l"
  "QueueMs (Link.Snapshot l) = fdiv (queueUS l) 1000"
  by (simp_all add: Link.Snapshot_def Weight_def Let_def)

text \<open>
  What the dashboard shows of a path, after any run of link operations and for any receive
  statistics, is in range: the loss is a percentage, rates are not negative and the weight is at
  most the capacity, the delay factor is within its floor and one, the queue is not negative.
\<close>

theorem metrics_in_range:
  "let m = pathMetrics (Link.Snapshot (fold link_step ops NewLink)) rxs t in
     0 \<le> LossPct m \<and> LossPct m \<le> 100 \<and> 0 \<le> WeightMbps m \<and> WeightMbps m \<le> CapacityMbps m \<and>
     minDelayFactor \<le> PDelayFactor m \<and> PDelayFactor m \<le> 1 \<and> 0 \<le> PQueueMs m"
proof -
  let ?l = "fold link_step ops NewLink"
  have e: "estimates_ok ?l"
    using link_run_inv [OF NewLink_inv, of ops] by (simp add: link_inv_def)
  have 100: "rnd 100 = 100" using fl.exact_int [of 100] by simp
  have "0 \<le> rnd (lossEWMA ?l * 100) \<and> rnd (lossEWMA ?l * 100) \<le> 100"
    using e fl.between [of 0 "lossEWMA ?l * 100" 100, OF _ _ fl.zero 100] by (simp add: estimates_ok_def factor_ok_def)
  moreover have "0 \<le> Weight ?l" "Weight ?l \<le> capacityBpsLocked ?l"
    using weight_bounds [OF e] by (cases "capSamples ?l = []"; simp)+
  moreover have "0 \<le> rnd (queueUS ?l / 1000)"
    using e by (intro fl.nonneg) (simp add: estimates_ok_def)
  moreover have "rnd (Weight ?l / 1000000) \<le> rnd (capacityBpsLocked ?l / 1000000)" "0 \<le> rnd (Weight ?l / 1000000)"
    using calculation by (simp_all add: fl.mono fl.nonneg divide_right_mono)
  ultimately show ?thesis
    using e by (simp add: pathMetrics_fields Snapshot_fields Let_def fmul_def fdiv_def estimates_ok_def factor_ok_def)
qed

end
