(* ===== verification/Dashboard.thy ===== *)
theory Dashboard
  imports Keys
begin

text \<open>
  Package \<^verbatim>\<open>internal/dashboard\<close>: the token check, the routes and the bodies they answer with. The
  snapshot is any type and \<open>json\<close> its encoding by \<^verbatim>\<open>encoding/json\<close>, which may fail. An event stream
  runs through the choices of its \<^verbatim>\<open>select\<close>; what it has written after some of them is its body so
  far. HTTP itself and the shutdown of its server are left out.
\<close>

section \<open>Definitions\<close>

text \<open>What the loop of \<^verbatim>\<open>/events\<close> meets: a tick with the snapshot taken then, or the end.\<close>

datatype 'm choice = Tick 'm | RequestDone | ServerDone

datatype response = Unauthorized | NotFound | MethodNotAllowed | StreamingUnsupported | Page | Json string | EventStream string

text \<open>\<^verbatim>\<open>Encoder.Encode\<close> writes the text and a newline, or nothing when it fails.\<close>

definition Encode :: "('m \<Rightarrow> string option) \<Rightarrow> 'm \<Rightarrow> string option" where
  "Encode json m = map_option (\<lambda>j. j @ [CHR 0x0A]) (json m)"

fun events_loop :: "('m \<Rightarrow> string option) \<Rightarrow> 'm choice list \<Rightarrow> string" where
  "events_loop json (Tick m # cs) =
     ''data: '' @ (case Encode json m of None \<Rightarrow> '''' | Some s \<Rightarrow> s @ [CHR 0x0A] @ events_loop json cs)"
| "events_loop json _ = ''''"

definition events :: "('m \<Rightarrow> string option) \<Rightarrow> bool \<Rightarrow> 'm choice list \<Rightarrow> response" where
  "events json flusher cs = (if \<not> flusher then StreamingUnsupported else EventStream (events_loop json cs))"

text \<open>
  \<open>query\<close> is the value of the query parameter \<^verbatim>\<open>token\<close> and \<open>header\<close> that of the header
  \<^verbatim>\<open>Authorization\<close>, both empty when absent; \<open>path\<close> is the path after the multiplexer's cleaning.
\<close>

definition presented :: "string \<Rightarrow> string \<Rightarrow> string" where
  "presented query header =
     (if query \<noteq> '''' then query
      else if length header > 7 \<and> take 7 header = ''Bearer '' then drop 7 header
      else header)"

definition auth :: "string \<Rightarrow> string \<Rightarrow> string \<Rightarrow> response \<Rightarrow> response" where
  "auth token query header h =
     (if token = '''' then h
      else if presented query header \<noteq> token then Unauthorized
      else h)"

definition Serve ::
    "('m \<Rightarrow> string option) \<Rightarrow> string \<Rightarrow> 'm \<Rightarrow> bool \<Rightarrow> 'm choice list \<Rightarrow> string \<Rightarrow> string \<Rightarrow> string \<Rightarrow> string \<Rightarrow> response" where
  "Serve json token snap flusher cs meth path query header =
     (if meth \<notin> {''GET'', ''HEAD''} then MethodNotAllowed
      else auth token query header
        (if path = ''/api/metrics'' then Json (case Encode json snap of None \<Rightarrow> '''' | Some s \<Rightarrow> s)
         else if path = ''/events'' then events json flusher cs
         else if path \<noteq> ''/'' then NotFound
         else Page))"

section \<open>Reading the stream\<close>

text \<open>
  How a browser reads an event stream: a field \<^verbatim>\<open>data\<close> adds a line to the event, with one space
  after the colon dropped, an empty line ends the event, and an event cut off is not seen.
\<close>

definition field_text :: "string \<Rightarrow> string" where
  "field_text s = (case s of CHR '' '' # t \<Rightarrow> t | _ \<Rightarrow> s)"

fun join_lines :: "string list \<Rightarrow> string" where
  "join_lines [] = []"
| "join_lines [l] = l"
| "join_lines (l # ls) = l @ CHR 0x0A # join_lines ls"

fun dispatch :: "string list \<Rightarrow> string list \<Rightarrow> string list" where
  "dispatch buf [] = []"
| "dispatch buf (l # ls) =
     (if l = '''' then (if buf = [] then dispatch [] ls else join_lines buf # dispatch [] ls)
      else if prefix ''data:'' l then dispatch (buf @ [field_text (drop 5 l)]) ls
      else dispatch buf ls)"

definition read_events :: "string \<Rightarrow> string list" where
  "read_events body = dispatch [] (lines_of body)"

text \<open>The snapshots an event stream is meant to carry: one per tick, until the end or a snapshot that has no encoding.\<close>

fun pushed :: "('m \<Rightarrow> string option) \<Rightarrow> 'm choice list \<Rightarrow> string list" where
  "pushed json (Tick m # cs) = (case json m of None \<Rightarrow> [] | Some j \<Rightarrow> j # pushed json cs)"
| "pushed json _ = []"

lemma lines_data: "CHR 0x0A \<notin> set j \<Longrightarrow>
    lines_of (''data: '' @ j @ CHR 0x0A # CHR 0x0A # s) = (''data: '' @ j) # '''' # lines_of s"
  using lines_of_line [of "''data: '' @ j" "CHR 0x0A # s"] by simp

lemma read_event:
  assumes "CHR 0x0A \<notin> set j"
  shows "read_events (''data: '' @ j @ CHR 0x0A # CHR 0x0A # s) = j # read_events s"
  unfolding read_events_def lines_data [OF assms] by (simp add: field_text_def)

section \<open>Properties\<close>

text \<open>
  The token. With a token configured, no page, metrics or event stream is given to a request
  that presents another one or none, in whatever field.
\<close>

theorem dashboard_needs_token:
  assumes "Serve json token snap flusher cs meth path query header \<in> {StreamingUnsupported, Page, Json j, EventStream s}"
  shows "token = '''' \<or> query = token \<or> header = token \<or> header = ''Bearer '' @ token"
proof -
  have h: "header = ''Bearer '' @ drop 7 header" if "take 7 header = ''Bearer ''"
    using append_take_drop_id [of 7 header] that by (simp only:)
  have "token = '''' \<or> presented query header = token"
    using assms by (auto simp: Serve_def auth_def split: if_splits)
  then show ?thesis
    using h by (auto simp: presented_def split: if_splits)
qed

text \<open>
  C30. The event stream, with a token or without, read as a browser reads it, gives exactly the
  encodings of the snapshots taken at the ticks, each once and in order, up to the first choice
  that ends the loop or the first snapshot that cannot be encoded, whose beginning is not seen.
  An encoding has no line break in it, as \<^verbatim>\<open>encoding/json\<close> has it without indentation.
\<close>

theorem events_read_back:
  assumes "\<forall>m j. json m = Some j \<longrightarrow> CHR 0x0A \<notin> set j"
    and "Serve json token snap True cs meth ''/events'' query header = EventStream body"
  shows "read_events body = pushed json cs"
proof -
  have "body = events_loop json cs"
    using assms(2) by (auto simp: Serve_def auth_def events_def split: if_splits)
  moreover have "read_events (events_loop json cs) = pushed json cs"
  proof (induction cs)
    case (Cons c cs)
    show ?case
    proof (cases c)
      case (Tick m)
      with Cons assms(1) show ?thesis
        by (cases "json m") (simp_all add: Encode_def read_event [simplified], simp add: read_events_def)
    qed (simp_all add: read_events_def)
  qed (simp add: read_events_def)
  ultimately show ?thesis by simp
qed

theorem events_read_back_witness:
  "read_events (''data: {}'' @ [CHR 0x0A, CHR 0x0A] @ ''data: '') = [''{}'']"
proof -
  let ?j = "\<lambda>b. if b then Some ''{}'' else None" and ?cs = "[Tick True, Tick False, Tick True]"
  have "Serve ?j ''t'' True True ?cs ''GET'' ''/events'' '''' ''Bearer t'' = EventStream (''data: {}'' @ [CHR 0x0A, CHR 0x0A] @ ''data: '')"
    by (simp add: Serve_def auth_def presented_def events_def Encode_def)
  from events_read_back [OF _ this] show ?thesis by simp
qed

end
