(* ===== verification/Endpoint.thy ===== *)
theory Endpoint
  imports Server GoText
begin

text \<open>
  The endpoints of \<^verbatim>\<open>bind.go\<close>: WireGuard keeps, per peer, the endpoint its last datagram came with
  and sends to it; here an endpoint is a session number. The bind's \<^verbatim>\<open>send\<close> is the engine's, in
  either mode, as \<^verbatim>\<open>engine.New\<close> wires it.
\<close>

section \<open>Definitions\<close>

text \<open>A \<^verbatim>\<open>conn.Endpoint\<close> is one of ours or of another type.\<close>

datatype 'x Endpoint = SessionEp SessionEndpoint | ForeignEp 'x

definition SrcToString :: "SessionEndpoint \<Rightarrow> string" where
  "SrcToString e = ''''"

definition DstToString :: "SessionEndpoint \<Rightarrow> string" where
  "DstToString e = ''session:'' @ decimal (unat e)"

definition SrcIP :: "SessionEndpoint \<Rightarrow> Addr" where
  "SrcIP e = NoAddr"

definition DstIP :: "SessionEndpoint \<Rightarrow> Addr" where
  "DstIP e = NoAddr"

definition SetMark :: "u32 \<Rightarrow> EngineBind \<Rightarrow> EngineBind" where
  "SetMark mark b = b"

definition Send :: "('b \<Rightarrow> SessionEndpoint \<Rightarrow> 'r) \<Rightarrow> 'b \<Rightarrow> 'x Endpoint \<Rightarrow> 'x + 'r" where
  "Send send bufs ep = (case ep of SessionEp s \<Rightarrow> Inr (send bufs s) | ForeignEp x \<Rightarrow> Inl x)"

definition ParseEndpoint :: "string \<Rightarrow> 'x Endpoint" where
  "ParseEndpoint s = SessionEp 0"

definition BatchSize :: nat where
  "BatchSize = 1"

text \<open>What \<^verbatim>\<open>engine.New\<close> gives to \<^verbatim>\<open>NewEngineBind\<close>: the client has one session and ignores the endpoint.\<close>

definition send_as_client :: "lib \<Rightarrow> Engine \<Rightarrow> (bytes \<times> env) list \<Rightarrow> SessionEndpoint \<Rightarrow> Engine option" where
  "send_as_client lb e bufs ep = clientSend lb bufs e"

definition send_as_server :: "lib \<Rightarrow> Server \<Rightarrow> (bytes \<times> senv) list \<Rightarrow> SessionEndpoint \<Rightarrow> Server option" where
  "send_as_server lb sv bufs ep = serverSend lb bufs ep sv"

section \<open>Lemmas\<close>

text \<open>
  Both texts of an endpoint name it: WireGuard's cookie state and log lines of two sessions are
  never confused.
\<close>

lemma DstToString_inj: "DstToString a = DstToString b \<Longrightarrow> a = b"
  using decimal_inj [of "unat a" "unat b"] by (auto simp: DstToString_def intro: unsigned_word_eqI)

lemma DstToBytes_inj:
  assumes "DstToBytes a = DstToBytes b"
  shows "a = b"
proof -
  have "\<exists>p. DstToBytes e = Some p \<and> get_u32 p 0 = Some e" for e
    by (simp add: DstToBytes_def go_bytes be32_byte_at [simplified])
  with assms show ?thesis by (metis option.inject)
qed

text \<open>
  WireGuard answers where it heard from: the endpoint that \<^verbatim>\<open>recv\<close> gave with a datagram makes
  \<^verbatim>\<open>Send\<close> serve the session the datagram was delivered for.
\<close>

lemma answer_reaches_session:
  assumes "Deliver pkt ep b = Some (b1, bo, True)" "rx b = Some i" "i < length (chans b)" "queue (chans b ! i) = []" "Bytes pkt = Some bs"
  shows "\<exists>b2 out ep'. recv i cap b1 = Some (b2, out, Received (take cap bs) ep') \<and>
    Send (send_as_server lb sv) bufs (SessionEp ep') = Inr (serverSend lb bufs ep sv)"
  using assms by (auto simp: Deliver_def recv_def upd_chan_def Send_def send_as_server_def split: if_splits)

text \<open>
  The client's placeholder endpoint, from the configuration text, is as good as any.
\<close>

lemma placeholder_sends: "Send (send_as_client lb e) bufs (ParseEndpoint s) = Inr (clientSend lb bufs e)"
  by (simp add: Send_def ParseEndpoint_def send_as_client_def)

end
