(* ===== verification/Spec2Isabelle.thy ===== *)
theory Spec2Isabelle
  imports Lifecycle Repair Steering Sessions Metrics Dashboard Endpoint
begin

text \<open>
  A verification of Treccia, a tunnel that bonds several WAN paths. A client and a server carry the
  ciphertext of an embedded WireGuard over all paths at once, resequence it at the far end, repair
  losses with parity packets and steer traffic by the measured quality of the paths.

  \<^bold>\<open>The program and its parts.\<close> WireGuard reads plaintext from a TUN device and hands ciphertext to
  the engine through a bind; the engine gives it a traffic class (found on the plaintext and carried
  over to the ciphertext by a correlator), a sequence number and a place in a FEC group, chooses a
  path by weight or by latency, frames it and writes it to the path's socket. The far engine parses
  the frame, finds the session, passes bulk packets through a resequencing buffer and a FEC decoder,
  and queues what comes out for its own WireGuard. Authenticated control messages (HELLO, BYE,
  PROBE, CTRL) register paths, measure them and carry receiver reports back. Configuration files,
  keys and a dashboard surround the two engines.

  \<^bold>\<open>Theories\<close> (file under \<^verbatim>\<open>src/\<close>, then theory), in the order of dependence:
  \<^item> \<open>Prelude\<close>: Go's integers as words, slices with out-of-range panics as \<open>None\<close>, big-endian fields,
    64-bit signed arithmetic on \<open>int\<close> with wrap-around (\<open>i64\<close>), durations, the locale \<open>conserving\<close>.
  \<^item> \<^verbatim>\<open>internal/wire\<close>: \<open>Wire\<close>. DATA and FEC headers, the MAC; one function per encoder and parser.
  \<^item> \<^verbatim>\<open>internal/control\<close>: \<open>Control\<close>. HELLO, BYE, PROBE, PROBE_ACK, CTRL and the replay check.
  \<^item> \<^verbatim>\<open>internal/reorder\<close>: \<open>Reorder\<close>, \<open>Window\<close>. The ring of 8192 slots, its hold timer and every operation;
    callbacks are an output list.
  \<^item> \<open>Float64\<close>: binary64 rounding of rationals. \<^verbatim>\<open>internal/pathmon\<close>: \<open>Link\<close> (estimator of one path) and
    \<open>Paths\<close> (receive statistics, choice of paths, hold). \<^verbatim>\<open>internal/sched\<close>: \<open>Sched\<close>.
  \<^item> \<^verbatim>\<open>internal/fec\<close>: \<open>Fec\<close>. \<^verbatim>\<open>internal/classify\<close>: \<open>Classify\<close>. \<^verbatim>\<open>internal/wgbridge\<close> and \<^verbatim>\<open>internal/buffers\<close>:
    \<open>Bridge\<close> (correlator, bind, TUN hook, slab pool), \<open>Endpoint\<close> (what WireGuard takes for the peer's
    address), \<open>Keys\<close> (keys, WireGuard's configuration text, with the key subcommands of
    \<^verbatim>\<open>internal/cli\<close>) and \<open>Netdev\<close> (address and routes of the interface).
  \<^item> \<^verbatim>\<open>internal/engine\<close>: \<open>Engine\<close> (\<^verbatim>\<open>engine.go\<close>, \<^verbatim>\<open>client.go\<close>) and \<open>ClientSafety\<close>; \<open>Server\<close> (\<^verbatim>\<open>server.go\<close>),
    \<open>ServerSafety\<close>, \<open>ServerProps\<close> and \<open>Sessions\<close>; \<open>Metrics\<close> (\<^verbatim>\<open>metrics.go\<close>). \<^verbatim>\<open>internal/dashboard\<close>: \<open>Dashboard\<close>.
    Both ends together: \<open>Receiving\<close> (a stream up to WireGuard's queue, for either end), \<open>Tunnel\<close>
    (client to server, registration), \<open>Downlink\<close> (server to client), \<open>FecLink\<close> and \<open>Repair\<close> (a FEC
    group across the network, in general and in both directions), \<open>Steering\<close> (the paths that the
    client's traffic takes).
  \<^item> \<open>GoText\<close>: the text functions of Go's library that the configuration uses (decimal numbers,
    \<^verbatim>\<open>Sscanf\<close>, white space, \<^verbatim>\<open>net/netip\<close>, base64). \<^verbatim>\<open>internal/config\<close>: \<open>Config\<close>. \<^verbatim>\<open>cmd/\<close>: \<open>Startup\<close>
    (from the files to the engine) and \<open>Lifecycle\<close> (command line, loops, waiting, bring-up, shutdown).

  \<^bold>\<open>How state and operations correspond.\<close> A Go struct is a record with its fields; a method is a
  function from the record to the record and its results; a run-time panic is \<open>None\<close>, a returned error
  a constructor. The engine is one record (the server extends it with its table of sessions), and a
  handler such as \<^verbatim>\<open>clientSend\<close>, \<^verbatim>\<open>handleServerDatagram\<close> or the body of a ticker loop is one function
  of it. Goroutines interleave handler calls, so a run is a list of calls (\<open>client_run\<close>, \<open>server_run\<close>)
  in any order. What the program obtains from outside is an argument: \<open>lib\<close> (BLAKE2s, Reed-Solomon,
  the order in which Go visits a map), \<open>env\<close> and \<open>senv\<close> (clocks, random numbers, whether a socket
  takes a datagram, old contents of a slab), the YAML decoder, Curve25519, the TUN device, netlink, the
  JSON encoder; for a whole process they are one record, \<open>machine\<close>. Three
  fields are not in the code and only record what it did: \<open>sent\<close>, the datagrams written;
  \<open>next_loan\<close> and \<open>returned\<close>, the slabs taken from the pool and given back.

  \<^bold>\<open>Interfaces.\<close> \<open>conserving\<close> (what goes in comes out or is held, exactly once) is interpreted by the
  resequencing buffer and by the bind, and the safety of the two engines rests on both; \<open>framing\<close>,
  \<open>authenticator\<close> and \<open>control_message\<close> with \<open>fixed_message\<close> state what an encoder and a parser
  promise each other and are interpreted by the two data formats, the MAC and the five control
  messages; \<open>float_rounding\<close> holds what the estimators use of rounding and is interpreted by \<open>rnd\<close>;
  \<open>validator\<close> says what loading a file promises and is interpreted by the client's and the server's;
  \<open>receiver\<close> says what one datagram does to the end that takes it and is interpreted by the server
  (\<open>up\<close>) and by the client (\<open>down\<close>), so that delivery in order is proved once for both. In the same
  way \<open>fec_sender\<close> and \<open>fec_receiver\<close> say what either end does with a FEC group, \<open>fec_link\<close> joins
  them, and both directions are interpretations (\<open>fec_up\<close>, \<open>fec_down\<close>).

  \<^bold>\<open>What is shown.\<close>
  \<^item> Formats: parsers never panic, accept exactly the intended layouts, round trips, authenticity.
  \<^item> Resequencing: every operation returns and keeps the ring's invariant, every packet is accounted
    for once, delivery is in order, any permutation of a block is restored, the timer expires gaps.
  \<^item> Repair: any \<open>k\<close> of the \<open>k + m\<close> packets of a group give back the missing ones; the decoder is bounded.
  \<^item> Estimators and scheduler, with rounding: ranges, the up/down machine, detection of a dead path,
    proportional shares, choice of the best paths, the hold.
  \<^item> Classifier and correlator: refinement of a specification in terms of the packets seen; classes
    reach the right datagrams; how the correlator can stay out of step.
  \<^item> Engines: no sequence of calls panics or leaks a slab, for the client and for the server; forged
    control messages change nothing; who may register and how a session ends; what an unauthenticated
    DATA datagram can move.
  \<^item> Configuration, keys, start: what is accepted, what a started client looks like, which text
    WireGuard gets, genkey and pubkey; what the dashboard shows and to whom.
  \<^item> Processes: each command runs from its command line to its shutdown with a known sequence of
    actions, WireGuard only over a complete interface, every failure with its own error, and the
    wait for a path ends; no route of an accepted file fails to parse when it is installed.
  \<^item> Both ends (this theory): a stream keeps its order in either direction, also when datagrams of
    its FEC groups are lost, a HELLO registers its path, and from two configuration files to
    traffic delivered. Traffic takes usable paths only (\<open>Steering\<close>).

  \<^bold>\<open>Bounds and termination.\<close> Loops are structural or have a measure, except two, which are a
  \<open>partial_function\<close>: \<open>expireLocked\<close> ends because each round releases a packet, and \<open>expireLocked_total\<close>
  shows that it returns in every state of the invariant; \<open>wait_rounds\<close> ends because each round waits
  25 ms, and \<open>WaitReady_returns\<close> bounds its rounds. No fuel is used.
  Two hypotheses keep a flow's 64-bit counters from wrapping: the classifier's refinement speaks of
  fewer than \<open>2 ^ 48\<close> packets, the safety of the engines of fewer than \<open>2 ^ 64\<close> calls.

  \<^bold>\<open>Not modelled.\<close> Sockets, resolving and dialling beyond success and failure; goroutines and locks
  beyond interleaved calls, since handlers hold the lock of what they change; names of paths and log
  lines; HTTP, the page and the shutdown of its server; the text that the JSON encoder produces; the
  simulator under \<^verbatim>\<open>test/\<close>. The sign of zero, infinities and NaN do not occur as float values.
\<close>

section \<open>Properties of the two ends together\<close>

text \<open>
  C2. The tunnel keeps the order of a stream. A client that sends plain bulk writes, for every
  datagram of a batch, one DATA datagram to one of its usable paths. If these reach a server
  whose session expects the client's next number (or has seen none and gets the first one
  first) in any order and from any addresses, and WireGuard's queue has room, then exactly the
  bytes of the batch are queued for WireGuard on the server, in the order in which the
  client's WireGuard sent them, under the client's session.
\<close>

theorem tunnel_keeps_order:
  assumes client: "bulk_ready e" "list_all (\<lambda>(ct, en). transport ct \<and> (\<forall>i d. net en i d)) bufs"
    and server: "lookupSession (session e) sv = Some s" "reorder_inv (sReorder s)" "occupied (sReorder s) = 0"
      "started (sReorder s) \<and> nextExpected (sReorder s) = globalSeq e + 1 \<or> \<not> started (sReorder s) \<and> js \<noteq> [] \<and> hd js = 0"
    and room: "open_queue (bind sv) = Some q" "length q + length bufs \<le> 1024"
    and arrival: "mset js = mset [0..<length bufs]"
  shows "\<exists>e' ds sv' q'. clientSend lb bufs e = Some e' \<and> sent e' = sent e @ ds \<and> length ds = length bufs \<and>
    server_feed lb (map (\<lambda>j. (ens j, addrs j, payload_of (ds ! j))) js) sv = Some sv' \<and>
    open_queue (bind sv') = Some (q @ q') \<and>
    map (\<lambda>x. (Ep x, Bytes (Pkt x))) q' = map (\<lambda>(ct, _). (session e, Some ct)) bufs"
  by (rule stream_carried [OF assms])

theorem tunnel_keeps_order_witness:
  "\<exists>e' ds sv' q'. clientSend no_lib [([4, 0, 0, 0, 1], some_env), ([4, 0, 0, 0, 2], some_env)] one_path_client = Some e' \<and>
    sent e' = ds \<and> server_feed no_lib (map (\<lambda>j. (some_senv, (NoAddr, 9), payload_of (ds ! j))) [0, 1]) one_session_server = Some sv' \<and>
    open_queue (bind sv') = Some q' \<and> map (\<lambda>x. (Ep x, Bytes (Pkt x))) q' = [(7, Some [4, 0, 0, 0, 1]), (7, Some [4, 0, 0, 0, 2])]"
proof -
  note s = one_session_server_facts
  have "mset [0, 1] = mset [0..<length [([4 :: byte, 0, 0, 0, 1], some_env), ([4, 0, 0, 0, 2], some_env)]]"
    by (simp add: upt_rec)
  from tunnel_keeps_order [OF one_path_client_facts(1) _ s(1,2,3) _ s(5) _ this, of no_lib "\<lambda>_. some_senv" "\<lambda>_. (NoAddr, 9)"]
  show ?thesis
    using s(4) one_path_client_facts(2,3) by (auto simp: transport_def simp del: clientSend.simps server_feed.simps)
qed

text \<open>
  C4. The way back keeps the order too. A server that sends plain bulk to a session with a live
  path writes one DATA datagram for every datagram of a batch. If these reach the client in any
  order, over any of its sockets, and its resequencing buffer expects the session's next number
  (or has seen none and gets the first one first), then exactly the bytes of the batch are
  queued for WireGuard on the client, in the order of sending.
\<close>

theorem return_keeps_order:
  assumes server: "sess_ready (session e) s sv" "list_all (sendable_down s) bufs"
    and client: "\<forall>i < length (paths e). conn (paths e ! i)" "reorder_inv (reorderBuf e)" "occupied (reorderBuf e) = 0"
      "started (reorderBuf e) \<and> nextExpected (reorderBuf e) = sGlobalSeq s + 1 \<or> \<not> started (reorderBuf e) \<and> js \<noteq> [] \<and> hd js = 0"
    and room: "open_queue (bind e) = Some q" "length q + length bufs \<le> 1024"
    and arrival: "mset js = mset [0..<length bufs]" "\<forall>j. via j < length (paths e)"
  shows "\<exists>sv' ds e' q'. serverSend lb bufs (session e) sv = Some sv' \<and> sent sv' = sent sv @ ds \<and> length ds = length bufs \<and>
    client_feed lb (map (\<lambda>j. (en j, ens j, via j, payload_of (ds ! j))) js) e = Some e' \<and> open_queue (bind e') = Some (q @ q') \<and>
    map (\<lambda>x. (Ep x, Bytes (Pkt x))) q' = map (\<lambda>(ct, _). (session e, Some ct)) bufs"
  by (rule stream_returned [OF assms])

theorem return_keeps_order_witness:
  "\<exists>sv' ds e' q'. serverSend no_lib [([4, 0, 0, 0, 1], some_senv), ([4, 0, 0, 0, 2], some_senv)] (session open_client) path_server = Some sv' \<and>
    sent sv' = ds \<and> length ds = 2 \<and>
    client_feed no_lib (map (\<lambda>j. (some_env, \<lambda>_. some_env, 0, payload_of (ds ! j))) [0, 1]) open_client = Some e' \<and>
    open_queue (bind e') = Some q' \<and>
    map (\<lambda>x. (Ep x, Bytes (Pkt x))) q' = [(session open_client, Some [4, 0, 0, 0, 1]), (session open_client, Some [4, 0, 0, 0, 2])]"
proof -
  note c = open_client_facts and s = path_server_facts
  let ?bufs = "[([4 :: byte, 0, 0, 0, 1], some_senv), ([4, 0, 0, 0, 2], some_senv)]"
  have b: "list_all (sendable_down path_session) ?bufs" using s(2) by (simp add: sendable_down_def transport_def)
  have js: "mset [0, 1] = mset [0..<length ?bufs]" by (simp add: upt_rec)
  have via: "\<forall>j :: nat. 0 < length (paths open_client)" by (simp add: c(6))
  from return_keeps_order [OF s(1) b c(1-3) _ c(5) _ js via, of no_lib "\<lambda>_. some_env" "\<lambda>_ _. some_env"]
  show ?thesis
    using c(4) s(3) by (auto simp del: server_batch.simps client_feed.simps)
qed

text \<open>
  C3. The tunnel survives losses. A client with FEC at geometry \<open>k:m\<close>, between groups, sends \<open>k\<close>
  transport datagrams of at most 2024 bytes: \<open>k + m\<close> datagrams go out. If any \<open>k\<close> of them, in any
  order and from any addresses, reach a server whose session expects the client's next number,
  whose decoder holds no group and does not sweep on the way, and whose WireGuard queue has
  room, then exactly the bytes of all \<open>k\<close> datagrams are queued for WireGuard on the server, in
  the order of sending: the decoder hands the lost ones to the resequencing buffer.
\<close>

theorem tunnel_repairs_losses:
  assumes code: "erasure_code (rs_enc lb) (rs_rec lb) k m" "0 < k" "0 < m" "k + m < 128"
    and encoder: "eshards enc = []" "params enc = \<lparr>K = k, M = m\<rparr>"
    and client: "clear_to_send e" "fecEnc e = Some enc" "length bufs = k" "list_all sendable_buf bufs"
    and server: "lookupSession (session e) sv = Some s" "sFecDec s = Some dc" "reorder_inv (sReorder s)" "started (sReorder s)"
      "occupied (sReorder s) = 0" "nextExpected (sReorder s) = globalSeq e + 1" "open_queue (bind sv) = Some q"
    and room: "idle k dc" "length q + k \<le> 1024"
    and arrival: "distinct js" "set js \<subseteq> {..<k + m}" "length js = k"
  shows "\<exists>e' ds sv' q'. clientSend lb bufs e = Some e' \<and> sent e' = sent e @ ds \<and> length ds = k + m \<and>
    server_feed lb (map (\<lambda>j. (ens j, addrs j, payload_of (ds ! j))) js) sv = Some sv' \<and>
    open_queue (bind sv') = Some (q @ q') \<and>
    map (\<lambda>x. (Ep x, Bytes (Pkt x))) q' = map (\<lambda>(ct, _). (session e, Some ct)) bufs"
  by (rule group_carried [OF assms])

theorem tunnel_repairs_losses_witness:
  "\<exists>e' ds sv' q'. clientSend xor_lib [([4, 0, 0, 0, 1], some_env), ([4, 0, 0, 0, 2, 3], some_env)] fec_client = Some e' \<and>
    sent e' = ds \<and> length ds = 3 \<and>
    server_feed xor_lib (map (\<lambda>j. (some_senv, (NoAddr, 9), payload_of (ds ! j))) [2, 1]) fec_server = Some sv' \<and>
    open_queue (bind sv') = Some q' \<and> map (\<lambda>x. (Ep x, Bytes (Pkt x))) q' = [(7, Some [4, 0, 0, 0, 1]), (7, Some [4, 0, 0, 0, 2, 3])]"
proof -
  let ?bufs = "[([4 :: byte, 0, 0, 0, 1], some_env), ([4, 0, 0, 0, 2, 3], some_env)]"
  note s = fec_server_facts
  have c: "erasure_code (rs_enc xor_lib) (rs_rec xor_lib) 2 1" using xor_erasure by (simp add: xor_lib_def)
  have e: "eshards (SetParams \<lparr>K = 2, M = 1\<rparr> NewEncoder) = []" "params (SetParams \<lparr>K = 2, M = 1\<rparr> NewEncoder) = \<lparr>K = 2, M = 1\<rparr>"
    by (simp_all add: SetParams_def NewEncoder_def)
  have b: "length ?bufs = 2" "list_all sendable_buf ?bufs" by (simp_all add: sendable_buf_def transport_def)
  have l: "lookupSession (session fec_client) fec_server = Some fec_session" "nextExpected (sReorder fec_session) = globalSeq fec_client + 1"
    using s(1,6) fec_client_facts(3,4) by simp_all
  have r: "idle 2 NewDecoder" "length ([] :: Inbound list) + 2 \<le> 1024" by (simp_all add: idle_def NewDecoder_def)
  have a: "distinct [2, 1 :: nat]" "set [2, 1 :: nat] \<subseteq> {..<2 + 1}" "length [2, 1 :: nat] = 2" by auto
  from tunnel_repairs_losses [OF c _ _ _ e fec_client_facts(1,2) b l(1) s(2-5) l(2) s(7) r a, of "\<lambda>_. some_senv" "\<lambda>_. (NoAddr, 9)"]
  show ?thesis
    using fec_client_facts(3,5) by (auto simp del: clientSend.simps server_feed.simps)
qed

text \<open>
  C5. Losses on the way back. A session of the server with FEC at geometry \<open>k:m\<close>, between groups,
  is given \<open>k\<close> transport datagrams of at most 2024 bytes by WireGuard while its paths are alive:
  \<open>k + m\<close> datagrams go out. If any \<open>k\<close> of them, in any order and over any of its sockets, reach a
  client that expects the session's next number, whose decoder holds no group and does not sweep
  on the way, and whose WireGuard queue has room, then exactly the bytes of all \<open>k\<close> datagrams are
  queued for WireGuard on the client, in the order of sending.
\<close>

theorem return_repairs_losses:
  assumes code: "erasure_code (rs_enc lb) (rs_rec lb) k m" "0 < k" "0 < m" "k + m < 128"
    and encoder: "eshards enc = []" "params enc = \<lparr>K = k, M = m\<rparr>"
    and server: "sess_clear (session e) s sv" "sFecEnc s = Some enc" "length bufs = k" "list_all (sendable_group s) bufs"
    and client: "\<forall>i < length (paths e). conn (paths e ! i)" "fecDec e = Some dc" "reorder_inv (reorderBuf e)" "started (reorderBuf e)"
      "occupied (reorderBuf e) = 0" "nextExpected (reorderBuf e) = sGlobalSeq s + 1" "open_queue (bind e) = Some q"
    and room: "idle k dc" "length q + k \<le> 1024"
    and arrival: "distinct js" "set js \<subseteq> {..<k + m}" "length js = k" "\<forall>j. via j < length (paths e)"
  shows "\<exists>sv' ds e' q'. serverSend lb bufs (session e) sv = Some sv' \<and> sent sv' = sent sv @ ds \<and> length ds = k + m \<and>
    client_feed lb (map (\<lambda>j. (en j, ens j, via j, payload_of (ds ! j))) js) e = Some e' \<and> open_queue (bind e') = Some (q @ q') \<and>
    map (\<lambda>x. (Ep x, Bytes (Pkt x))) q' = map (\<lambda>(ct, _). (session e, Some ct)) bufs"
  by (rule group_returned [OF assms])

theorem return_repairs_losses_witness:
  "\<exists>sv' ds e' q'. serverSend xor_lib [([4, 0, 0, 0, 1], some_senv), ([4, 0, 0, 0, 2, 3], some_senv)] 7 fec_path_server = Some sv' \<and>
    sent sv' = ds \<and> length ds = 3 \<and>
    client_feed xor_lib (map (\<lambda>j. (some_env, (\<lambda>_. some_env), 0, payload_of (ds ! j))) [2, 1]) fec_open_client = Some e' \<and>
    open_queue (bind e') = Some q' \<and> map (\<lambda>x. (Ep x, Bytes (Pkt x))) q' = [(7, Some [4, 0, 0, 0, 1]), (7, Some [4, 0, 0, 0, 2, 3])]"
proof -
  let ?bufs = "[([4 :: byte, 0, 0, 0, 1], some_senv), ([4, 0, 0, 0, 2, 3], some_senv)]"
  note s = fec_path_server_facts and e = fec_open_client_facts
  have c: "erasure_code (rs_enc xor_lib) (rs_rec xor_lib) 2 1" using xor_erasure by (simp add: xor_lib_def)
  have en: "eshards (SetParams \<lparr>K = 2, M = 1\<rparr> NewEncoder) = []" "params (SetParams \<lparr>K = 2, M = 1\<rparr> NewEncoder) = \<lparr>K = 2, M = 1\<rparr>"
    by (simp_all add: SetParams_def NewEncoder_def)
  have t: "now some_senv = 1000 * Second" "now_at some_senv k = 1000 * Second" "net_to some_senv a d" for k a d
    by (simp_all add: some_senv_def env.extend_def some_env_def)
  have b: "length ?bufs = 2" "list_all (sendable_group fec_path_session) ?bufs"
    using s(4) by (simp_all add: sendable_group_def sendable_down_def transport_def t)
  have n: "nextExpected (reorderBuf fec_open_client) = sGlobalSeq fec_path_session + 1" using s(3) e(6) by simp
  have r: "idle 2 NewDecoder" "length ([] :: Inbound list) + 2 \<le> 1024" by (simp_all add: idle_def NewDecoder_def)
  have a: "distinct [2, 1 :: nat]" "set [2, 1 :: nat] \<subseteq> {..<2 + 1}" "length [2, 1 :: nat] = 2" by auto
  from return_repairs_losses [OF c _ _ _ en s(1,2) b e(1-5) n e(7) r a, of "\<lambda>_. 0" "\<lambda>_. some_env" "\<lambda>_ _. some_env"]
  show ?thesis
    using e(8,9) s(5) by (auto simp del: server_batch.simps client_feed.simps)
qed

text \<open>
  C6. Registration. The HELLO of a path is due one second after the last one while the path is
  not registered and fifteen seconds after it once it is. Before that nothing happens. When it
  is due, it is sent, and carried to a server with the same key whose table has no such session
  or one of this client, it is acknowledged, and the acknowledgement registers the path, provided
  both arrive within the replay window of the receiver's clock. The server then knows the path
  under the address the HELLO came from, and after the first registration no datagram is left
  waiting for a path.
\<close>

theorem handshake_registers_path:
  assumes client: "client_inv insp X e" "i < length (paths e)" "conn (paths e ! i)" "\<forall>d. net en i d"
    and server: "mac sv = mac e" "case lookupSession (session e) sv of None \<Rightarrow> True | Some s \<Rightarrow> SClientID s = clientID e"
      "\<forall>d. net_to sen a d"
    and fresh: "FreshTS (Unix (now en)) (Unix (now sen))" "FreshTS (Unix (now_at sen 2)) (Unix (now en2))"
  shows "if i64 (now en - lastHello (paths e ! i)) < (if registered (paths e ! i) then 15 * Second else Second)
    then hello_path lb en i e = Some e
    else \<exists>e1 d sv1 ack e2 s ps. hello_path lb en i e = Some e1 \<and> sent e1 = sent e @ [Tx i d] \<and>
      lastHello (paths e1 ! i) = now en \<and>
      serverRx lb sen (Some (d, a)) sv = Some sv1 \<and> sent sv1 = sent sv @ [TxTo a ack] \<and>
      clientRx lb en2 ens i (Some ack) e1 = Some e2 \<and> registered (paths e2 ! i) \<and>
      (\<not> registered (paths e ! i) \<longrightarrow> pending e2 = []) \<and>
      lookupSession (session e) sv1 = Some s \<and> path_of (pid (paths e ! i)) s = Some ps \<and> addr ps = a"
proof (cases "i64 (now en - lastHello (paths e ! i)) < (if registered (paths e ! i) then 15 * Second else Second)")
  case True
  then show ?thesis by (simp only: hello_not_due if_True)
next
  case False
  let ?i = "pid (paths e ! i)"
  let ?d = "hello_to lb e 5 ?i (Unix (now en))" and ?ack = "hello_to lb e 6 ?i (Unix (now_at sen 2))"
  let ?e1 = "(upd_path i (\<lambda>p. p\<lparr>lastHello := now en\<rparr>) e)\<lparr>sent := sent e @ [Tx i ?d]\<rparr>"
  have h: "hello_path lb en i e = Some ?e1"
    using client False by (intro hello_goes_out) (simp_all only: not_less)
  obtain sv1 s ps where s: "serverRx lb sen (Some (?d, a)) sv = Some sv1" "sent sv1 = sent sv @ [TxTo a ?ack]"
      "(\<lambda>sid. lookupSession sid sv1) = (\<lambda>sid. lookupSession sid sv)(session e := Some s)" "path_of ?i s = Some ps" "addr ps = a"
    using hello_answered [OF server fresh(1), of lb ?i] by blast
  have "lookupSession (session e) sv1 = Some s"
    using fun_cong [OF s(3), of "session e"] by simp
  moreover have p1: "length (paths ?e1) = length (paths e)" "pid (paths ?e1 ! i) = ?i" "conn (paths ?e1 ! i)"
      "registered (paths ?e1 ! i) = registered (paths e ! i)" "lastHello (paths ?e1 ! i) = now en"
      "mac ?e1 = mac e" "session ?e1 = session e" "clientID ?e1 = clientID e"
    using client(2,3) by (simp_all add: upd_path_def)
  then obtain e2 where "clientRx lb en2 ens i (Some ?ack) ?e1 = Some e2" "registered (paths e2 ! i)"
      "\<not> registered (paths e ! i) \<longrightarrow> pending e2 = []"
    using hello_ack_registers [of insp X ?e1 i "Unix (now_at sen 2)" en2 lb ens] client(1,2) fresh(2) by auto
  ultimately show ?thesis
    unfolding if_not_P [OF False] using h s p1(5)
    by (intro exI [of _ ?e1] exI [of _ ?d] exI [of _ sv1] exI [of _ ?ack] exI [of _ e2] exI [of _ s] exI [of _ ps]) simp
qed

theorem handshake_registers_path_witness:
  "\<exists>e1 d sv1 ack e2. hello_path no_lib some_env 0 joining_client = Some e1 \<and> sent e1 = [Tx 0 d] \<and>
    serverRx no_lib some_senv (Some (d, (NoAddr, 9))) one_session_server = Some sv1 \<and> sent sv1 = [TxTo (NoAddr, 9) ack] \<and>
    clientRx no_lib some_env (\<lambda>_. some_env) 0 (Some ack) e1 = Some e2 \<and> registered (paths e2 ! 0) \<and> pending e2 = []"
proof -
  note c = joining_client_facts
  have "FreshTS (Unix (now some_env)) (Unix (now some_senv))" "FreshTS (Unix (now_at some_senv 2)) (Unix (now some_env))"
    by (simp_all add: FreshTS_def ReplayWindow_def quot_def time_units)
  from handshake_registers_path [OF c(1-3) _ one_session_server_facts(6,7) [folded c(6-8)] _ this,
      of "(NoAddr, 9)" no_lib "\<lambda>_. some_env"]
  show ?thesis
    using c(4,5,9) one_session_server_facts(8)
    by (auto split: if_splits)
qed

text \<open>
  C1. From two configuration files to traffic. A client and a server that start from accepted
  files with the same control key, classification and FEC off on the client, and whose WireGuard
  devices are up: a first HELLO on any configured path, answered by the server and the answer
  received, each within the replay window, and then a batch of transport datagrams whose packets
  reach the server in any order that starts with the first. Then exactly the bytes of the batch
  are queued for WireGuard on the server, in order, under the client's session.
\<close>

theorem cold_start_carries_traffic:
  assumes client: "start_client hash yaml file rand tun ipc ask = Inr e" "LoadClient yaml file = Inr cfg"
      "ClassifyDisabled (cClassify cfg)" "FECDisabled (cFEC cfg)" "i < length (cPaths cfg)"
    and server: "start_server hash yaml' file' tun' ipc' = Inr sv0" "LoadServer yaml' file' = Inr scfg"
      "sControlPSK scfg = cControlPSK cfg" "sv = sv0\<lparr>bind := fst (Open (bind sv0))\<rparr>"
    and hello: "helloRefresh \<le> i64 (now en)" "\<forall>d. net en i d" "\<forall>d. net_to sen a d"
      "FreshTS (Unix (now en)) (Unix (now sen))" "FreshTS (Unix (now_at sen 2)) (Unix (now en2))"
    and data: "list_all (\<lambda>(ct, en). transport ct \<and> (\<forall>i d. net en i d)) bufs" "length bufs \<le> 1024"
      "mset js = mset [0..<length bufs]" "js \<noteq> []" "hd js = 0"
  shows "\<exists>e1 d sv1 ack e2 e3 ds sv2 q. hello_path lb en i e = Some e1 \<and> sent e1 = sent e @ [Tx i d] \<and>
    serverRx lb sen (Some (d, a)) sv = Some sv1 \<and> sent sv1 = sent sv @ [TxTo a ack] \<and>
    clientRx lb en2 ens i (Some ack) e1 = Some e2 \<and> clientSend lb bufs e2 = Some e3 \<and> sent e3 = sent e2 @ ds \<and>
    length ds = length bufs \<and>
    server_feed lb (map (\<lambda>j. (sens j, addrs j, payload_of (ds ! j))) js) sv1 = Some sv2 \<and>
    open_queue (bind sv2) = Some q \<and>
    map (\<lambda>x. (Ep x, Bytes (Pkt x))) q = map (\<lambda>(ct, _). (session e, Some ct)) bufs"
proof -
  obtain r force where r: "started_as (length (cPaths cfg)) (NewClient (NewMAC (DeriveKey hash (str_bytes (cControlPSK cfg))))
       (session_of r) (client_id_of r) None True force) e"
    using start_client_as [OF client(1,2)] client(3,4) by (auto simp: rules_of_def)
  obtain rs dis force' where sv: "sv0 = NewServer (NewMAC (DeriveKey hash (str_bytes (cControlPSK cfg)))) rs dis force'"
    using start_server_as [OF server(1,2)] server(3) by auto
  have sv0: "mac sv = mac e" "lookupSession (session e) sv = None" "open_queue (bind sv) = Some []"
    using r by (simp_all add: server(4) sv started_as_def NewServer_def NewClient_def lookupSession_def Engine.Engine.extend_def
        open_queue_def Open_def NewEngineBind_def)
  have n: "pending (NewClient mc ss cid rs dis force) = []" for mc ss cid rs dis by (simp add: NewClient_def)
  obtain e1 d sv1 ack s where h: "hello_path lb en i e = Some e1" "sent e1 = sent e @ [Tx i d]"
      "serverRx lb sen (Some (d, a)) sv = Some sv1" "sent sv1 = sent sv @ [TxTo a ack]"
      "clientRx lb en2 ens i (Some ack) e1 = Some (joined i (now en) (now en2) [Tx i d] e)"
      "lookupSession (session e) sv1 = Some s" "sReorder s = Reorder.New" "bind sv1 = bind sv"
    using first_handshake [OF r n client(5) sv0(1,2) hello, of lb ens] by blast
  have b: "bulk_ready (joined i (now en) (now en2) [Tx i d] e)"
    using joined_bulk_ready [OF r _ _ client(5)] by (simp add: NewClient_def)
  have "\<not> started (sReorder s)" "occupied (sReorder s) = 0" "reorder_inv (sReorder s)"
    using h(7) New_inv [where 'a = Packet] by (simp_all add: Reorder.New_def)
  then show ?thesis
    using stream_carried [OF b data(1), of sv1 s js "[]" lb sens addrs] h sv0(3) data by auto
qed

theorem cold_start_carries_traffic_witness:
  "\<exists>e sv0 e1 d sv1 ack e2 e3 ds sv2 q.
    start_client id (\<lambda>_. Some site_client) (Some []) (Some (replicate 12 0)) (\<lambda>_ _. True) (\<lambda>_. True) (\<lambda>_ _. some_env) = Inr e \<and>
    start_server id (\<lambda>_. Some site_server) (Some []) (\<lambda>_ _. True) (\<lambda>_. True) = Inr sv0 \<and>
    hello_path no_lib some_env 1 e = Some e1 \<and> sent e1 = sent e @ [Tx 1 d] \<and>
    serverRx no_lib some_senv (Some (d, (NoAddr, 9))) (sv0\<lparr>bind := fst (Open (bind sv0))\<rparr>) = Some sv1 \<and>
    clientRx no_lib some_env (\<lambda>_. some_env) 1 (Some ack) e1 = Some e2 \<and>
    clientSend no_lib [([4, 0, 0, 0, 1], some_env), ([4, 0, 0, 0, 2], some_env)] e2 = Some e3 \<and> sent e3 = sent e2 @ ds \<and>
    server_feed no_lib (map (\<lambda>j. (some_senv, (NoAddr, 9), payload_of (ds ! j))) [0, 1]) sv1 = Some sv2 \<and>
    open_queue (bind sv2) = Some q \<and>
    map (\<lambda>x. (Ep x, Bytes (Pkt x))) q = [(session e, Some [4, 0, 0, 0, 1]), (session e, Some [4, 0, 0, 0, 2])]"
proof -
  let ?bufs = "[([4 :: byte, 0, 0, 0, 1], some_env), ([4, 0, 0, 0, 2], some_env)]"
  obtain e where e: "start_client id (\<lambda>_. Some site_client) (Some []) (Some (replicate 12 0)) (\<lambda>_ _. True) (\<lambda>_. True) (\<lambda>_ _. some_env) = Inr e"
    using site_starts(1) by blast
  obtain sv0 where sv: "start_server id (\<lambda>_. Some site_server) (Some []) (\<lambda>_ _. True) (\<lambda>_. True) = Inr sv0"
    using site_starts(2) by blast
  obtain c where c: "LoadClient (\<lambda>_. Some site_client) (Some []) = Inr c" "ClassifyDisabled (cClassify c)" "FECDisabled (cFEC c)"
      "length (cPaths c) = 2" "cControlPSK c = ''psk''"
    using site_loads(1) by blast
  obtain s where s: "LoadServer (\<lambda>_. Some site_server) (Some []) = Inr s" "sControlPSK s = ''psk''"
    using site_loads(2) by blast
  have f: "FreshTS (Unix (now some_env)) (Unix (now some_senv))" "FreshTS (Unix (now_at some_senv 2)) (Unix (now some_env))"
    by (simp_all add: FreshTS_def ReplayWindow_def quot_def time_units)
  have h: "helloRefresh \<le> i64 (now some_env)" by (simp add: helloRefresh_def i64_def time_units)
  have js: "mset [0, 1] = mset [0..<length ?bufs]" by (simp add: upt_rec)
  have i: "1 < length (cPaths c)" using c(4) by simp
  have p: "sControlPSK s = cControlPSK c" using c(5) s(2) by simp
  have n: "\<forall>d. net some_env 1 d" "\<forall>d. net_to some_senv (NoAddr, 9) d" by simp_all
  have t: "list_all (\<lambda>(ct, en). transport ct \<and> (\<forall>i d. net en i d)) ?bufs" "length ?bufs \<le> 1024"
    by (simp_all add: transport_def)
  have x: "map (\<lambda>(ct, _). (session e, Some ct)) ?bufs = [(session e, Some [4, 0, 0, 0, 1]), (session e, Some [4, 0, 0, 0, 2])]"
    by simp
  have "[0, 1 :: nat] \<noteq> []" "hd [0, 1] = (0 :: nat)" by simp_all
  from cold_start_carries_traffic [OF e c(1-3) i sv s(1) p refl h n f t js this,
      of no_lib "\<lambda>_. some_env" "\<lambda>_. some_senv" "\<lambda>_. (NoAddr, 9)", unfolded x] e sv
  show ?thesis by (elim exE conjE, intro exI conjI) assumption+
qed

end
